(* ===== verification/Engine_Prelude.thy ===== *)
theory Engine_Prelude
  imports Main "HOL-Library.Word" "HOL-Library.Multiset"
begin

text \<open>
  The vocabulary the components share: machine integers and byte strings, the
  little- and big-endian accessors of Go's \<^verbatim>\<open>encoding/binary\<close>, positional reads
  and writes on a file's contents, and the interface of a fixed-width record
  codec.  The collections \<open>codec_simps\<close> and \<open>io_simps\<close> carry the rewriting of
  the component theories.
\<close>

unbundle bit_operations_syntax

named_theorems codec_simps "encode/decode equations of fixed-width fields"
named_theorems io_simps "positional reads and writes on file contents"

type_synonym byte = "8 word"
type_synonym bytes = "byte list"
type_synonym u16 = "16 word"
type_synonym u32 = "32 word"
type_synonym u64 = "64 word"

section \<open>Options\<close>

lemma option_eqI: "(\<And>v. a = Some v \<longleftrightarrow> b = Some v) \<Longrightarrow> a = b"
  by (cases a; cases b) auto

section \<open>Byte order\<close>

text \<open>\<open>le_enc n v\<close> is the \<open>n\<close>-byte little-endian form of \<open>v\<close> (its low \<open>8 * n\<close> bits).\<close>

primrec le_enc :: "nat \<Rightarrow> nat \<Rightarrow> bytes" where
  "le_enc 0 v = []"
| "le_enc (Suc n) v = of_nat (v mod 256) # le_enc n (v div 256)"

primrec le_dec :: "bytes \<Rightarrow> nat" where
  "le_dec [] = 0"
| "le_dec (b # bs) = unat b + 256 * le_dec bs"

definition be_dec :: "bytes \<Rightarrow> nat" where
  "be_dec bs = le_dec (rev bs)"

lemma length_le_enc [simp]: "length (le_enc n v) = n"
  by (induction n arbitrary: v) auto

lemma unat_byte_lt [simp]: "unat (b :: byte) < 256"
  using unsigned_less [of b, where ?'a = nat] by simp

lemma unat_of_nat_byte [simp]: "unat (of_nat (v mod 256) :: byte) = v mod 256"
  by (simp add: unat_of_nat)

lemma le_dec_enc: "le_dec (le_enc n v) = v mod 256 ^ n"
  by (induction n arbitrary: v) (simp_all add: mod_mult2_eq)

lemma le_dec_bound: "le_dec bs < 256 ^ length bs"
proof (induction bs)
  case Nil
  then show ?case by simp
next
  case (Cons b bs)
  have "unat b + 256 * le_dec bs < 256 + 256 * le_dec bs"
    by simp
  also have "\<dots> = 256 * Suc (le_dec bs)"
    by simp
  also have "\<dots> \<le> 256 * 256 ^ length bs"
    using Cons.IH by (intro mult_left_mono) auto
  finally show ?case by simp
qed

lemma le_enc_dec: "le_enc (length bs) (le_dec bs) = bs"
proof (induction bs)
  case Nil
  then show ?case by simp
next
  case (Cons b bs)
  have "(unat b + 256 * le_dec bs) mod 256 = unat b"
    by (simp add: mod_mult_self2)
  moreover have "(unat b + 256 * le_dec bs) div 256 = le_dec bs"
    by simp
  ultimately show ?case using Cons.IH by simp
qed

lemma le_dec_inj: "length as = length bs \<Longrightarrow> le_dec as = le_dec bs \<Longrightarrow> as = bs"
  by (metis le_enc_dec)

lemma be_dec_inj: "length as = length bs \<Longrightarrow> be_dec as = be_dec bs \<Longrightarrow> as = bs"
  using le_dec_inj [of "rev as" "rev bs"] by (simp add: be_dec_def)

lemma be_dec_bound: "be_dec bs < 256 ^ length bs"
  using le_dec_bound [of "rev bs"] by (simp add: be_dec_def)


section \<open>The accessors of encoding/binary\<close>

definition put16 :: "u16 \<Rightarrow> bytes" where
  "put16 w = le_enc 2 (unat w)"

definition put32 :: "u32 \<Rightarrow> bytes" where
  "put32 w = le_enc 4 (unat w)"

definition put64 :: "u64 \<Rightarrow> bytes" where
  "put64 w = le_enc 8 (unat w)"

text \<open>
  The decoders read the first bytes of a slice that is at least that long, as every
  call site of the source guarantees by its slice bounds.
\<close>

definition get16 :: "bytes \<Rightarrow> u16" where
  "get16 bs = of_nat (le_dec (take 2 bs))"

definition get32 :: "bytes \<Rightarrow> u32" where
  "get32 bs = of_nat (le_dec (take 4 bs))"

definition get64 :: "bytes \<Rightarrow> u64" where
  "get64 bs = of_nat (le_dec (take 8 bs))"

definition getBE64 :: "bytes \<Rightarrow> u64" where
  "getBE64 bs = of_nat (be_dec (take 8 bs))"

text \<open>The half-open slice \<open>bs[a:b]\<close> of a slice that is at least \<open>b\<close> bytes long.\<close>

definition bslice :: "nat \<Rightarrow> nat \<Rightarrow> 'a list \<Rightarrow> 'a list" where
  "bslice a b xs = take (b - a) (drop a xs)"

lemma length_put [simp]:
  "length (put16 w16) = 2" "length (put32 w32) = 4" "length (put64 w64) = 8"
  by (simp_all add: put16_def put32_def put64_def)

lemma unat_lt_u16: "unat (w :: u16) < 65536"
  using unsigned_less [of w, where ?'a = nat] by simp

lemma unat_lt_u32: "unat (w :: u32) < 4294967296"
  using unsigned_less [of w, where ?'a = nat] by simp

lemma unat_lt_u64: "unat (w :: u64) < 18446744073709551616"
  using unsigned_less [of w, where ?'a = nat] by simp

lemma get_put [simp, codec_simps]:
  "get16 (put16 w16 @ r) = w16"
  "get32 (put32 w32 @ r) = w32"
  "get64 (put64 w64 @ r) = w64"
  "get16 (put16 w16) = w16"
  "get32 (put32 w32) = w32"
  "get64 (put64 w64) = w64"
  using unat_lt_u16 [of w16] unat_lt_u32 [of w32] unat_lt_u64 [of w64]
  by (simp_all add: get16_def get32_def get64_def put16_def put32_def put64_def le_dec_enc)

lemma unat_get16: "length bs \<ge> 2 \<Longrightarrow> unat (get16 bs) = le_dec (take 2 bs)"
  using le_dec_bound [of "take 2 bs"] by (simp add: get16_def unat_of_nat min_absorb2)

lemma unat_get32: "length bs \<ge> 4 \<Longrightarrow> unat (get32 bs) = le_dec (take 4 bs)"
  using le_dec_bound [of "take 4 bs"] by (simp add: get32_def unat_of_nat min_absorb2)

lemma unat_get64: "length bs \<ge> 8 \<Longrightarrow> unat (get64 bs) = le_dec (take 8 bs)"
  using le_dec_bound [of "take 8 bs"] by (simp add: get64_def unat_of_nat min_absorb2)

lemma put_get:
  "length bs = 2 \<Longrightarrow> put16 (get16 bs) = bs"
  "length bs = 4 \<Longrightarrow> put32 (get32 bs) = bs"
  "length bs = 8 \<Longrightarrow> put64 (get64 bs) = bs"
  using le_enc_dec [of bs] 
  by (simp_all add: put16_def put32_def put64_def unat_get16 unat_get32 unat_get64)

lemma unat_getBE64: "length bs \<ge> 8 \<Longrightarrow> unat (getBE64 bs) = be_dec (take 8 bs)"
  using be_dec_bound [of "take 8 bs"] by (simp add: getBE64_def unat_of_nat min_absorb2)

lemma bslice_zero [simp, codec_simps]: "bslice 0 b xs = take b xs"
  by (simp add: bslice_def)

lemma length_bslice: "b \<le> length xs \<Longrightarrow> length (bslice a b xs) = b - a"
  by (simp add: bslice_def)

lemma bslice_append_drop [codec_simps]:
  "length xs \<le> a \<Longrightarrow> bslice a b (xs @ ys) = bslice (a - length xs) (b - length xs) ys"
  by (simp add: bslice_def)

lemma bslice_append_take [codec_simps]:
  "length xs = b - a \<Longrightarrow> a = 0 \<Longrightarrow> bslice a b (xs @ ys) = xs"
  by (simp add: bslice_def)

section \<open>Signed machine integers\<close>

text \<open>
  A Go \<^verbatim>\<open>int64\<close> is the integer it denotes; \<open>i64\<close> is the wrap-around of an operation
  on it.  Division and remainder truncate towards zero.
\<close>

definition i64 :: "int \<Rightarrow> int" where
  "i64 x = (x + 9223372036854775808) mod 18446744073709551616 - 9223372036854775808"

definition go_quot :: "int \<Rightarrow> int \<Rightarrow> int" where
  "go_quot a b = sgn a * sgn b * (\<bar>a\<bar> div \<bar>b\<bar>)"

definition go_rem :: "int \<Rightarrow> int \<Rightarrow> int" where
  "go_rem a b = a - b * go_quot a b"

lemma i64_id: "- 9223372036854775808 \<le> x \<Longrightarrow> x < 9223372036854775808 \<Longrightarrow> i64 x = x"
  by (simp add: i64_def)

lemma i64_bounds: "- 9223372036854775808 \<le> i64 x" "i64 x < 9223372036854775808"
proof -
  have "0 \<le> (x + 9223372036854775808) mod 18446744073709551616"
    "(x + 9223372036854775808) mod 18446744073709551616 < 18446744073709551616" by simp_all
  then show "- 9223372036854775808 \<le> i64 x" "i64 x < 9223372036854775808"
    unfolding i64_def by linarith+
qed

lemma sint_of_int_u64:
  "- 9223372036854775808 \<le> k \<Longrightarrow> k < 9223372036854775808 \<Longrightarrow> sint (of_int k :: u64) = k"
  by (simp add: sint_sbintrunc' signed_take_bit_int_eq_self)

lemma go_quot_nonneg: "0 \<le> a \<Longrightarrow> 0 < b \<Longrightarrow> go_quot a b = a div b"
  by (cases "a = 0") (simp_all add: go_quot_def)

lemma go_rem_nonneg: "0 \<le> a \<Longrightarrow> 0 < b \<Longrightarrow> go_rem a b = a mod b"
  by (simp add: go_rem_def go_quot_nonneg minus_mult_div_eq_mod)

section \<open>Sorting\<close>

text \<open>
  \<^verbatim>\<open>sort.Slice\<close> is not stable: the order of equal keys is the implementation's choice.
  The choice is a parameter \<open>sperm\<close>, which gives the permutation of the indices for a
  list of keys; \<open>slice_sort\<close> is its documented contract.
\<close>

definition slice_sort :: "(nat list \<Rightarrow> nat list) \<Rightarrow> bool" where
  "slice_sort sperm \<longleftrightarrow>
     (\<forall>ks. mset (sperm ks) = mset [0..<length ks] \<and> sorted (map ((!) ks) (sperm ks)))"

definition sort_Slice :: "(nat list \<Rightarrow> nat list) \<Rightarrow> ('a \<Rightarrow> nat) \<Rightarrow> 'a list \<Rightarrow> 'a list" where
  "sort_Slice sperm key xs = map ((!) xs) (sperm (map key xs))"

definition stable_perm :: "nat list \<Rightarrow> nat list" where
  "stable_perm ks = sort_key ((!) ks) [0..<length ks]"

lemma slice_sort_stable: "slice_sort stable_perm"
  by (simp add: slice_sort_def stable_perm_def)

lemma mset_sort_Slice [simp]:
  assumes "slice_sort sperm"
  shows "mset (sort_Slice sperm key xs) = mset xs"
proof -
  have "mset (sort_Slice sperm key xs) = image_mset ((!) xs) (mset [0..<length xs])"
    using assms by (simp add: sort_Slice_def slice_sort_def)
  also have "\<dots> = mset (map ((!) xs) [0..<length xs])" by (simp only: mset_map)
  finally show ?thesis by (simp only: map_nth)
qed

lemma sorted_sort_Slice:
  assumes "slice_sort sperm"
  shows "sorted (map key (sort_Slice sperm key xs))"
proof -
  have "set (sperm (map key xs)) = {0..<length xs}"
    using assms mset_eq_setD [of "sperm (map key xs)" "[0..<length xs]"]
    by (simp add: slice_sort_def)
  then have "map key (sort_Slice sperm key xs) = map ((!) (map key xs)) (sperm (map key xs))"
    by (auto simp: sort_Slice_def)
  then show ?thesis using assms by (simp add: slice_sort_def)
qed

lemma set_sort_Slice [simp]: "slice_sort sperm \<Longrightarrow> set (sort_Slice sperm key xs) = set xs"
  by (metis mset_sort_Slice set_mset_mset)

lemma length_sort_Slice [simp]: "slice_sort sperm \<Longrightarrow> length (sort_Slice sperm key xs) = length xs"
  by (metis mset_sort_Slice size_mset)

section \<open>File contents\<close>

text \<open>
  A regular file is its byte contents.  \<open>pread\<close> is \<^verbatim>\<open>ReadAt\<close> with a full buffer:
  \<open>None\<close> is the error of a read that runs past the end.  \<open>pwrite\<close> is \<^verbatim>\<open>WriteAt\<close>,
  which extends the file with zero bytes when it starts past the end.
\<close>

definition pread :: "bytes \<Rightarrow> nat \<Rightarrow> nat \<Rightarrow> bytes option" where
  "pread f off n = (if off + n \<le> length f then Some (take n (drop off f)) else None)"

definition pwrite :: "bytes \<Rightarrow> nat \<Rightarrow> bytes \<Rightarrow> bytes" where
  "pwrite f off bs = take off f @ replicate (off - length f) 0 @ bs @ drop (off + length bs) f"

text \<open>The same at a Go \<^verbatim>\<open>int64\<close> offset: a negative one is an error.\<close>

definition fileReadAt :: "bytes \<Rightarrow> int \<Rightarrow> nat \<Rightarrow> bytes option" where
  "fileReadAt f off n = (if off < 0 then None else pread f (nat off) n)"

definition fileWriteAt :: "bytes \<Rightarrow> int \<Rightarrow> bytes \<Rightarrow> bytes option" where
  "fileWriteAt f off bs = (if off < 0 then None else Some (pwrite f (nat off) bs))"

lemma pread_Some_iff [io_simps]:
  "pread f off n = Some bs \<longleftrightarrow> off + n \<le> length f \<and> bs = take n (drop off f)"
  by (auto simp: pread_def)

lemma pread_None_iff [io_simps]: "pread f off n = None \<longleftrightarrow> length f < off + n"
  by (auto simp: pread_def)

lemma length_pwrite [io_simps]:
  "off + length bs \<le> length f \<Longrightarrow> length (pwrite f off bs) = length f"
  by (simp add: pwrite_def)

lemma pread_pwrite_same [io_simps]:
  "n = length bs \<Longrightarrow> pread (pwrite f off bs) off n = Some bs"
  by (simp add: pread_def pwrite_def)

lemma pread_pwrite_before:
  assumes "off' + n \<le> off" "off + length bs \<le> length f"
  shows "pread (pwrite f off bs) off' n = pread f off' n"
proof -
  have "take n (drop off' (take off f)) = take n (drop off' f)"
    using assms by (simp add: drop_take min_absorb1)
  then show ?thesis
    using assms by (simp add: pread_def length_pwrite) (simp add: pwrite_def)
qed

lemma pread_pwrite_after:
  assumes "off + length bs \<le> off'" "off + length bs \<le> length f"
  shows "pread (pwrite f off bs) off' n = pread f off' n"
proof -
  have "drop off' (pwrite f off bs) = drop off' f"
    using assms by (simp add: pwrite_def drop_append)
  then show ?thesis using assms by (simp add: pread_def length_pwrite)
qed


section \<open>Arrays of fixed-width records\<close>

text \<open>
  \<open>records n bs\<close> is what a loop of \<^verbatim>\<open>io.ReadFull\<close> calls on an \<open>n\<close>-byte buffer yields:
  the complete records, in order; a trailing fragment ends the loop.
\<close>

function records :: "nat \<Rightarrow> bytes \<Rightarrow> bytes list" where
  "records n bs = (if n = 0 \<or> length bs < n then [] else take n bs # records n (drop n bs))"
  by pat_completeness auto
termination
  by (relation "measure (\<lambda>(n, bs). length bs)") auto

declare records.simps [simp del]

lemma records_short [simp]: "length bs < n \<Longrightarrow> records n bs = []"
  by (simp add: records.simps)

lemma records_Cons:
  "length r = n \<Longrightarrow> 0 < n \<Longrightarrow> records n (r @ bs) = r # records n bs"
  by (subst records.simps) simp

lemma records_concat:
  "\<forall>r \<in> set rs. length r = n \<Longrightarrow> 0 < n \<Longrightarrow> length tl' < n \<Longrightarrow> records n (concat rs @ tl') = rs"
  by (induction rs) (simp_all add: records_Cons)

lemma records_concat_exact:
  "\<forall>r \<in> set rs. length r = n \<Longrightarrow> 0 < n \<Longrightarrow> records n (concat rs) = rs"
  using records_concat [of rs n "[]"] by simp

lemma records_lengths: "r \<in> set (records n bs) \<Longrightarrow> length r = n"
proof (induction n bs rule: records.induct)
  case (1 n bs)
  then show ?case by (subst (asm) (2) records.simps) (auto split: if_splits)
qed

lemma length_records: "0 < n \<Longrightarrow> length (records n bs) = length bs div n"
proof (induction n bs rule: records.induct)
  case (1 n bs)
  show ?case
  proof (cases "length bs < n")
    case True
    then show ?thesis by simp
  next
    case False
    with "1.prems" have "length (records n (drop n bs)) = (length bs - n) div n"
      by (subst "1.IH") auto
    with False "1.prems" show ?thesis
      by (subst records.simps) (simp add: le_div_geq)
  qed
qed

lemma concat_records:
  "0 < n \<Longrightarrow> n dvd length bs \<Longrightarrow> concat (records n bs) = bs"
proof (induction n bs rule: records.induct)
  case (1 n bs)
  show ?case
  proof (cases "length bs < n")
    case True
    with "1.prems" have "bs = []" by (auto dest: dvd_imp_le)
    then show ?thesis using "1.prems" by simp
  next
    case False
    with "1.prems" have "n dvd length (drop n bs)"
      by (simp add: dvd_diff_nat)
    with False "1.prems" have "concat (records n (drop n bs)) = drop n bs"
      by (intro "1.IH") auto
    with False "1.prems" show ?thesis
      by (subst records.simps) simp
  qed
qed

lemma records_nth:
  assumes "0 < n" "Suc i * n \<le> length bs"
  shows "records n bs ! i = take n (drop (i * n) bs)"
  using assms
proof (induction i arbitrary: bs)
  case 0
  then show ?case by (subst records.simps) simp
next
  case (Suc i)
  then have "records n (drop n bs) ! i = take n (drop (i * n) (drop n bs))"
    by (intro Suc.IH) simp_all
  with Suc.prems show ?case
    by (subst records.simps) (simp add: add.commute)
qed

lemma length_concat_const: "\<forall>b \<in> set T. length b = m \<Longrightarrow> length (concat T) = length T * m"
  by (induction T) auto

lemma take_concat_nth:
  fixes T :: "bytes list"
  assumes "\<forall>b \<in> set T. length b = m" "i < length T" "0 < m"
  shows "take m (drop (i * m) (concat T)) = T ! i"
proof -
  have "length (concat T) = length T * m" by (rule length_concat_const [OF assms(1)])
  moreover have "Suc i * m \<le> length T * m" using assms(2) by (intro mult_le_mono1) simp
  ultimately show ?thesis
    using records_nth [OF assms(3), of i "concat T"] records_concat_exact [OF assms(1,3)] by simp
qed

text \<open>
  The interface of a record layout: an encoder of fixed width, its decoder, and the
  values that fit the fields.  An exact layout also re-encodes what it decodes, so
  that no byte of the record is lost.
\<close>

locale fixed_codec =
  fixes enc :: "'a \<Rightarrow> bytes"
    and dec :: "bytes \<Rightarrow> 'a"
    and sz :: nat
    and wf :: "'a \<Rightarrow> bool"
  assumes sz_pos: "0 < sz"
    and enc_length: "wf x \<Longrightarrow> length (enc x) = sz"
    and dec_enc: "wf x \<Longrightarrow> dec (enc x) = x"
    and wf_dec: "length bs = sz \<Longrightarrow> wf (dec bs)"
begin

lemma enc_inj: "wf x \<Longrightarrow> wf y \<Longrightarrow> enc x = enc y \<Longrightarrow> x = y"
  by (metis dec_enc)

lemma array_length: "\<forall>x \<in> set xs. wf x \<Longrightarrow> length (concat (map enc xs)) = length xs * sz"
  by (induction xs) (simp_all add: enc_length)

lemma array_records:
  "\<forall>x \<in> set xs. wf x \<Longrightarrow> records sz (concat (map enc xs)) = map enc xs"
  by (rule records_concat_exact) (auto simp: enc_length sz_pos)

lemma array_decode:
  "\<forall>x \<in> set xs. wf x \<Longrightarrow> map dec (records sz (concat (map enc xs))) = xs"
  by (simp add: array_records map_idI dec_enc)

lemma array_nth:
  assumes "\<forall>x \<in> set xs. wf x" "i < length xs"
  shows "dec (take sz (drop (i * sz) (concat (map enc xs)))) = xs ! i"
proof -
  have "Suc i * sz \<le> length (concat (map enc xs))"
    using assms by (simp only: array_length) (rule mult_le_mono1, simp)
  with sz_pos have "take sz (drop (i * sz) (concat (map enc xs)))
      = records sz (concat (map enc xs)) ! i"
    by (simp add: records_nth)
  also have "\<dots> = enc (xs ! i)"
    using assms by (simp add: array_records)
  finally show ?thesis using assms by (simp add: dec_enc)
qed

lemma decoded_wf: "\<forall>x \<in> set (map dec (records sz bs)). wf x"
  by (auto dest: records_lengths intro: wf_dec)

end

locale exact_codec = fixed_codec +
  assumes enc_dec: "length bs = sz \<Longrightarrow> enc (dec bs) = bs"
begin

lemma array_encode: "sz dvd length bs \<Longrightarrow> concat (map enc (map dec (records sz bs))) = bs"
proof -
  assume "sz dvd length bs"
  have "map enc (map dec (records sz bs)) = records sz bs"
    by (simp add: map_idI enc_dec records_lengths)
  then show ?thesis
    using \<open>sz dvd length bs\<close> sz_pos by (simp only: concat_records)
qed

lemma dec_inj: "length as = sz \<Longrightarrow> length bs = sz \<Longrightarrow> dec as = dec bs \<Longrightarrow> as = bs"
  by (metis enc_dec)

end

text \<open>The integers themselves, as the smallest records.\<close>

interpretation u64c: exact_codec put64 get64 8 "\<lambda>_. True"
  by unfold_locales (simp_all add: put_get)

end
