(* ===== verification/Crypto.thy ===== *)
theory Crypto
  imports Engine_Prelude
begin

text \<open>
  The key handling of \<^verbatim>\<open>core/crypto\<close>: authenticated encryption with a domain tag, key
  files, key identity and X25519 sealing.  The primitives (AES-GCM, Argon2id, HKDF,
  SHA-256, X25519) are the fields of a record that every operation takes; their
  documented laws are the predicates \<open>aead_ok\<close>, \<open>kdf_ok\<close> and \<open>dh_ok\<close>.  Random bytes are
  arguments.
\<close>

section \<open>Primitives\<close>

record prims =
  gcm_seal :: "bytes \<Rightarrow> bytes \<Rightarrow> bytes \<Rightarrow> bytes \<Rightarrow> bytes"
  gcm_open :: "bytes \<Rightarrow> bytes \<Rightarrow> bytes \<Rightarrow> bytes \<Rightarrow> bytes option"
  argon2id :: "bytes \<Rightarrow> bytes \<Rightarrow> u32 \<Rightarrow> u32 \<Rightarrow> byte \<Rightarrow> bytes"
  hkdf32 :: "bytes \<Rightarrow> bytes \<Rightarrow> bytes"
  sha256 :: "bytes \<Rightarrow> bytes"
  x25519_pub :: "bytes \<Rightarrow> bytes"
  x25519_dh :: "bytes \<Rightarrow> bytes \<Rightarrow> bytes option"

definition aead_ok :: "prims \<Rightarrow> bool" where
  "aead_ok P \<longleftrightarrow>
     (\<forall>k n p a. length n = 12 \<longrightarrow>
        gcm_open P k n (gcm_seal P k n p a) a = Some p \<and> length (gcm_seal P k n p a) = length p + 16)"

definition kdf_ok :: "prims \<Rightarrow> bool" where
  "kdf_ok P \<longleftrightarrow>
     (\<forall>p s t m th. length (argon2id P p s t m th) = 32) \<and>
     (\<forall>s i. length (hkdf32 P s i) = 32) \<and> (\<forall>d. length (sha256 P d) = 32)"

definition dh_ok :: "prims \<Rightarrow> bool" where
  "dh_ok P \<longleftrightarrow>
     (\<forall>a. length (x25519_pub P a) = 32) \<and>
     (\<forall>a b. x25519_dh P a (x25519_pub P b) = x25519_dh P b (x25519_pub P a))"

section \<open>Model\<close>

datatype crypto_error =
    ErrCipherKey | ErrTooShort | ErrAuth | PanicNonceSize | ErrKeyBytes | ErrArgonTime | ErrArgonThreads
  | ErrArgonMemory | ErrWrappedLength | ErrECDH | ErrNoKey | ErrEmptySecret | ErrEmptyPassphrase

definition KeySize :: nat where
  "KeySize = 32"

definition NonceSize :: nat where
  "NonceSize = 12"

definition TagSize :: nat where
  "TagSize = 16"

definition Overhead :: nat where
  "Overhead = NonceSize + TagSize"

record Argon2Params =
  Time :: u32
  Memory :: u32
  Threads :: byte

definition defaultArgon :: Argon2Params where
  "defaultArgon = \<lparr> Time = 3, Memory = 64 * 1024, Threads = 4 \<rparr>"

text \<open>A master key is its 32 bytes.\<close>

type_synonym MasterKey = bytes

definition ascii :: "string \<Rightarrow> bytes" where
  "ascii s = map (\<lambda>c. of_nat (of_char c)) s"

definition AADChunk :: bytes where
  "AADChunk = ascii ''disknexus/chunk/v1''"

definition AADIndex :: bytes where
  "AADIndex = ascii ''disknexus/index/v1''"

definition aesKeyOk :: "bytes \<Rightarrow> bool" where
  "aesKeyOk k \<longleftrightarrow> length k \<in> {16, 24, 32}"

text \<open>GCM panics on a nonce of another length; the error of a bad key size comes first.\<close>

definition sealGCM :: "prims \<Rightarrow> bytes \<Rightarrow> bytes \<Rightarrow> bytes \<Rightarrow> bytes \<Rightarrow> crypto_error + bytes" where
  "sealGCM P key nonce plaintext aad =
     (if \<not> aesKeyOk key then Inl ErrCipherKey
      else if length nonce \<noteq> NonceSize then Inl PanicNonceSize
      else Inr (gcm_seal P key nonce plaintext aad))"

definition openGCM :: "prims \<Rightarrow> bytes \<Rightarrow> bytes \<Rightarrow> bytes \<Rightarrow> bytes \<Rightarrow> crypto_error + bytes" where
  "openGCM P key nonce ciphertext aad =
     (if \<not> aesKeyOk key then Inl ErrCipherKey
      else if length nonce \<noteq> NonceSize then Inl PanicNonceSize
      else case gcm_open P key nonce ciphertext aad of None \<Rightarrow> Inl ErrAuth | Some p \<Rightarrow> Inr p)"

definition EncryptWithAAD :: "prims \<Rightarrow> MasterKey \<Rightarrow> bytes \<Rightarrow> bytes \<Rightarrow> bytes \<Rightarrow> crypto_error + bytes" where
  "EncryptWithAAD P mk nonce plaintext aad =
     map_sum id (\<lambda>c. nonce @ c) (sealGCM P mk nonce plaintext aad)"

definition DecryptWithAAD :: "prims \<Rightarrow> MasterKey \<Rightarrow> bytes \<Rightarrow> bytes \<Rightarrow> crypto_error + bytes" where
  "DecryptWithAAD P mk data aad =
     (if length data < Overhead then Inl ErrTooShort
      else openGCM P mk (take NonceSize data) (drop NonceSize data) aad)"

definition Encrypt :: "prims \<Rightarrow> MasterKey \<Rightarrow> bytes \<Rightarrow> bytes \<Rightarrow> crypto_error + bytes" where
  "Encrypt P mk nonce plaintext = EncryptWithAAD P mk nonce plaintext []"

definition Decrypt :: "prims \<Rightarrow> MasterKey \<Rightarrow> bytes \<Rightarrow> crypto_error + bytes" where
  "Decrypt P mk data = DecryptWithAAD P mk data []"

definition Validate :: "Argon2Params \<Rightarrow> crypto_error option" where
  "Validate p =
     (if Time p < 1 then Some ErrArgonTime
      else if Threads p < 1 then Some ErrArgonThreads
      else if Memory p < 8 * ucast (Threads p) then Some ErrArgonMemory
      else None)"

definition DeriveKEK :: "prims \<Rightarrow> bytes \<Rightarrow> bytes \<Rightarrow> Argon2Params \<Rightarrow> bytes" where
  "DeriveKEK P passphrase salt p = argon2id P passphrase salt (Time p) (Memory p) (Threads p)"

definition WrapKey :: "prims \<Rightarrow> bytes \<Rightarrow> bytes \<Rightarrow> MasterKey \<Rightarrow> crypto_error + bytes" where
  "WrapKey P kek nonce mk = sealGCM P kek nonce mk []"

text \<open>\<open>copy\<close> into the 32-byte array: longer data is cut, shorter data leaves zeros.\<close>

definition keyArray :: "bytes \<Rightarrow> MasterKey" where
  "keyArray b = take KeySize (b @ replicate KeySize 0)"

definition UnwrapKey :: "prims \<Rightarrow> bytes \<Rightarrow> bytes \<Rightarrow> bytes \<Rightarrow> crypto_error + MasterKey" where
  "UnwrapKey P kek nonce wrapped = map_sum id keyArray (openGCM P kek nonce wrapped [])"

definition keyIDDomain :: bytes where
  "keyIDDomain = ascii ''disknexus-key-id-v1''"

definition mk_ID :: "prims \<Rightarrow> MasterKey \<Rightarrow> bytes" where
  "mk_ID P mk = sha256 P (keyIDDomain @ mk)"

record KeyFile =
  kf_Params :: Argon2Params
  kf_Salt :: bytes
  kf_Nonce :: bytes
  kf_WrappedKey :: bytes
  kf_KeyID :: bytes

definition GenerateKeyFile :: "prims \<Rightarrow> bytes \<Rightarrow> MasterKey \<Rightarrow> bytes \<Rightarrow> bytes
    \<Rightarrow> crypto_error + KeyFile \<times> MasterKey" where
  "GenerateKeyFile P passphrase mk salt nonce =
     (case WrapKey P (DeriveKEK P passphrase salt defaultArgon) nonce mk of
        Inl err \<Rightarrow> Inl err
      | Inr wrapped \<Rightarrow>
          Inr (\<lparr> kf_Params = defaultArgon, kf_Salt = salt, kf_Nonce = nonce,
                 kf_WrappedKey = wrapped, kf_KeyID = mk_ID P mk \<rparr>, mk))"

definition OpenMasterKey :: "prims \<Rightarrow> bytes \<Rightarrow> KeyFile \<Rightarrow> crypto_error + MasterKey" where
  "OpenMasterKey P passphrase kf =
     (case Validate (kf_Params kf) of
        Some err \<Rightarrow> Inl err
      | None \<Rightarrow> UnwrapKey P (DeriveKEK P passphrase (kf_Salt kf) (kf_Params kf)) (kf_Nonce kf) (kf_WrappedKey kf))"

definition RewrapKeyFile :: "prims \<Rightarrow> MasterKey option \<Rightarrow> bytes \<Rightarrow> bytes \<Rightarrow> bytes \<Rightarrow> crypto_error + KeyFile" where
  "RewrapKeyFile P mk passphrase salt nonce =
     (case mk of
        None \<Rightarrow> Inl ErrNoKey
      | Some k \<Rightarrow>
          if passphrase = [] then Inl ErrEmptyPassphrase
          else case WrapKey P (DeriveKEK P passphrase salt defaultArgon) nonce k of
                 Inl err \<Rightarrow> Inl err
               | Inr wrapped \<Rightarrow>
                   Inr \<lparr> kf_Params = defaultArgon, kf_Salt = salt, kf_Nonce = nonce,
                         kf_WrappedKey = wrapped, kf_KeyID = mk_ID P k \<rparr>)"

definition KeyIDSize :: nat where
  "KeyIDSize = 32"

definition SameKey :: "KeyFile option \<Rightarrow> KeyFile option \<Rightarrow> bool" where
  "SameKey a b =
     (case (a, b) of
        (Some ka, Some kb) \<Rightarrow>
          length (kf_KeyID ka) = KeyIDSize \<and> length (kf_KeyID kb) = KeyIDSize \<and>
          (\<forall>i \<in> set [0..<length (kf_KeyID ka)]. kf_KeyID ka ! i = kf_KeyID kb ! i)
      | _ \<Rightarrow> False)"

text \<open>The file forms work on file contents; the write itself is atomic.\<close>

definition EncryptFile :: "prims \<Rightarrow> MasterKey \<Rightarrow> bytes \<Rightarrow> bytes \<Rightarrow> crypto_error + bytes" where
  "EncryptFile P mk nonce plaintext = EncryptWithAAD P mk nonce plaintext AADIndex"

definition DecryptFile :: "prims \<Rightarrow> MasterKey \<Rightarrow> bytes \<Rightarrow> crypto_error + bytes" where
  "DecryptFile P mk ciphertext = DecryptWithAAD P mk ciphertext AADIndex"

definition MasterKeyFromBytes :: "bytes \<Rightarrow> crypto_error + MasterKey" where
  "MasterKeyFromBytes b = (if length b \<noteq> KeySize then Inl ErrKeyBytes else Inr b)"

definition hkdfInfo :: bytes where
  "hkdfInfo = ascii ''disknexus-dek-wrap''"

definition secretWrapInfo :: bytes where
  "secretWrapInfo = ascii ''disknexus-secret-wrap-v1''"

definition deriveWrappingKey :: "prims \<Rightarrow> bytes \<Rightarrow> bytes" where
  "deriveWrappingKey P shared = hkdf32 P shared hkdfInfo"

definition WrapKeyAsymmetric :: "prims \<Rightarrow> bytes \<Rightarrow> bytes \<Rightarrow> bytes \<Rightarrow> MasterKey \<Rightarrow> crypto_error + bytes" where
  "WrapKeyAsymmetric P pub ephPriv nonce mk =
     (case x25519_dh P ephPriv pub of
        None \<Rightarrow> Inl ErrECDH
      | Some shared \<Rightarrow>
          map_sum id (\<lambda>wrapped. x25519_pub P ephPriv @ nonce @ wrapped)
            (sealGCM P (deriveWrappingKey P shared) nonce mk []))"

definition UnwrapKeyAsymmetric :: "prims \<Rightarrow> bytes \<Rightarrow> bytes \<Rightarrow> crypto_error + MasterKey" where
  "UnwrapKeyAsymmetric P priv wrapped =
     (if length wrapped \<noteq> 32 + NonceSize + KeySize + TagSize then Inl ErrWrappedLength
      else case x25519_dh P priv (take 32 wrapped) of
             None \<Rightarrow> Inl ErrECDH
           | Some shared \<Rightarrow>
               map_sum id keyArray
                 (openGCM P (deriveWrappingKey P shared) (bslice 32 (32 + NonceSize) wrapped)
                   (drop (32 + NonceSize) wrapped) []))"

definition SecretWrapOverhead :: nat where
  "SecretWrapOverhead = 32 + NonceSize + TagSize"

definition deriveSecretWrappingKey :: "prims \<Rightarrow> bytes \<Rightarrow> bytes" where
  "deriveSecretWrappingKey P shared = hkdf32 P shared secretWrapInfo"

definition WrapSecretAsymmetric :: "prims \<Rightarrow> bytes option \<Rightarrow> bytes \<Rightarrow> bytes \<Rightarrow> bytes \<Rightarrow> crypto_error + bytes" where
  "WrapSecretAsymmetric P pub ephPriv nonce secret =
     (case pub of
        None \<Rightarrow> Inl ErrNoKey
      | Some pk \<Rightarrow>
          if secret = [] then Inl ErrEmptySecret
          else case x25519_dh P ephPriv pk of
                 None \<Rightarrow> Inl ErrECDH
               | Some shared \<Rightarrow>
                   map_sum id (\<lambda>c. x25519_pub P ephPriv @ nonce @ c)
                     (sealGCM P (deriveSecretWrappingKey P shared) nonce secret []))"

definition UnwrapSecretAsymmetric :: "prims \<Rightarrow> bytes option \<Rightarrow> bytes \<Rightarrow> crypto_error + bytes" where
  "UnwrapSecretAsymmetric P priv wrapped =
     (case priv of
        None \<Rightarrow> Inl ErrNoKey
      | Some k \<Rightarrow>
          if length wrapped \<le> SecretWrapOverhead then Inl ErrWrappedLength
          else case x25519_dh P k (take 32 wrapped) of
                 None \<Rightarrow> Inl ErrECDH
               | Some shared \<Rightarrow>
                   openGCM P (deriveSecretWrappingKey P shared) (bslice 32 (32 + NonceSize) wrapped)
                     (drop (32 + NonceSize) wrapped) [])"

lemmas crypto_sizes = KeySize_def NonceSize_def TagSize_def Overhead_def SecretWrapOverhead_def KeyIDSize_def

section \<open>Round trips\<close>

lemma openGCM_seal:
  "aead_ok P \<Longrightarrow> aesKeyOk k \<Longrightarrow> length n = 12 \<Longrightarrow> openGCM P k n (gcm_seal P k n p a) a = Inr p"
  by (simp add: openGCM_def aead_ok_def crypto_sizes)

lemma aesKeyOk_32: "length k = 32 \<Longrightarrow> aesKeyOk k"
  by (simp add: aesKeyOk_def)

lemma keyArray_id [simp]: "length mk = 32 \<Longrightarrow> keyArray mk = mk"
  by (simp add: keyArray_def crypto_sizes)

lemma length_keyArray [simp]: "length (keyArray b) = 32"
  by (simp add: keyArray_def crypto_sizes)

lemma Decrypt_Encrypt:
  assumes "aead_ok P" "length mk = 32" "length n = 12"
  shows "\<exists>c. EncryptWithAAD P mk n p a = Inr c \<and> length c = length p + 28 \<and> DecryptWithAAD P mk c a = Inr p"
  using assms openGCM_seal [OF assms(1) aesKeyOk_32, of mk n p a]
  by (simp add: EncryptWithAAD_def DecryptWithAAD_def sealGCM_def aesKeyOk_32 crypto_sizes aead_ok_def)

lemma UnwrapKey_WrapKey:
  assumes "aead_ok P" "length kek = 32" "length n = 12" "length mk = 32"
  shows "WrapKey P kek n mk = Inr (gcm_seal P kek n mk [])"
    and "UnwrapKey P kek n (gcm_seal P kek n mk []) = Inr mk"
  using assms by (simp_all add: WrapKey_def UnwrapKey_def sealGCM_def aesKeyOk_32 crypto_sizes openGCM_seal)

lemma Validate_default: "Validate defaultArgon = None"
  by (simp add: Validate_def defaultArgon_def)

lemma SameKey_iff:
  "SameKey (Some a) (Some b) \<longleftrightarrow> kf_KeyID a = kf_KeyID b \<and> length (kf_KeyID a) = 32"
  unfolding list_eq_iff_nth_eq by (auto simp: SameKey_def crypto_sizes)

section \<open>A concrete instance of the primitives\<close>

text \<open>Not a cipher: it shows that the laws asked of the primitives can hold together.\<close>

definition toy_tag :: "bytes \<Rightarrow> bytes" where
  "toy_tag a = take 16 (a @ replicate 16 0)"

definition toy_prims :: prims where
  "toy_prims =
     \<lparr> gcm_seal = (\<lambda>k n p a. p @ toy_tag a),
       gcm_open = (\<lambda>k n c a. if 16 \<le> length c \<and> drop (length c - 16) c = toy_tag a
                              then Some (take (length c - 16) c) else None),
       argon2id = (\<lambda>p s t m th. keyArray (p @ s)),
       hkdf32 = (\<lambda>s i. keyArray (s @ i)),
       sha256 = keyArray,
       x25519_pub = keyArray,
       x25519_dh = (\<lambda>a b. Some (map2 (+) (keyArray a) (keyArray b))) \<rparr>"

lemma toy_ok: "aead_ok toy_prims" "kdf_ok toy_prims" "dh_ok toy_prims"
proof -
  have [simp]: "length (toy_tag a) = 16" for a by (simp add: toy_tag_def)
  show "aead_ok toy_prims" by (simp add: aead_ok_def toy_prims_def)
  show "kdf_ok toy_prims" by (simp add: kdf_ok_def toy_prims_def)
  have "map2 (+) xs ys = map2 (+) ys xs" for xs ys :: bytes
    by (induction xs ys rule: list_induct2') (simp_all add: add.commute)
  then show "dh_ok toy_prims" by (simp add: dh_ok_def toy_prims_def)
qed

section \<open>Properties\<close>

text \<open>
  C20: A generated key file opens with its passphrase to exactly the generated master key,
  and rotating the passphrase gives a file that opens with the new passphrase to the same
  key and is recognised as wrapping the same key, so that nothing has to be re-encrypted.
\<close>

theorem key_file_lifecycle:
  assumes "aead_ok P" "kdf_ok P" "length mk = 32" "length nonce = 12" "length nonce' = 12" "pass' \<noteq> []"
  shows "\<exists>kf kf'. GenerateKeyFile P pass mk salt nonce = Inr (kf, mk) \<and> OpenMasterKey P pass kf = Inr mk \<and>
    RewrapKeyFile P (Some mk) pass' salt' nonce' = Inr kf' \<and> OpenMasterKey P pass' kf' = Inr mk \<and>
    SameKey (Some kf) (Some kf')"
proof -
  have kek: "length (DeriveKEK P p s defaultArgon) = 32" for p s
    using assms(2) by (simp add: DeriveKEK_def kdf_ok_def)
  note wr = UnwrapKey_WrapKey [OF assms(1) kek _ assms(3)]
  show ?thesis
    using assms wr by (simp add: GenerateKeyFile_def OpenMasterKey_def RewrapKeyFile_def Validate_default
        SameKey_iff mk_ID_def kdf_ok_def)
qed

theorem key_file_lifecycle_witness:
  "\<exists>kf kf'. GenerateKeyFile toy_prims [1] (replicate 32 7) [2] (replicate 12 0) = Inr (kf, replicate 32 7) \<and>
     RewrapKeyFile toy_prims (Some (replicate 32 7)) [9] [3] (replicate 12 1) = Inr kf' \<and>
     OpenMasterKey toy_prims [9] kf' = Inr (replicate 32 7) \<and> SameKey (Some kf) (Some kf')"
  using key_file_lifecycle [OF toy_ok(1,2), of "replicate 32 7" "replicate 12 0" "replicate 12 1" "[9]" "[1]" "[2]" "[3]"]
  by auto

text \<open>
  C21: A key or a secret sealed to an X25519 public key opens with the private key, to
  exactly what was sealed: the wrapped key is 92 bytes, a wrapped secret 60 bytes longer
  than the secret.
\<close>

theorem sealed_key_opens:
  assumes "aead_ok P" "kdf_ok P" "dh_ok P" "length mk = 32" "length nonce = 12" "secret \<noteq> []"
    and "x25519_dh P eph (x25519_pub P priv) \<noteq> None"
  shows "(\<exists>w. WrapKeyAsymmetric P (x25519_pub P priv) eph nonce mk = Inr w \<and> length w = 92 \<and>
      UnwrapKeyAsymmetric P priv w = Inr mk) \<and>
    (\<exists>w. WrapSecretAsymmetric P (Some (x25519_pub P priv)) eph nonce secret = Inr w \<and>
      length w = length secret + 60 \<and> UnwrapSecretAsymmetric P (Some priv) w = Inr secret)"
proof -
  obtain sh where sh: "x25519_dh P eph (x25519_pub P priv) = Some sh" "x25519_dh P priv (x25519_pub P eph) = Some sh"
    using assms(3,7) by (auto simp: dh_ok_def)
  have k: "aesKeyOk (hkdf32 P sh i)" for i using assms(2) by (simp add: kdf_ok_def aesKeyOk_32)
  have pl: "length (x25519_pub P eph) = 32" using assms(3) by (simp add: dh_ok_def)
  have sl: "length (gcm_seal P kk nonce p a) = length p + 16" for kk p a
    using assms(1,5) by (simp add: aead_ok_def)
  have "\<exists>w. WrapKeyAsymmetric P (x25519_pub P priv) eph nonce mk = Inr w \<and> length w = 92 \<and>
      UnwrapKeyAsymmetric P priv w = Inr mk"
    using sh k pl sl assms
    by (simp add: WrapKeyAsymmetric_def UnwrapKeyAsymmetric_def sealGCM_def deriveWrappingKey_def
        crypto_sizes bslice_def openGCM_seal)
  moreover have "0 < length secret" using assms(6) by simp
  then have "\<exists>w. WrapSecretAsymmetric P (Some (x25519_pub P priv)) eph nonce secret = Inr w \<and>
      length w = length secret + 60 \<and> UnwrapSecretAsymmetric P (Some priv) w = Inr secret"
    using sh k pl sl assms
    by (simp add: WrapSecretAsymmetric_def UnwrapSecretAsymmetric_def sealGCM_def deriveSecretWrappingKey_def
        crypto_sizes bslice_def openGCM_seal)
  ultimately show ?thesis by blast
qed

theorem sealed_key_opens_witness:
  "(\<exists>w. WrapKeyAsymmetric toy_prims (x25519_pub toy_prims [5]) [6] (replicate 12 0) (replicate 32 7) = Inr w \<and>
      length w = 92) \<and>
   (\<exists>w. WrapSecretAsymmetric toy_prims (Some (x25519_pub toy_prims [5])) [6] (replicate 12 0) [1, 2] = Inr w \<and>
      UnwrapSecretAsymmetric toy_prims (Some [5]) w = Inr [1, 2])"
proof -
  have "x25519_dh toy_prims [6] (x25519_pub toy_prims [5]) \<noteq> None" by (simp add: toy_prims_def)
  from sealed_key_opens [OF toy_ok, of "replicate 32 7" "replicate 12 0" "[1, 2]", OF _ _ _ this]
  show ?thesis by auto
qed

text \<open>
  C33: A key file with usable Argon2 parameters whose nonce is not 12 bytes long is not
  refused with an error: opening it reaches the panic of the AEAD.  The validation before
  the key derivation covers the parameters only.
\<close>

theorem short_nonce_panics:
  assumes "kdf_ok P" "Validate (kf_Params kf) = None" "length (kf_Nonce kf) \<noteq> 12"
  shows "OpenMasterKey P passphrase kf = Inl PanicNonceSize"
proof -
  have "aesKeyOk (DeriveKEK P passphrase (kf_Salt kf) (kf_Params kf))"
    using assms(1) by (simp add: DeriveKEK_def kdf_ok_def aesKeyOk_32)
  with assms(2,3) show ?thesis
    by (simp add: OpenMasterKey_def UnwrapKey_def openGCM_def crypto_sizes)
qed

theorem short_nonce_panics_witness:
  "OpenMasterKey toy_prims [1] \<lparr> kf_Params = defaultArgon, kf_Salt = [], kf_Nonce = [], kf_WrappedKey = [],
     kf_KeyID = [] \<rparr> = Inl PanicNonceSize"
  using short_nonce_panics [OF toy_ok(2), of "\<lparr> kf_Params = defaultArgon, kf_Salt = [], kf_Nonce = [],
     kf_WrappedKey = [], kf_KeyID = [] \<rparr>" "[1]"]
  by (simp add: Validate_default)

end
