(* ===== verification/Delta.thy ===== *)
theory Delta
  imports Crypto
begin

text \<open>
  Index deltas (\<^verbatim>\<open>core/index/delta.go\<close>): the object format, its parsers and validators,
  the pack numbers of a delta, and the capture journal of
  \<^verbatim>\<open>core/index/deltacapture.go\<close>.  SHA-256 is the parameter \<open>sha\<close>.
\<close>

section \<open>Format\<close>

definition deltaMagic :: bytes where
  "deltaMagic = ascii ''DNIDLT''"

definition DeltaVersion :: u16 where
  "DeltaVersion = 1"

definition DeltaHeaderSize :: nat where
  "DeltaHeaderSize = 64"

definition DeltaEntrySize :: nat where
  "DeltaEntrySize = 56"

record DeltaEntry =
  de_StrongHash :: bytes
  de_WeakHash :: u64
  de_PackNumber :: u32
  de_StoreOffset :: u64
  de_ChunkLength :: u32

definition EncodeDeltaEntry :: "DeltaEntry \<Rightarrow> bytes" where
  "EncodeDeltaEntry e =
     de_StrongHash e @ put64 (de_WeakHash e) @ put32 (de_PackNumber e) @ put64 (de_StoreOffset e) @
     put32 (de_ChunkLength e)"

definition decodeDeltaEntry :: "bytes \<Rightarrow> DeltaEntry" where
  "decodeDeltaEntry src =
     \<lparr> de_StrongHash = bslice 0 32 src,
       de_WeakHash = get64 (bslice 32 40 src),
       de_PackNumber = get32 (bslice 40 44 src),
       de_StoreOffset = get64 (bslice 44 52 src),
       de_ChunkLength = get32 (bslice 52 56 src) \<rparr>"

definition wf_delta_entry :: "DeltaEntry \<Rightarrow> bool" where
  "wf_delta_entry e \<longleftrightarrow> length (de_StrongHash e) = 32"

definition DeltaHeader :: "u64 \<Rightarrow> bytes \<Rightarrow> bytes" where
  "DeltaHeader entryCount digest =
     deltaMagic @ put16 DeltaVersion @ put64 entryCount @ digest @ replicate 16 0"

definition Marshal :: "(bytes \<Rightarrow> bytes) \<Rightarrow> DeltaEntry list \<Rightarrow> bytes" where
  "Marshal sha es =
     (let payload = concat (map EncodeDeltaEntry es)
      in deltaMagic @ put16 DeltaVersion @ put64 (of_nat (length es)) @ sha payload @ replicate 16 0 @ payload)"

section \<open>Parsers\<close>

datatype delta_error =
    DeltaShortHeader | DeltaBadMagic | DeltaBadVersion | DeltaTruncated | DeltaChecksum | DeltaMidEntry
  | PanicMakeSlice | PanicSliceBounds

text \<open>The shared checks on an object in memory; the size check multiplies in 64 bits.\<close>

definition checkDelta :: "(bytes \<Rightarrow> bytes) \<Rightarrow> bytes \<Rightarrow> delta_error + u64 \<times> bytes" where
  "checkDelta sha data =
     (if length data < DeltaHeaderSize \<or> bslice 0 6 data \<noteq> deltaMagic then Inl DeltaBadMagic
      else if get16 (bslice 6 8 data) \<noteq> DeltaVersion then Inl DeltaBadVersion
      else
        let cnt = get64 (bslice 8 16 data); payload = drop DeltaHeaderSize data in
        if of_nat (length payload) \<noteq> cnt * of_nat DeltaEntrySize then Inl DeltaTruncated
        else if sha payload \<noteq> bslice 16 48 data then Inl DeltaChecksum
        else Inr (cnt, payload))"

function yieldEntries :: "bytes \<Rightarrow> nat \<Rightarrow> nat \<Rightarrow> delta_error + DeltaEntry list" where
  "yieldEntries payload i cnt =
     (if i < cnt then
        if i * DeltaEntrySize + DeltaEntrySize \<le> length payload
        then map_sum id (\<lambda>es. decodeDeltaEntry (drop (i * DeltaEntrySize) payload) # es)
               (yieldEntries payload (i + 1) cnt)
        else Inl PanicSliceBounds
      else Inr [])"
  by pat_completeness auto
termination
  by (relation "measure (\<lambda>(payload, i, cnt). cnt - i)") auto

definition ForEachDeltaEntry :: "(bytes \<Rightarrow> bytes) \<Rightarrow> bytes \<Rightarrow> delta_error + DeltaEntry list" where
  "ForEachDeltaEntry sha data =
     (case checkDelta sha data of
        Inl err \<Rightarrow> Inl err
      | Inr (cnt, payload) \<Rightarrow> yieldEntries payload 0 (unat cnt))"

text \<open>
  \<^verbatim>\<open>make\<close> panics when the slice would exceed the address space; an entry is 64 bytes in
  memory, and the limit on 64-bit platforms is \<open>2 ^ 48\<close>.
\<close>

definition ParseDelta :: "(bytes \<Rightarrow> bytes) \<Rightarrow> bytes \<Rightarrow> delta_error + DeltaEntry list" where
  "ParseDelta sha data =
     (case checkDelta sha data of
        Inl err \<Rightarrow> Inl err
      | Inr (cnt, payload) \<Rightarrow>
          if unat cnt * 64 > 2 ^ 48 then Inl PanicMakeSlice
          else yieldEntries payload 0 (unat cnt))"

text \<open>The file forms read the header first and compare the whole file size.\<close>

definition deltaFileHeader :: "bytes \<Rightarrow> delta_error + u64" where
  "deltaFileHeader f =
     (case pread f 0 DeltaHeaderSize of
        None \<Rightarrow> Inl DeltaShortHeader
      | Some hdr \<Rightarrow>
          if bslice 0 6 hdr \<noteq> deltaMagic then Inl DeltaBadMagic
          else if get16 (bslice 6 8 hdr) \<noteq> DeltaVersion then Inl DeltaBadVersion
          else
            let cnt = get64 (bslice 8 16 hdr) in
            if of_nat (length f) \<noteq> of_nat DeltaHeaderSize + cnt * of_nat DeltaEntrySize
            then Inl DeltaTruncated else Inr cnt)"

definition DeltaEntryCount :: "bytes \<Rightarrow> delta_error + int" where
  "DeltaEntryCount f = map_sum id sint (deltaFileHeader f)"

definition ValidateDeltaFile :: "(bytes \<Rightarrow> bytes) \<Rightarrow> bytes \<Rightarrow> delta_error option" where
  "ValidateDeltaFile sha f =
     (case deltaFileHeader f of
        Inl err \<Rightarrow> Some err
      | Inr cnt \<Rightarrow>
          if sha (drop DeltaHeaderSize f) \<noteq> bslice 16 48 f then Some DeltaChecksum else None)"

text \<open>The streaming reader: the entries it yields, and the error it ends with if any.\<close>

function streamLoop :: "bytes \<Rightarrow> nat \<Rightarrow> DeltaEntry list \<times> delta_error option" where
  "streamLoop rest cnt =
     (if cnt = 0 then ([], None)
      else if length rest < DeltaEntrySize then ([], Some DeltaMidEntry)
      else let (es, err) = streamLoop (drop DeltaEntrySize rest) (cnt - 1)
           in (decodeDeltaEntry (take DeltaEntrySize rest) # es, err))"
  by pat_completeness auto
termination
  by (relation "measure snd") auto

definition streamDeltaRecords :: "bytes \<Rightarrow> DeltaEntry list \<times> delta_error option" where
  "streamDeltaRecords f =
     (case pread f 0 DeltaHeaderSize of
        None \<Rightarrow> ([], Some DeltaShortHeader)
      | Some hdr \<Rightarrow> streamLoop (drop DeltaHeaderSize f) (unat (get64 (bslice 8 16 hdr))))"

declare yieldEntries.simps [simp del] streamLoop.simps [simp del]

section \<open>Pack numbers\<close>

fun distinctPacks :: "u32 list \<Rightarrow> DeltaEntry list \<Rightarrow> u32 list" where
  "distinctPacks seen [] = []"
| "distinctPacks seen (e # es) =
     (if de_PackNumber e \<in> set seen then distinctPacks seen es
      else de_PackNumber e # distinctPacks (de_PackNumber e # seen) es)"

fun siftDown :: "u32 list \<Rightarrow> nat \<Rightarrow> u32 list" where
  "siftDown s 0 = s"
| "siftDown s (Suc j) =
     (if s ! Suc j < s ! j then siftDown (s[Suc j := s ! j, j := s ! Suc j]) j else s)"

fun sortLoop :: "u32 list \<Rightarrow> nat list \<Rightarrow> u32 list" where
  "sortLoop s [] = s"
| "sortLoop s (i # is) = sortLoop (siftDown s i) is"

definition sortU32Asc :: "u32 list \<Rightarrow> u32 list" where
  "sortU32Asc s = sortLoop s [1..<length s]"

definition PackNumbers :: "DeltaEntry list \<Rightarrow> u32 list" where
  "PackNumbers es = sortU32Asc (distinctPacks [] es)"

section \<open>Capture journal\<close>

record deltaCapture =
  dc_header :: bytes
  dc_payload :: bytes
  dc_count :: u64
  dc_err :: bool

text \<open>
  The journal file is \<open>dc_header @ dc_payload\<close>, the payload also being what the running
  SHA-256 has consumed.
\<close>

definition newCapture :: deltaCapture where
  "newCapture = \<lparr> dc_header = replicate DeltaHeaderSize 0, dc_payload = [], dc_count = 0, dc_err = False \<rparr>"

definition captureAppend :: "deltaCapture \<Rightarrow> DeltaEntry \<Rightarrow> deltaCapture" where
  "captureAppend c e =
     (if dc_err c then c
      else c\<lparr> dc_payload := dc_payload c @ EncodeDeltaEntry e, dc_count := dc_count c + 1 \<rparr>)"

definition stampHeader :: "(bytes \<Rightarrow> bytes) \<Rightarrow> deltaCapture \<Rightarrow> deltaCapture option" where
  "stampHeader sha c =
     (if dc_err c then None
      else Some (c\<lparr> dc_header := DeltaHeader (dc_count c) (sha (dc_payload c)) \<rparr>))"

definition captureFile :: "deltaCapture \<Rightarrow> bytes" where
  "captureFile c = dc_header c @ dc_payload c"

section \<open>The entry layout\<close>

lemma decode_encodeDelta: "wf_delta_entry e \<Longrightarrow> decodeDeltaEntry (EncodeDeltaEntry e) = e"
  by (simp add: decodeDeltaEntry_def EncodeDeltaEntry_def wf_delta_entry_def bslice_def)

lemma encode_decodeDelta:
  assumes "length b = 56"
  shows "EncodeDeltaEntry (decodeDeltaEntry b) = b"
proof -
  have "EncodeDeltaEntry (decodeDeltaEntry b)
      = take 32 b @ bslice 32 40 b @ bslice 40 44 b @ bslice 44 52 b @ bslice 52 56 b"
    using assms by (simp add: EncodeDeltaEntry_def decodeDeltaEntry_def put_get length_bslice)
  also have "bslice 52 56 b = drop 52 b" using assms by (simp add: bslice_def)
  also have "bslice 44 52 b @ drop 52 b = drop 44 b"
    using append_take_drop_id [of 8 "drop 44 b"] by (simp add: bslice_def)
  also have "bslice 40 44 b @ drop 44 b = drop 40 b"
    using append_take_drop_id [of 4 "drop 40 b"] by (simp add: bslice_def)
  also have "bslice 32 40 b @ drop 40 b = drop 32 b"
    using append_take_drop_id [of 8 "drop 32 b"] by (simp add: bslice_def)
  finally show ?thesis by simp
qed

lemma length_EncodeDelta: "wf_delta_entry e \<Longrightarrow> length (EncodeDeltaEntry e) = 56"
  by (simp add: EncodeDeltaEntry_def wf_delta_entry_def)

lemma wf_decodeDelta: "length b = 56 \<Longrightarrow> wf_delta_entry (decodeDeltaEntry b)"
  by (simp add: decodeDeltaEntry_def wf_delta_entry_def)

interpretation dec: exact_codec EncodeDeltaEntry decodeDeltaEntry DeltaEntrySize wf_delta_entry
  by unfold_locales
    (simp_all add: DeltaEntrySize_def length_EncodeDelta decode_encodeDelta encode_decodeDelta wf_decodeDelta)

lemma decodeDelta_take: "decodeDeltaEntry (take 56 b) = decodeDeltaEntry b"
  by (simp add: decodeDeltaEntry_def bslice_def drop_take min_def)

section \<open>Reading loops\<close>

lemma yieldEntries_all:
  assumes "cnt * 56 = length payload" "i \<le> cnt"
  shows "yieldEntries payload i cnt = Inr (map decodeDeltaEntry (records 56 (drop (i * 56) payload)))"
  using assms(2)
proof (induction "cnt - i" arbitrary: i)
  case 0
  then show ?case using assms(1) by (simp add: yieldEntries.simps)
next
  case (Suc m)
  then have lt: "i < cnt" by simp
  then have room: "i * 56 + 56 \<le> length payload" using assms(1) by linarith
  have "records 56 (drop (i * 56) payload) = take 56 (drop (i * 56) payload) # records 56 (drop (Suc i * 56) payload)"
    using room by (subst records.simps) (simp add: add.commute)
  then show ?case
    using Suc.hyps(1) [of "Suc i"] Suc.hyps(2) lt room
    by (subst yieldEntries.simps) (simp add: DeltaEntrySize_def decodeDelta_take)
qed

lemma yieldEntries_overrun:
  assumes "length payload = n * 56" "n < cnt" "i \<le> n"
  shows "yieldEntries payload i cnt = Inl PanicSliceBounds"
  using assms(3)
proof (induction "n - i" arbitrary: i)
  case 0
  then have "i = n" by simp
  then show ?case using assms by (subst yieldEntries.simps) (simp add: DeltaEntrySize_def)
next
  case (Suc m)
  then have "i < n" by simp
  then show ?case
    using Suc.hyps(1) [of "Suc i"] Suc.hyps(2) assms(1,2)
    by (subst yieldEntries.simps) (simp add: DeltaEntrySize_def)
qed

lemma streamLoop_all:
  "length rest = cnt * 56 \<Longrightarrow> streamLoop rest cnt = (map decodeDeltaEntry (records 56 rest), None)"
proof (induction cnt arbitrary: rest)
  case 0
  then show ?case by (simp add: streamLoop.simps)
next
  case (Suc cnt)
  then have "records 56 rest = take 56 rest # records 56 (drop 56 rest)"
    by (subst records.simps) simp
  with Suc show ?case by (subst streamLoop.simps) (simp add: DeltaEntrySize_def)
qed

lemma streamLoop_overrun:
  "length rest = n * 56 \<Longrightarrow> n < cnt \<Longrightarrow>
     streamLoop rest cnt = (map decodeDeltaEntry (records 56 rest), Some DeltaMidEntry)"
proof (induction n arbitrary: rest cnt)
  case 0
  then show ?case by (subst streamLoop.simps) (simp add: DeltaEntrySize_def)
next
  case (Suc n)
  then have "records 56 rest = take 56 rest # records 56 (drop 56 rest)"
    by (subst records.simps) simp
  with Suc show ?case by (subst streamLoop.simps) (simp add: DeltaEntrySize_def)
qed

section \<open>Headers\<close>

lemma length_deltaMagic [simp]: "length deltaMagic = 6"
  by (simp add: deltaMagic_def ascii_def)

lemma length_DeltaHeader: "length digest = 32 \<Longrightarrow> length (DeltaHeader c digest) = 64"
  by (simp add: DeltaHeader_def)

lemma checkDelta_header:
  assumes "length (sha payload) = 32" "of_nat (length payload) = c * (56 :: u64)"
  shows "checkDelta sha (DeltaHeader c (sha payload) @ payload) = Inr (c, payload)"
  using assms by (simp add: checkDelta_def DeltaHeader_def Let_def DeltaHeaderSize_def DeltaEntrySize_def bslice_def)

lemma deltaFileHeader_header:
  assumes "length (sha payload) = 32" "of_nat (length payload) = c * (56 :: u64)"
  shows "deltaFileHeader (DeltaHeader c (sha payload) @ payload) = Inr c"
    and "ValidateDeltaFile sha (DeltaHeader c (sha payload) @ payload) = None"
  using assms
  by (simp_all add: ValidateDeltaFile_def deltaFileHeader_def DeltaHeader_def Let_def DeltaHeaderSize_def
      DeltaEntrySize_def bslice_def pread_def)

lemma streamDelta_header:
  assumes "length digest = 32"
  shows "streamDeltaRecords (DeltaHeader c digest @ payload) = streamLoop payload (unat c)"
  using assms by (simp add: streamDeltaRecords_def DeltaHeader_def DeltaHeaderSize_def pread_def bslice_def)

lemma Marshal_header: "Marshal sha es =
    DeltaHeader (of_nat (length es)) (sha (concat (map EncodeDeltaEntry es))) @ concat (map EncodeDeltaEntry es)"
  by (simp add: Marshal_def DeltaHeader_def Let_def)

lemma payload_length:
  "\<forall>e \<in> set es. wf_delta_entry e \<Longrightarrow> length (concat (map EncodeDeltaEntry es)) = length es * 56"
  using dec.array_length [of es] by (simp add: DeltaEntrySize_def)

lemma payload_records:
  "\<forall>e \<in> set es. wf_delta_entry e \<Longrightarrow> map decodeDeltaEntry (records 56 (concat (map EncodeDeltaEntry es))) = es"
  using dec.array_decode [of es] by (simp add: DeltaEntrySize_def)

lemma Marshal_reads:
  assumes "\<And>d. length (sha d) = 32" "\<forall>e \<in> set es. wf_delta_entry e" "length es \<le> 2 ^ 42"
  shows "ParseDelta sha (Marshal sha es) = Inr es \<and> ForEachDeltaEntry sha (Marshal sha es) = Inr es \<and>
    ValidateDeltaFile sha (Marshal sha es) = None \<and> DeltaEntryCount (Marshal sha es) = Inr (int (length es)) \<and>
    streamDeltaRecords (Marshal sha es) = (es, None)"
proof -
  let ?p = "concat (map EncodeDeltaEntry es)" and ?c = "of_nat (length es) :: u64"
  have len: "length ?p = length es * 56" by (rule payload_length [OF assms(2)])
  have c: "unat ?c = length es" using assms(3) by (simp add: unat_of_nat)
  have c': "sint ?c = int (length es)" using sint_of_int_u64 [of "int (length es)"] assms(3) by simp
  have w: "of_nat (length ?p) = ?c * (56 :: u64)" by (simp add: len)
  have y: "yieldEntries ?p 0 (length es) = Inr es"
    using yieldEntries_all [of "length es" ?p 0] len payload_records [OF assms(2)] by simp
  have st: "streamLoop ?p (length es) = (es, None)"
    using streamLoop_all [OF len] payload_records [OF assms(2)] by simp
  note h = checkDelta_header [of sha ?p, OF assms(1) w] deltaFileHeader_header [of sha ?p, OF assms(1) w]
    streamDelta_header [of "sha ?p", OF assms(1)]
  show ?thesis
    unfolding Marshal_header using h y st c c' assms(3)
    by (simp add: ParseDelta_def ForEachDeltaEntry_def DeltaEntryCount_def)
qed

section \<open>Sorting pack numbers\<close>

lemma siftDown_insert:
  "sorted ys \<Longrightarrow> \<exists>ys'. siftDown (ys @ x # zs) (length ys) = ys' @ zs \<and> sorted ys' \<and>
     mset ys' = add_mset x (mset ys)"
proof (induction ys arbitrary: zs rule: rev_induct)
  case Nil
  then show ?case by (intro exI [of _ "[x]"]) simp
next
  case (snoc y ys)
  have at: "((ys @ [y]) @ x # zs) ! Suc (length ys) = x" "((ys @ [y]) @ x # zs) ! length ys = y"
    by (simp_all add: nth_append)
  show ?case
  proof (cases "x < y")
    case True
    have swap: "((ys @ [y]) @ x # zs)[Suc (length ys) := y, length ys := x] = ys @ x # (y # zs)"
      by (simp add: list_update_append)
    obtain ys' where ys': "siftDown (ys @ x # (y # zs)) (length ys) = ys' @ y # zs" "sorted ys'"
      "mset ys' = add_mset x (mset ys)"
      using snoc.IH [of "y # zs"] snoc.prems by (auto simp: sorted_append)
    have "siftDown ((ys @ [y]) @ x # zs) (length (ys @ [y])) = (ys' @ [y]) @ zs"
      using True at swap ys'(1) by simp
    moreover have "set ys' = insert x (set ys)" using ys'(3) by (metis set_mset_add_mset_insert set_mset_mset)
    then have "sorted (ys' @ [y])" using ys'(2) snoc.prems True by (auto simp: sorted_append)
    ultimately show ?thesis using ys'(3) by (intro exI [of _ "ys' @ [y]"]) simp
  next
    case False
    have "siftDown ((ys @ [y]) @ x # zs) (length (ys @ [y])) = (ys @ [y, x]) @ zs"
      using False at by simp
    moreover have "sorted (ys @ [y, x])" using snoc.prems False by (auto simp: sorted_append)
    ultimately show ?thesis by (intro exI [of _ "ys @ [y, x]"]) simp
  qed
qed

lemma sortLoop_sorts:
  assumes "i \<le> length s" "sorted (take i s)"
  shows "sorted (sortLoop s [i..<length s]) \<and> mset (sortLoop s [i..<length s]) = mset s"
  using assms
proof (induction "length s - i" arbitrary: i s)
  case 0
  then show ?case by simp
next
  case (Suc m)
  then have i: "i < length s" by simp
  let ?x = "s ! i" and ?zs = "drop (Suc i) s"
  have s: "s = take i s @ ?x # ?zs" using i by (simp add: id_take_nth_drop)
  obtain ys' where ys': "siftDown (take i s @ ?x # ?zs) (length (take i s)) = ys' @ ?zs" "sorted ys'"
    "mset ys' = add_mset ?x (mset (take i s))"
    using siftDown_insert [OF Suc.prems(2)] by blast
  then have sift: "siftDown s i = ys' @ ?zs" using i s by simp
  have "size (mset ys') = Suc i" using ys'(3) i by simp
  then have len: "length ys' = Suc i" by simp
  then have L: "length (ys' @ ?zs) = length s" using i by simp
  have ms: "mset (ys' @ ?zs) = mset s"
    using ys'(3) arg_cong [OF s, of mset] by simp
  have "sorted (take (Suc i) (ys' @ ?zs))" using ys'(2) len by simp
  moreover have "m = length (ys' @ ?zs) - Suc i" "Suc i \<le> length (ys' @ ?zs)" using Suc.hyps(2) L i by auto
  ultimately have "sorted (sortLoop (ys' @ ?zs) [Suc i..<length (ys' @ ?zs)]) \<and>
      mset (sortLoop (ys' @ ?zs) [Suc i..<length (ys' @ ?zs)]) = mset (ys' @ ?zs)"
    using Suc.hyps(1) by blast
  moreover have "[i..<length s] = i # [Suc i..<length s]" using i by (rule upt_conv_Cons)
  ultimately show ?case using sift L ms by simp
qed

lemma sortU32Asc_sorts: "sorted (sortU32Asc s)" "mset (sortU32Asc s) = mset s"
proof -
  have "sorted (sortU32Asc s) \<and> mset (sortU32Asc s) = mset s"
  proof (cases s)
    case (Cons a l)
    have "sorted (take 1 s)" by (simp add: Cons)
    then show ?thesis unfolding sortU32Asc_def by (intro sortLoop_sorts) (simp_all add: Cons)
  qed (simp add: sortU32Asc_def)
  then show "sorted (sortU32Asc s)" "mset (sortU32Asc s) = mset s" by simp_all
qed

lemma distinctPacks_set:
  "set (distinctPacks seen es) = de_PackNumber ` set es - set seen" "distinct (distinctPacks seen es)"
  by (induction seen es rule: distinctPacks.induct) auto

section \<open>Properties\<close>

text \<open>
  C22: A delta object round-trips.  Marshalling any list of entries gives an object that
  parses back to exactly the list, that every file validator accepts with the right entry
  count, and whose streamed records are the same list.
\<close>

theorem delta_roundtrip:
  assumes "\<And>d. length (sha d) = 32" "\<forall>e \<in> set es. wf_delta_entry e" "length es \<le> 2 ^ 42"
  shows "ParseDelta sha (Marshal sha es) = Inr es \<and> ForEachDeltaEntry sha (Marshal sha es) = Inr es \<and>
    ValidateDeltaFile sha (Marshal sha es) = None \<and> DeltaEntryCount (Marshal sha es) = Inr (int (length es)) \<and>
    streamDeltaRecords (Marshal sha es) = (es, None)"
  by (rule Marshal_reads [of sha es, OF assms])

definition sample_delta :: DeltaEntry where
  "sample_delta = \<lparr> de_StrongHash = replicate 32 9, de_WeakHash = 77, de_PackNumber = 2, de_StoreOffset = 10,
     de_ChunkLength = 300 \<rparr>"

lemma wf_sample_delta: "wf_delta_entry sample_delta"
  by (simp add: wf_delta_entry_def sample_delta_def)

lemma sample_sha: "\<And>d. length (sha256 toy_prims d) = 32"
  using toy_ok(2) by (simp add: kdf_ok_def)

theorem delta_roundtrip_witness:
  "ParseDelta (sha256 toy_prims) (Marshal (sha256 toy_prims) [sample_delta, sample_delta])
     = Inr [sample_delta, sample_delta]"
  using delta_roundtrip [of "sha256 toy_prims", OF sample_sha, of "[sample_delta, sample_delta]"] wf_sample_delta by simp

text \<open>
  C23: What the parser accepts is exactly a delta: the entries it returns are the payload
  of the object, re-encoded byte for byte, and the payload hashes to the header's digest.
\<close>

theorem delta_parse_exact:
  assumes "ParseDelta sha data = Inr es" "length data < 2 ^ 63"
  shows "drop 64 data = concat (map EncodeDeltaEntry es) \<and> sha (drop 64 data) = bslice 16 48 data \<and>
    bslice 0 6 data = deltaMagic \<and> (\<forall>e \<in> set es. wf_delta_entry e)"
proof -
  obtain c p where ck: "checkDelta sha data = Inr (c, p)" and small: "unat c * 64 \<le> 2 ^ 48"
    and y: "yieldEntries p 0 (unat c) = Inr es"
    using assms(1) by (auto simp: ParseDelta_def split: sum.splits prod.splits if_splits)
  have h: "64 \<le> length data" "bslice 0 6 data = deltaMagic" "p = drop 64 data"
    "of_nat (length p) = c * (56 :: u64)" "sha p = bslice 16 48 data"
    using ck by (auto simp: checkDelta_def Let_def DeltaHeaderSize_def DeltaEntrySize_def split: if_splits)
  have "length p mod 2 ^ 64 = unat c * 56 mod 2 ^ 64"
    using arg_cong [OF h(4), of unat] by (simp add: unat_of_nat unat_word_ariths)
  moreover have "unat c * 56 < 2 ^ 64" using small by simp
  ultimately have m: "length p mod 2 ^ 64 = unat c * 56" by simp
  have "length p < 2 ^ 63" using assms(2) h(3) by simp
  with m have len: "length p = unat c * 56" by simp
  then have es: "es = map decodeDeltaEntry (records 56 p)"
    using y yieldEntries_all [of "unat c" p 0] by simp
  have "concat (map EncodeDeltaEntry es) = p"
    using dec.array_encode [of p] len es by (simp add: DeltaEntrySize_def)
  with h es dec.decoded_wf [of p] show ?thesis by (simp add: DeltaEntrySize_def)
qed

theorem delta_parse_exact_witness:
  "drop 64 (Marshal (sha256 toy_prims) [sample_delta]) = concat (map EncodeDeltaEntry [sample_delta])"
proof -
  let ?d = "Marshal (sha256 toy_prims) [sample_delta]"
  have "ParseDelta (sha256 toy_prims) ?d = Inr [sample_delta] \<and> length ?d < 2 ^ 63"
    using sample_sha [of "EncodeDeltaEntry sample_delta"] payload_length [of "[sample_delta]"] wf_sample_delta
      yieldEntries_all [of 1 "EncodeDeltaEntry sample_delta" 0] payload_records [of "[sample_delta]"]
      checkDelta_header [of "sha256 toy_prims" "EncodeDeltaEntry sample_delta" 1]
    by (simp add: Marshal_header ParseDelta_def length_DeltaHeader)
  with delta_parse_exact [of "sha256 toy_prims" ?d "[sample_delta]"] show ?thesis by simp
qed

text \<open>
  C32: The header's entry count is not covered by the digest, and the size checks multiply
  it in 64 bits, so a count that is too large by 2^61 passes.  Such an object is declared
  valid by the file validator, yet parsing it panics in \<^verbatim>\<open>make\<close>, iterating over it panics on
  the first missing entry, and streaming it fails in the middle, after all real entries
  were handed on.
\<close>

theorem wrapped_count_accepted:
  assumes "\<And>d. length (sha d) = 32" "\<forall>e \<in> set es. wf_delta_entry e" "length es \<le> 2 ^ 42"
  defines "payload \<equiv> concat (map EncodeDeltaEntry es)"
  defines "f \<equiv> DeltaHeader (of_nat (length es) + 2 ^ 61) (sha payload) @ payload"
  shows "ValidateDeltaFile sha f = None \<and> ParseDelta sha f = Inl PanicMakeSlice \<and>
    ForEachDeltaEntry sha f = Inl PanicSliceBounds \<and> streamDeltaRecords f = (es, Some DeltaMidEntry)"
proof -
  let ?c = "of_nat (length es) + 2 ^ 61 :: u64"
  have len: "length payload = length es * 56" unfolding payload_def by (rule payload_length [OF assms(2)])
  have "(2 :: u64) ^ 61 * 56 = 0" by code_simp
  then have w: "of_nat (length payload) = ?c * (56 :: u64)" by (simp only: len distrib_right of_nat_mult) simp
  have c: "unat ?c = length es + 2 ^ 61" using assms(3) by (simp add: unat_word_ariths unat_of_nat)
  have lt: "length es < unat ?c" unfolding c by simp
  note h = checkDelta_header [of sha payload, OF assms(1) w]
    deltaFileHeader_header [of sha payload, OF assms(1) w] streamDelta_header [of "sha payload", OF assms(1)]
  have "2 ^ 48 < unat ?c * 64" unfolding c by simp
  then show ?thesis
    using h yieldEntries_overrun [OF len lt, of 0] streamLoop_overrun [OF len lt] payload_records [OF assms(2)]
    unfolding f_def ParseDelta_def ForEachDeltaEntry_def by (simp add: payload_def)
qed

theorem wrapped_count_accepted_witness:
  "ValidateDeltaFile (sha256 toy_prims)
     (DeltaHeader (1 + 2 ^ 61) (sha256 toy_prims (EncodeDeltaEntry sample_delta)) @ EncodeDeltaEntry sample_delta) = None \<and>
   ParseDelta (sha256 toy_prims)
     (DeltaHeader (1 + 2 ^ 61) (sha256 toy_prims (EncodeDeltaEntry sample_delta)) @ EncodeDeltaEntry sample_delta)
     = Inl PanicMakeSlice"
  using wrapped_count_accepted [of "sha256 toy_prims", OF sample_sha, of "[sample_delta]"] wf_sample_delta by simp

lemma capture_fold:
  "\<not> dc_err c \<Longrightarrow> foldl captureAppend c es =
     c\<lparr> dc_payload := dc_payload c @ concat (map EncodeDeltaEntry es), dc_count := dc_count c + of_nat (length es) \<rparr>"
  by (induction es arbitrary: c) (simp_all add: captureAppend_def)

text \<open>
  C28: The journal a session writes while it inserts is, once stamped, the very object that
  marshalling the captured entries gives: it parses to exactly the session's inserts, in
  their order, and stamping it early does not change what a later stamp produces.
\<close>

theorem journal_is_delta:
  "(\<exists>c. stampHeader sha (foldl captureAppend newCapture es) = Some c \<and> captureFile c = Marshal sha es \<and>
     (\<exists>c'. stampHeader sha (foldl captureAppend c es') = Some c' \<and> captureFile c' = Marshal sha (es @ es')))"
  by (simp add: capture_fold newCapture_def stampHeader_def captureFile_def Marshal_header)

text \<open>
  The pack numbers of a delta are the distinct pack numbers of its entries in ascending
  order: the hand-written insertion sort sorts, and no pack is lost or repeated.
\<close>

theorem pack_numbers_sorted:
  "sorted (PackNumbers es) \<and> distinct (PackNumbers es) \<and> set (PackNumbers es) = de_PackNumber ` set es"
proof -
  note s = sortU32Asc_sorts [of "distinctPacks [] es"] and d = distinctPacks_set [of "[]" es]
  have "set (PackNumbers es) = set (distinctPacks [] es)"
    unfolding PackNumbers_def using s(2) by (metis set_mset_mset)
  moreover have "distinct (PackNumbers es)"
    unfolding PackNumbers_def using s(2) d(2) mset_eq_imp_distinct_iff by blast
  ultimately show ?thesis using s(1) d(1) by (simp add: PackNumbers_def)
qed

end
