(* ===== verification/Bloom.thy ===== *)
theory Bloom
  imports Engine_Prelude
begin

unbundle bit_operations_syntax

text \<open>
  The bloom filter of \<^verbatim>\<open>core/index/bloom.go\<close>, with its file format.  A bit operation
  outside the word array or a remainder by zero is a Go panic; it is the \<open>None\<close> of the
  operations here.  The floating-point size estimate is a parameter.
\<close>

section \<open>Model\<close>

definition bloomNumHash :: nat where
  "bloomNumHash = 7"

record BloomFilter =
  bf_bits :: "u64 list"
  bf_numBits :: u64
  bf_count :: u64

text \<open>\<open>est n\<close> is the ceiling of the optimal number of bits for \<open>n\<close> items at the given rate.\<close>

definition bloomNumBits :: "(u64 \<Rightarrow> u64) \<Rightarrow> u64 \<Rightarrow> u64" where
  "bloomNumBits est expectedItems =
     (let n = (if expectedItems = 0 then 1 else expectedItems);
          b = ((est n + 63) div 64) * 64
      in if b = 0 then 64 else b)"

definition BloomSizeBytes :: "(u64 \<Rightarrow> u64) \<Rightarrow> u64 \<Rightarrow> u64" where
  "BloomSizeBytes est expectedItems = bloomNumBits est expectedItems div 8"

definition NewBloomFilter :: "(u64 \<Rightarrow> u64) \<Rightarrow> u64 \<Rightarrow> BloomFilter" where
  "NewBloomFilter est expectedItems =
     (let b = bloomNumBits est expectedItems
      in \<lparr> bf_bits = replicate (unat (b div 64)) 0, bf_numBits = b, bf_count = 0 \<rparr>)"

definition mix64 :: "u64 \<Rightarrow> u64" where
  "mix64 x0 =
     (let x1 = x0 XOR drop_bit 30 x0;
          x2 = x1 * 0xbf58476d1ce4e5b9;
          x3 = x2 XOR drop_bit 27 x2;
          x4 = x3 * 0x94d049bb133111eb
      in x4 XOR drop_bit 31 x4)"

definition hashPosition :: "BloomFilter \<Rightarrow> u64 \<Rightarrow> nat \<Rightarrow> u64 option" where
  "hashPosition bf weakHash i =
     (if bf_numBits bf = 0 then None
      else Some ((weakHash + of_nat i * mix64 weakHash + of_nat i * of_nat i) mod bf_numBits bf))"

definition setBit :: "BloomFilter \<Rightarrow> u64 \<Rightarrow> BloomFilter option" where
  "setBit bf pos =
     (let w = unat (pos div 64) in
      if w < length (bf_bits bf)
      then Some (bf\<lparr> bf_bits := (bf_bits bf)[w := (bf_bits bf ! w) OR push_bit (unat (pos mod 64)) 1] \<rparr>)
      else None)"

definition testBit :: "BloomFilter \<Rightarrow> u64 \<Rightarrow> bool option" where
  "testBit bf pos =
     (let w = unat (pos div 64) in
      if w < length (bf_bits bf)
      then Some ((bf_bits bf ! w) AND push_bit (unat (pos mod 64)) 1 \<noteq> 0)
      else None)"

fun bf_addLoop :: "BloomFilter \<Rightarrow> u64 \<Rightarrow> nat list \<Rightarrow> BloomFilter option" where
  "bf_addLoop bf weakHash [] = Some bf"
| "bf_addLoop bf weakHash (i # is) =
     (case hashPosition bf weakHash i of
        None \<Rightarrow> None
      | Some pos \<Rightarrow> (case setBit bf pos of None \<Rightarrow> None | Some bf' \<Rightarrow> bf_addLoop bf' weakHash is))"

definition bf_Add :: "BloomFilter \<Rightarrow> u64 \<Rightarrow> BloomFilter option" where
  "bf_Add bf weakHash =
     map_option (\<lambda>b. b\<lparr> bf_count := bf_count b + 1 \<rparr>) (bf_addLoop bf weakHash [0..<bloomNumHash])"

fun bf_testLoop :: "BloomFilter \<Rightarrow> u64 \<Rightarrow> nat list \<Rightarrow> bool option" where
  "bf_testLoop bf weakHash [] = Some True"
| "bf_testLoop bf weakHash (i # is) =
     (case hashPosition bf weakHash i of
        None \<Rightarrow> None
      | Some pos \<Rightarrow>
          (case testBit bf pos of
             None \<Rightarrow> None
           | Some b \<Rightarrow> if b then bf_testLoop bf weakHash is else Some False))"

definition bf_MayContain :: "BloomFilter \<Rightarrow> u64 \<Rightarrow> bool option" where
  "bf_MayContain bf weakHash = bf_testLoop bf weakHash [0..<bloomNumHash]"

definition bf_Count :: "BloomFilter \<Rightarrow> u64" where
  "bf_Count bf = bf_count bf"

definition bf_SizeBytes :: "BloomFilter \<Rightarrow> u64" where
  "bf_SizeBytes bf = of_nat (length (bf_bits bf)) * 8"

definition bf_Save :: "BloomFilter \<Rightarrow> bytes" where
  "bf_Save bf = put64 (bf_numBits bf) @ put64 (bf_count bf) @ concat (map put64 (bf_bits bf))"

datatype bloom_error = BloomTooSmall | BloomNumBits | BloomSizeMismatch

definition LoadBloomFilter :: "bytes \<Rightarrow> bloom_error + BloomFilter" where
  "LoadBloomFilter data =
     (if length data < 16 then Inl BloomTooSmall
      else
        let numBits = get64 (bslice 0 8 data);
            count = get64 (bslice 8 16 data)
        in if numBits = 0 \<or> numBits mod 64 \<noteq> 0 then Inl BloomNumBits
           else if of_nat (length data) \<noteq> 16 + (numBits div 64) * 8 then Inl BloomSizeMismatch
           else Inr \<lparr> bf_bits = map (\<lambda>i. get64 (bslice (16 + i * 8) (16 + i * 8 + 8) data))
                                 [0..<unat (numBits div 64)],
                      bf_numBits = numBits, bf_count = count \<rparr>)"

section \<open>Well-formed filters never panic\<close>

definition bf_wf :: "BloomFilter \<Rightarrow> bool" where
  "bf_wf bf \<longleftrightarrow> bf_numBits bf \<noteq> 0 \<and> unat (bf_numBits bf) = 64 * length (bf_bits bf)"

lemma pos_in_range:
  assumes "bf_wf bf" "hashPosition bf w i = Some pos"
  shows "unat (pos div 64) < length (bf_bits bf)"
proof -
  have "pos < bf_numBits bf"
    using assms by (auto simp: hashPosition_def bf_wf_def word_mod_less_divisor word_gt_0 split: if_splits)
  then have "unat pos < 64 * length (bf_bits bf)"
    using assms(1) by (simp add: bf_wf_def word_less_nat_alt)
  then show ?thesis by (simp add: unat_div less_mult_imp_div_less mult.commute)
qed

lemma hashPosition_total: "bf_wf bf \<Longrightarrow> \<exists>pos. hashPosition bf w i = Some pos"
  by (simp add: hashPosition_def bf_wf_def)

lemma hashPosition_numBits: "bf_numBits bf' = bf_numBits bf \<Longrightarrow> hashPosition bf' w i = hashPosition bf w i"
  by (simp add: hashPosition_def)

lemma testBit_bit:
  "testBit bf pos =
     (if unat (pos div 64) < length (bf_bits bf)
      then Some (bit (bf_bits bf ! unat (pos div 64)) (unat (pos mod 64))) else None)"
  by (simp only: testBit_def bit_iff_and_push_bit_not_eq_0 Let_def)

lemma setBit_ok:
  assumes "bf_wf bf" "unat (pos div 64) < length (bf_bits bf)"
  shows "\<exists>bf'. setBit bf pos = Some bf' \<and> bf_wf bf' \<and> bf_numBits bf' = bf_numBits bf \<and>
    length (bf_bits bf') = length (bf_bits bf) \<and> testBit bf' pos = Some True \<and>
    (\<forall>q. testBit bf q = Some True \<longrightarrow> testBit bf' q = Some True)"
proof -
  have k: "unat (pos mod 64) < 64" by (simp add: unat_mod)
  then show ?thesis
    using assms
    by (auto simp: setBit_def testBit_bit bf_wf_def Let_def nth_list_update bit_or_iff bit_exp_iff
        split: if_splits)
qed

lemma addLoop_ok:
  assumes "bf_wf bf"
  shows "\<exists>bf'. bf_addLoop bf w is = Some bf' \<and> bf_wf bf' \<and> bf_numBits bf' = bf_numBits bf \<and>
    (\<forall>i \<in> set is. \<exists>pos. hashPosition bf w i = Some pos \<and> testBit bf' pos = Some True) \<and>
    (\<forall>q. testBit bf q = Some True \<longrightarrow> testBit bf' q = Some True)"
  using assms
proof (induction "is" arbitrary: bf)
  case (Cons i "is")
  obtain pos where pos: "hashPosition bf w i = Some pos" using hashPosition_total [OF Cons.prems] by blast
  obtain b1 where b1: "setBit bf pos = Some b1" "bf_wf b1" "bf_numBits b1 = bf_numBits bf"
    "testBit b1 pos = Some True" "\<forall>q. testBit bf q = Some True \<longrightarrow> testBit b1 q = Some True"
    using setBit_ok [OF Cons.prems pos_in_range [OF Cons.prems pos]] by blast
  obtain b2 where "bf_addLoop b1 w is = Some b2" "bf_wf b2" "bf_numBits b2 = bf_numBits b1"
    "\<forall>i \<in> set is. \<exists>pos. hashPosition b1 w i = Some pos \<and> testBit b2 pos = Some True"
    "\<forall>q. testBit b1 q = Some True \<longrightarrow> testBit b2 q = Some True"
    using Cons.IH [OF b1(2)] by blast
  with b1 pos hashPosition_numBits [OF b1(3)] show ?case by auto
qed simp

lemma testLoop_True:
  "bf_testLoop bf w is = Some True \<longleftrightarrow>
     (\<forall>i \<in> set is. \<exists>pos. hashPosition bf w i = Some pos \<and> testBit bf pos = Some True)"
  by (induction "is") (auto split: option.splits)

lemma testLoop_total: "bf_wf bf \<Longrightarrow> \<exists>b. bf_testLoop bf w is = Some b"
proof (induction "is")
  case (Cons i "is")
  obtain pos where pos: "hashPosition bf w i = Some pos" using hashPosition_total [OF Cons.prems] by blast
  with pos_in_range [OF Cons.prems pos] Cons show ?case by (auto simp: testBit_bit)
qed auto

lemma bf_count_test [simp]:
  "testBit (bf\<lparr> bf_count := c \<rparr>) = testBit bf" "hashPosition (bf\<lparr> bf_count := c \<rparr>) = hashPosition bf"
  "bf_wf (bf\<lparr> bf_count := c \<rparr>) = bf_wf bf"
  by (auto simp: testBit_bit hashPosition_def bf_wf_def fun_eq_iff)

lemma testLoop_count [simp]: "bf_testLoop (bf\<lparr> bf_count := c \<rparr>) w is = bf_testLoop bf w is"
  by (induction "is") (auto split: option.splits)

lemma bf_Add_ok:
  assumes "bf_wf bf"
  shows "\<exists>bf'. bf_Add bf w = Some bf' \<and> bf_wf bf' \<and> bf_MayContain bf' w = Some True \<and>
    (\<forall>v. bf_MayContain bf v = Some True \<longrightarrow> bf_MayContain bf' v = Some True)"
proof -
  obtain b where b: "bf_addLoop bf w [0..<bloomNumHash] = Some b" "bf_wf b" "bf_numBits b = bf_numBits bf"
    "\<forall>i \<in> set [0..<bloomNumHash]. \<exists>pos. hashPosition bf w i = Some pos \<and> testBit b pos = Some True"
    "\<forall>q. testBit bf q = Some True \<longrightarrow> testBit b q = Some True"
    using addLoop_ok [OF assms] by blast
  note hp = hashPosition_numBits [OF b(3)]
  have "bf_MayContain b w = Some True"
    unfolding bf_MayContain_def testLoop_True hp by (rule b(4))
  moreover have "bf_MayContain b v = Some True" if "bf_MayContain bf v = Some True" for v
    using that b(5) unfolding bf_MayContain_def testLoop_True hp by blast
  ultimately show ?thesis
    using b(1,2) by (auto simp: bf_Add_def bf_MayContain_def)
qed

section \<open>The mixer is a bijection\<close>

lemma xorshift_inj:
  fixes x y :: u64
  assumes "0 < n" and eq: "x XOR drop_bit n x = y XOR drop_bit n y"
  shows "x = y"
proof (rule bit_eqI)
  fix k
  show "bit x k = bit y k"
  proof (induction "64 - k" arbitrary: k rule: less_induct)
    case less
    show ?case
    proof (cases "k < 64")
      case True
      with assms(1) have "bit x (k + n) = bit y (k + n)" by (intro less) simp
      moreover have "bit (x XOR drop_bit n x) k = bit (y XOR drop_bit n y) k" using eq by simp
      ultimately show ?thesis by (auto simp: bit_xor_iff bit_drop_bit_eq add.commute)
    next
      case False
      then show ?thesis using bit_imp_le_length [of x k] bit_imp_le_length [of y k] by auto
    qed
  qed
qed

lemma mult_inj:
  fixes x y c d :: u64
  assumes "c * d = 1" "x * c = y * c"
  shows "x = y"
proof -
  have "x * (c * d) = y * (c * d)" using assms(2) by (simp add: mult.assoc [symmetric])
  with assms(1) show ?thesis by simp
qed

lemma mix64_inj: "mix64 x = mix64 y \<Longrightarrow> x = y"
  unfolding mix64_def Let_def
  by (drule xorshift_inj [rotated], simp, drule mult_inj [rotated, of _ _ _ "0x319642b2d24d8ec3"], simp,
      drule xorshift_inj [rotated], simp, drule mult_inj [rotated, of _ _ _ "0x96de1b173f119089"], simp,
      drule xorshift_inj [rotated], simp, assumption)

section \<open>New, saved and loaded filters\<close>

lemma bloomNumBits_words:
  "bloomNumBits est n \<noteq> 0" "unat (bloomNumBits est n) = 64 * unat (bloomNumBits est n div 64)"
proof -
  let ?x = "est (if n = 0 then 1 else n) + 63"
  have "unat ?x div 64 * 64 \<le> unat ?x" by simp
  then have "unat ?x div 64 * 64 < 2 ^ 64" using unat_lt_u64 [of ?x] by simp
  then have m: "unat (?x div 64 * 64) = 64 * (unat ?x div 64)"
    by (simp add: unat_word_ariths unat_div)
  show "bloomNumBits est n \<noteq> 0" by (simp add: bloomNumBits_def Let_def)
  show "unat (bloomNumBits est n) = 64 * unat (bloomNumBits est n div 64)"
    using m by (auto simp: bloomNumBits_def Let_def unat_div)
qed

lemma NewBloomFilter_wf: "bf_wf (NewBloomFilter est n)"
  using bloomNumBits_words [of est n] by (simp add: NewBloomFilter_def bf_wf_def Let_def)

lemma LoadBloomFilter_wf: "LoadBloomFilter data = Inr bf \<Longrightarrow> bf_wf bf"
proof -
  assume load: "LoadBloomFilter data = Inr bf"
  let ?n = "get64 (bslice 0 8 data)"
  have n: "?n \<noteq> 0" "?n mod 64 = 0" and bf: "bf_numBits bf = ?n" "length (bf_bits bf) = unat (?n div 64)"
    using load by (auto simp: LoadBloomFilter_def Let_def split: if_splits)
  have "unat ?n mod 64 = 0" using arg_cong [OF n(2), of unat] by (simp add: unat_mod)
  then have "unat ?n = 64 * (unat ?n div 64)" by (metis mult_div_mod_eq add.right_neutral)
  with n bf show ?thesis by (simp add: bf_wf_def unat_div)
qed

lemma Load_Save:
  assumes "bf_wf bf"
  shows "LoadBloomFilter (bf_Save bf) = Inr bf"
proof -
  let ?L = "length (bf_bits bf)"
  have u: "unat (bf_numBits bf div 64) = ?L" using assms by (simp add: bf_wf_def unat_div)
  have m: "bf_numBits bf mod 64 = 0"
    using assms by (simp add: bf_wf_def word_unat_eq_iff unat_mod)
  have len: "length (bf_Save bf) = 16 + ?L * 8"
    using u64c.array_length [of "bf_bits bf"] by (simp add: bf_Save_def)
  have "bf_numBits bf div 64 = of_nat ?L" using u by (metis of_nat_unat ucast_id)
  then have sz: "of_nat (length (bf_Save bf)) = 16 + (bf_numBits bf div 64) * 8"
    using len by simp
  have bits: "map (\<lambda>i. get64 (bslice (16 + i * 8) (16 + i * 8 + 8) (bf_Save bf))) [0..<?L] = bf_bits bf"
  proof (rule nth_equalityI)
    fix i assume "i < length (map (\<lambda>i. get64 (bslice (16 + i * 8) (16 + i * 8 + 8) (bf_Save bf))) [0..<?L])"
    then show "map (\<lambda>i. get64 (bslice (16 + i * 8) (16 + i * 8 + 8) (bf_Save bf))) [0..<?L] ! i = bf_bits bf ! i"
      using u64c.array_nth [of "bf_bits bf" i] by (simp add: bf_Save_def bslice_def)
  qed simp
  show ?thesis
    using assms len sz u m bits
    by (simp add: LoadBloomFilter_def Let_def) (simp add: bf_Save_def bslice_def bf_wf_def)
qed

section \<open>Membership filters\<close>

text \<open>
  What dedup needs of its first tier: adding and asking never fail, and no added key is
  ever answered negatively again.
\<close>

primrec add_all :: "('f \<Rightarrow> u64 \<Rightarrow> 'f option) \<Rightarrow> 'f \<Rightarrow> u64 list \<Rightarrow> 'f option" where
  "add_all add f [] = Some f"
| "add_all add f (w # ws) = (case add f w of None \<Rightarrow> None | Some f' \<Rightarrow> add_all add f' ws)"

locale membership_filter =
  fixes finv :: "'f \<Rightarrow> bool"
    and add :: "'f \<Rightarrow> u64 \<Rightarrow> 'f option"
    and may :: "'f \<Rightarrow> u64 \<Rightarrow> bool option"
  assumes add_ok: "finv f \<Longrightarrow> \<exists>f'. add f w = Some f' \<and> finv f' \<and> may f' w = Some True \<and>
      (\<forall>v. may f v = Some True \<longrightarrow> may f' v = Some True)"
    and may_total: "finv f \<Longrightarrow> \<exists>b. may f w = Some b"
begin

lemma add_all_ok:
  "finv f \<Longrightarrow> \<exists>f'. add_all add f ws = Some f' \<and> finv f' \<and> (\<forall>w \<in> set ws. may f' w = Some True) \<and>
     (\<forall>v. may f v = Some True \<longrightarrow> may f' v = Some True)"
proof (induction ws arbitrary: f)
  case (Cons w ws)
  obtain f1 where f1: "add f w = Some f1" "finv f1" "may f1 w = Some True"
    "\<forall>v. may f v = Some True \<longrightarrow> may f1 v = Some True"
    using add_ok [OF Cons.prems] by blast
  with Cons.IH [OF f1(2)] show ?case by auto
qed simp

end

interpretation bloom: membership_filter bf_wf bf_Add bf_MayContain
  by unfold_locales (rule bf_Add_ok, assumption, simp add: testLoop_total bf_MayContain_def)

section \<open>Properties\<close>

text \<open>
  C25: The bloom filter has no false negatives and cannot panic: any filter that was
  newly created for any size estimate, or loaded from any file the loader accepts, takes
  every sequence of additions without an index or division error and afterwards answers
  positively for each added hash, also after it was saved and loaded again.
\<close>

theorem bloom_no_false_negative:
  assumes "bf = NewBloomFilter est n \<or> LoadBloomFilter data = Inr bf"
  shows "\<exists>bf'. add_all bf_Add bf ws = Some bf' \<and> LoadBloomFilter (bf_Save bf') = Inr bf' \<and>
    (\<forall>w \<in> set ws. bf_MayContain bf' w = Some True) \<and> (\<forall>v. bf_MayContain bf' v \<noteq> None) \<and>
    (\<forall>v. bf_MayContain bf v = Some True \<longrightarrow> bf_MayContain bf' v = Some True)"
proof -
  have "bf_wf bf" using assms NewBloomFilter_wf LoadBloomFilter_wf by auto
  from bloom.add_all_ok [OF this, of ws] obtain bf' where "add_all bf_Add bf ws = Some bf'" "bf_wf bf'"
    "\<forall>w \<in> set ws. bf_MayContain bf' w = Some True"
    "\<forall>v. bf_MayContain bf v = Some True \<longrightarrow> bf_MayContain bf' v = Some True" by blast
  with Load_Save [of bf'] bloom.may_total [of bf'] show ?thesis by (metis option.distinct(1))
qed

theorem bloom_no_false_negative_witness:
  "\<exists>bf'. add_all bf_Add (NewBloomFilter (\<lambda>n. n * 10) 2) [5, 77] = Some bf' \<and>
     bf_MayContain bf' 77 = Some True"
  using bloom_no_false_negative [of "NewBloomFilter (\<lambda>n. n * 10) 2" "\<lambda>n. n * 10" 2 "[]" "[5, 77]"] by auto

text \<open>
  The mixer that derives the second hash of a weak hash is a bijection on 64-bit words,
  as its comment says: distinct weak hashes keep distinct second hashes.
\<close>

theorem mix64_bij: "bij mix64"
  using mix64_inj by (intro bijI finite_UNIV_inj_surj) (auto intro: injI)

end
