(* ===== verification/Index_Entry.thy ===== *)
theory Index_Entry
  imports Engine_Prelude
begin

text \<open>
  The chunk identity of \<^verbatim>\<open>core/hasher\<close> and the 48-byte index entry of
  \<^verbatim>\<open>core/index/hashindex.go\<close>: the record, its on-disk layout and the interpretation
  of the layout as an exact fixed-width codec.  A Go array \<^verbatim>\<open>[32]byte\<close> is a byte
  list of length 32.
\<close>

section \<open>Chunk identity\<close>

record ChunkID =
  WeakHash :: u64
  StrongHash_id :: bytes

text \<open>xxHash and SHA-256 live outside the repository's own code; they are parameters.\<close>

definition Sum :: "(bytes \<Rightarrow> u64) \<Rightarrow> (bytes \<Rightarrow> bytes) \<Rightarrow> bytes \<Rightarrow> ChunkID" where
  "Sum xxhash sha256 data = \<lparr> WeakHash = xxhash data, StrongHash_id = sha256 data \<rparr>"

definition StrongHashBytes :: "ChunkID \<Rightarrow> bytes" where
  "StrongHashBytes cid = StrongHash_id cid"

text \<open>The shift-and-or form of the big-endian prefix.\<close>

definition Prefix8 :: "ChunkID \<Rightarrow> u64" where
  "Prefix8 cid =
     push_bit 56 (ucast (StrongHash_id cid ! 0)) OR
     push_bit 48 (ucast (StrongHash_id cid ! 1)) OR
     push_bit 40 (ucast (StrongHash_id cid ! 2)) OR
     push_bit 32 (ucast (StrongHash_id cid ! 3)) OR
     push_bit 24 (ucast (StrongHash_id cid ! 4)) OR
     push_bit 16 (ucast (StrongHash_id cid ! 5)) OR
     push_bit 8 (ucast (StrongHash_id cid ! 6)) OR
     ucast (StrongHash_id cid ! 7)"

section \<open>Index entries\<close>

definition EntrySize :: nat where
  "EntrySize = 48"

record IndexEntry =
  StrongHash :: bytes
  PackNumber :: u32
  StoreOffset :: u64
  ChunkLength :: u32

definition zeroHash :: bytes where
  "zeroHash = replicate 32 0"

definition hashPrefix8 :: "bytes \<Rightarrow> u64" where
  "hashPrefix8 h = getBE64 (bslice 0 8 h)"

definition encodeEntry :: "IndexEntry \<Rightarrow> bytes" where
  "encodeEntry e = StrongHash e @ put32 (PackNumber e) @ put64 (StoreOffset e) @ put32 (ChunkLength e)"

definition decodeEntry :: "bytes \<Rightarrow> IndexEntry" where
  "decodeEntry buf =
     \<lparr> StrongHash = bslice 0 32 buf,
       PackNumber = get32 (bslice 32 36 buf),
       StoreOffset = get64 (bslice 36 44 buf),
       ChunkLength = get32 (bslice 44 48 buf) \<rparr>"

definition wf_entry :: "IndexEntry \<Rightarrow> bool" where
  "wf_entry e \<longleftrightarrow> length (StrongHash e) = 32"

lemma length_zeroHash [simp]: "length zeroHash = 32"
  by (simp add: zeroHash_def)

lemma length_encodeEntry [simp]: "length (encodeEntry e) = length (StrongHash e) + 16"
  by (simp add: encodeEntry_def)

lemma decode_encodeEntry [simp]: "wf_entry e \<Longrightarrow> decodeEntry (encodeEntry e) = e"
  by (simp add: decodeEntry_def encodeEntry_def wf_entry_def bslice_def)

lemma take_encodeEntry [simp]: "wf_entry e \<Longrightarrow> take 32 (encodeEntry e) = StrongHash e"
  by (simp add: encodeEntry_def wf_entry_def)

lemma StrongHash_decodeEntry [simp]: "StrongHash (decodeEntry buf) = take 32 buf"
  by (simp add: decodeEntry_def)

lemma wf_decodeEntry [simp]: "32 \<le> length buf \<Longrightarrow> wf_entry (decodeEntry buf)"
  by (simp add: wf_entry_def)

lemma encode_decodeEntry [simp]:
  assumes "length buf = 48"
  shows "encodeEntry (decodeEntry buf) = buf"
proof -
  have "encodeEntry (decodeEntry buf)
      = take 32 buf @ bslice 32 36 buf @ bslice 36 44 buf @ bslice 44 48 buf"
    using assms by (simp add: encodeEntry_def decodeEntry_def put_get length_bslice)
  also have "\<dots> = buf"
  proof -
    have "bslice 44 48 buf = drop 44 buf"
      using assms by (simp add: bslice_def)
    moreover have "bslice 36 44 buf @ drop 44 buf = drop 36 buf"
      using append_take_drop_id [of 8 "drop 36 buf"] by (simp add: bslice_def)
    moreover have "bslice 32 36 buf @ drop 36 buf = drop 32 buf"
      using append_take_drop_id [of 4 "drop 32 buf"] by (simp add: bslice_def)
    ultimately show ?thesis by simp
  qed
  finally show ?thesis .
qed

interpretation ie: exact_codec encodeEntry decodeEntry EntrySize wf_entry
  by unfold_locales (auto simp: EntrySize_def wf_entry_def)

text \<open>The index sorts by the first eight bytes of the hash, read as one big-endian number.\<close>

lemma hashPrefix8_take: "8 \<le> n \<Longrightarrow> hashPrefix8 (take n h) = hashPrefix8 h"
  by (simp add: hashPrefix8_def min_def)

lemma push_or_add: "take_bit n b = b \<Longrightarrow> push_bit n a OR b = push_bit n a + (b :: u64)"
proof -
  assume b: "take_bit n b = b"
  have "\<not> bit (push_bit n a) k \<or> \<not> bit b k" for k
  proof (cases "k < n")
    case True
    then show ?thesis by (simp add: bit_simps)
  next
    case False
    have "\<not> bit (take_bit n b) k" using False by (simp add: bit_simps)
    then show ?thesis using b by simp
  qed
  then show ?thesis by (subst disjunctive_add) auto
qed

lemma take_bit_ucast_byte: "8 \<le> n \<Longrightarrow> take_bit n (ucast (b :: byte) :: u64) = ucast b"
  by (rule bit_eqI) (auto simp: bit_simps dest: bit_imp_le_length)

lemma Prefix8_eq_hashPrefix8:
  assumes "length (StrongHash_id cid) = 32"
  shows "Prefix8 cid = hashPrefix8 (StrongHash_id cid)"
proof -
  let ?h = "StrongHash_id cid"
  have "take 8 ?h = [?h ! 0, ?h ! 1, ?h ! 2, ?h ! 3, ?h ! 4, ?h ! 5, ?h ! 6, ?h ! 7]"
    using assms by (simp add: take_Suc_conv_app_nth eval_nat_numeral)
  then show ?thesis
    unfolding Prefix8_def hashPrefix8_def
    by (subst push_or_add, simp add: take_bit_push_bit take_bit_ucast_byte)+
      (simp add: getBE64_def be_dec_def push_bit_eq_mult algebra_simps)
qed

section \<open>Entry lists as maps\<close>

definition entry_map :: "IndexEntry list \<Rightarrow> bytes \<Rightarrow> IndexEntry option" where
  "entry_map es = map_of (map (\<lambda>e. (StrongHash e, e)) es)"

text \<open>SHA-256 of real data is never all zeros: the index uses it as the empty mark.\<close>

definition good_entry :: "IndexEntry \<Rightarrow> bool" where
  "good_entry e \<longleftrightarrow> wf_entry e \<and> StrongHash e \<noteq> zeroHash"

lemma entry_map_Some_iff:
  "distinct (map StrongHash es) \<Longrightarrow> entry_map es h = Some e \<longleftrightarrow> e \<in> set es \<and> StrongHash e = h"
  unfolding entry_map_def by (subst map_of_eq_Some_iff) (auto simp: o_def)

lemma entry_map_None_iff: "entry_map es h = None \<longleftrightarrow> h \<notin> StrongHash ` set es"
  by (simp add: entry_map_def map_of_eq_None_iff image_image)

lemma entry_map_append: "entry_map (xs @ ys) = entry_map ys ++ entry_map xs"
  by (simp add: entry_map_def)

lemma entry_map_single: "entry_map [e] = [StrongHash e \<mapsto> e]"
  by (simp add: entry_map_def)

lemma entry_map_mset:
  assumes "distinct (map StrongHash xs)" "mset xs = mset ys"
  shows "entry_map xs = entry_map ys"
proof (rule ext, rule option_eqI)
  fix h e
  have "mset (map StrongHash xs) = mset (map StrongHash ys)" using assms(2) by simp
  then have "distinct (map StrongHash ys)" using assms(1) mset_eq_imp_distinct_iff by blast
  then show "entry_map xs h = Some e \<longleftrightarrow> entry_map ys h = Some e"
    using assms mset_eq_setD [OF assms(2)] by (simp add: entry_map_Some_iff)
qed

lemma dom_entry_map: "dom (entry_map es) = StrongHash ` set es"
  by (auto simp: entry_map_None_iff dom_def)

section \<open>Location stores\<close>

text \<open>
  The contract of everything that maps strong hashes to locations: lookups read the
  abstract map, an insert with room left overwrites one key.  A loop of inserts then
  applies the entries in order, the last one of a hash winning.
\<close>

primrec insert_all :: "('s \<Rightarrow> IndexEntry \<Rightarrow> 'e + 's) \<Rightarrow> 's \<Rightarrow> IndexEntry list \<Rightarrow> 'e + 's" where
  "insert_all ins s [] = Inr s"
| "insert_all ins s (e # es) = (case ins s e of Inl x \<Rightarrow> Inl x | Inr s' \<Rightarrow> insert_all ins s' es)"

locale location_store =
  fixes inv :: "'s \<Rightarrow> bool"
    and abs :: "'s \<Rightarrow> bytes \<Rightarrow> IndexEntry option"
    and lookup :: "'s \<Rightarrow> bytes \<Rightarrow> 'e + IndexEntry option"
    and ins :: "'s \<Rightarrow> IndexEntry \<Rightarrow> 'e + 's"
    and room :: "'s \<Rightarrow> nat \<Rightarrow> bool"
  assumes lookup_abs: "inv s \<Longrightarrow> lookup s h = Inr (abs s h)"
    and ins_abs: "inv s \<Longrightarrow> room s (Suc k) \<Longrightarrow> good_entry e \<Longrightarrow>
      \<exists>s'. ins s e = Inr s' \<and> inv s' \<and> room s' k \<and> abs s' = (abs s)(StrongHash e \<mapsto> e)"
begin

lemma insert_all_abs:
  "inv s \<Longrightarrow> room s (length es) \<Longrightarrow> \<forall>e \<in> set es. good_entry e \<Longrightarrow>
     \<exists>s'. insert_all ins s es = Inr s' \<and> inv s' \<and> abs s' = abs s ++ entry_map (rev es)"
proof (induction es arbitrary: s)
  case Nil
  then show ?case by (simp add: entry_map_def)
next
  case (Cons e es)
  then obtain s1 where s1: "ins s e = Inr s1" "inv s1" "room s1 (length es)"
    "abs s1 = (abs s)(StrongHash e \<mapsto> e)"
    using ins_abs [of s "length es" e] by auto
  from Cons.IH [OF s1(2,3)] Cons.prems obtain s2 where
    "insert_all ins s1 es = Inr s2" "inv s2" "abs s2 = abs s1 ++ entry_map (rev es)" by auto
  with s1 show ?case by (auto simp: entry_map_append entry_map_single)
qed

lemma insert_all_lookup:
  assumes "inv s" "room s (length es)" "\<forall>e \<in> set es. good_entry e"
  shows "\<exists>s'. insert_all ins s es = Inr s' \<and>
    (\<forall>h. lookup s' h = Inr (case entry_map (rev es) h of None \<Rightarrow> abs s h | Some e \<Rightarrow> Some e))"
  using insert_all_abs [OF assms] by (auto simp: lookup_abs map_add_def)

end

end
