(* ===== verification/Linear_Probing.thy ===== *)
theory Linear_Probing
  imports Main
begin

text \<open>
  The combinatorics of open addressing with linear probing, apart from any storage
  layout.  A table of \<open>n\<close> slots is a function from slot numbers to an optional key;
  \<open>hm k\<close> is the home slot of a key.  The disk hash table and its segmented builder
  both rest on these lemmas.
\<close>

definition probe_slot :: "nat \<Rightarrow> nat \<Rightarrow> nat \<Rightarrow> nat" where
  "probe_slot n s d = (s + d) mod n"

text \<open>Every key is reachable from its home slot over occupied slots only.\<close>

definition probe_inv :: "nat \<Rightarrow> ('k \<Rightarrow> nat) \<Rightarrow> (nat \<Rightarrow> 'k option) \<Rightarrow> bool" where
  "probe_inv n hm K \<longleftrightarrow>
     (\<forall>i k. i < n \<longrightarrow> K i = Some k \<longrightarrow>
        (\<exists>d < n. probe_slot n (hm k) d = i \<and> (\<forall>d' < d. K (probe_slot n (hm k) d') \<noteq> None)))"

definition distinct_slots :: "nat \<Rightarrow> (nat \<Rightarrow> 'k option) \<Rightarrow> bool" where
  "distinct_slots n K \<longleftrightarrow>
     (\<forall>i j. i < n \<longrightarrow> j < n \<longrightarrow> K i = K j \<longrightarrow> K i \<noteq> None \<longrightarrow> i = j)"

text \<open>The probe at which a search for \<open>k\<close> stops: an empty slot, or the key itself.\<close>

definition probe_stop :: "nat \<Rightarrow> ('k \<Rightarrow> nat) \<Rightarrow> (nat \<Rightarrow> 'k option) \<Rightarrow> 'k \<Rightarrow> nat option" where
  "probe_stop n hm K k =
     List.find (\<lambda>p. K (probe_slot n (hm k) p) = None \<or> K (probe_slot n (hm k) p) = Some k) [0..<n]"

lemma probe_slot_less [simp]: "0 < n \<Longrightarrow> probe_slot n s d < n"
  by (simp add: probe_slot_def)

lemma probe_slot_inj:
  assumes "d < n" "d' < n" "probe_slot n s d = probe_slot n s d'"
  shows "d = d'"
proof -
  have *: "x = y" if "x \<le> y" "y < n" "(s + x) mod n = (s + y) mod n" for x y
  proof -
    have "n dvd (s + y) - (s + x)"
      using that mod_eq_dvd_iff_nat [of "s + x" "s + y" n] by simp
    then have "n dvd y - x" by simp
    moreover have "y - x < n" using that by simp
    ultimately have "y - x = 0" using nat_dvd_not_less by blast
    with that show ?thesis by simp
  qed
  show ?thesis
    using assms * [of d d'] * [of d' d] by (cases "d \<le> d'") (auto simp: probe_slot_def)
qed

lemma probe_slot_surj:
  assumes "i < n" "s < n"
  shows "\<exists>d < n. probe_slot n s d = i"
proof (cases "s \<le> i")
  case True
  then show ?thesis
    using assms by (intro exI [of _ "i - s"]) (simp add: probe_slot_def)
next
  case False
  then have "(s + (n + i - s)) mod n = i"
    using assms by simp
  with False show ?thesis
    using assms by (intro exI [of _ "n + i - s"]) (auto simp: probe_slot_def)
qed

lemma find_upt_Some_iff:
  "List.find P [0..<n] = Some p \<longleftrightarrow> p < n \<and> P p \<and> (\<forall>q < p. \<not> P q)"
  by (auto simp: find_Some_iff)

lemma probe_stop_Some_iff:
  "probe_stop n hm K k = Some p \<longleftrightarrow>
     p < n \<and> (K (probe_slot n (hm k) p) = None \<or> K (probe_slot n (hm k) p) = Some k) \<and>
     (\<forall>q < p. K (probe_slot n (hm k) q) \<noteq> None \<and> K (probe_slot n (hm k) q) \<noteq> Some k)"
  by (auto simp: probe_stop_def find_upt_Some_iff)

lemma probe_stop_present:
  assumes inv: "probe_inv n hm K" and dist: "distinct_slots n K"
    and i: "i < n" "K i = Some k"
  shows "\<exists>p. probe_stop n hm K k = Some p \<and> probe_slot n (hm k) p = i"
proof -
  from inv i obtain d where d: "d < n" "probe_slot n (hm k) d = i"
    and occ: "\<forall>d' < d. K (probe_slot n (hm k) d') \<noteq> None"
    unfolding probe_inv_def by blast
  have "K (probe_slot n (hm k) q) \<noteq> Some k" if "q < d" for q
  proof
    assume q: "K (probe_slot n (hm k) q) = Some k"
    have "probe_slot n (hm k) q < n" using i by simp
    with dist i q have "probe_slot n (hm k) q = i"
      unfolding distinct_slots_def by simp
    with d that have "q = d" by (intro probe_slot_inj [of q n d "hm k"]) auto
    with that show False by simp
  qed
  with occ d i show ?thesis by (auto simp: probe_stop_Some_iff)
qed

lemma probe_stop_absent:
  assumes "0 < n" "\<forall>i < n. K i \<noteq> Some k" "probe_stop n hm K k = Some p"
  shows "K (probe_slot n (hm k) p) = None"
  using assms by (auto simp: probe_stop_Some_iff)

lemma probe_stop_exists:
  assumes "i < n" "K i = None" "hm k < n"
  shows "\<exists>p. probe_stop n hm K k = Some p"
proof -
  obtain d where "d < n" "probe_slot n (hm k) d = i"
    using probe_slot_surj assms by blast
  with assms have "\<exists>x \<in> set [0..<n]. K (probe_slot n (hm k) x) = None \<or>
      K (probe_slot n (hm k) x) = Some k"
    by (intro bexI [of _ d]) auto
  then have "probe_stop n hm K k \<noteq> None"
    unfolding probe_stop_def find_None_iff by blast
  then show ?thesis by blast
qed

text \<open>Both invariants look at the slots of the table only.\<close>

lemma probe_inv_cong:
  assumes "0 < n" "\<And>i. i < n \<Longrightarrow> K i = K' i"
  shows "probe_inv n hm K \<longleftrightarrow> probe_inv n hm K'"
  using assms by (simp add: probe_inv_def cong: conj_cong)

lemma distinct_slots_cong:
  assumes "\<And>i. i < n \<Longrightarrow> K i = K' i"
  shows "distinct_slots n K \<longleftrightarrow> distinct_slots n K'"
  using assms by (simp add: distinct_slots_def)

text \<open>Filling the empty slot a search stopped at keeps both invariants.\<close>

lemma probe_inv_insert:
  assumes inv: "probe_inv n hm K" and n: "0 < n"
    and stop: "probe_stop n hm K k = Some p" and s: "s = probe_slot n (hm k) p"
    and empty: "K s = None"
  shows "probe_inv n hm (K(s := Some k))"
  unfolding probe_inv_def
proof (intro allI impI)
  fix i k' assume i: "i < n" and k': "(K(s := Some k)) i = Some k'"
  show "\<exists>d<n. probe_slot n (hm k') d = i \<and>
      (\<forall>d'<d. (K(s := Some k)) (probe_slot n (hm k') d') \<noteq> None)"
  proof (cases "i = s")
    case True
    with k' have "k' = k" by simp
    with True stop s show ?thesis
      by (intro exI [of _ p]) (auto simp: probe_stop_Some_iff)
  next
    case False
    with k' have "K i = Some k'" by simp
    with inv i obtain d where "d < n" "probe_slot n (hm k') d = i"
      "\<forall>d'<d. K (probe_slot n (hm k') d') \<noteq> None"
      unfolding probe_inv_def by blast
    then show ?thesis by (intro exI [of _ d]) auto
  qed
qed

lemma distinct_slots_insert:
  assumes "distinct_slots n K" "\<forall>i < n. K i \<noteq> Some k"
  shows "distinct_slots n (K(s := Some k))"
  unfolding distinct_slots_def
proof (intro allI impI)
  fix i j
  assume ij: "i < n" "j < n" "(K(s := Some k)) i = (K(s := Some k)) j" "(K(s := Some k)) i \<noteq> None"
  show "i = j"
  proof (cases "i = s \<or> j = s")
    case True
    with ij assms(2) show ?thesis by (auto split: if_splits)
  next
    case False
    with ij assms(1) show ?thesis unfolding distinct_slots_def by simp
  qed
qed

lemma occupied_insert:
  fixes n :: nat
  assumes "s < n" "K s = None"
  shows "card {i. i < n \<and> (K(s := Some k)) i \<noteq> None} = Suc (card {i. i < n \<and> K i \<noteq> None})"
proof -
  let ?S = "{i. i < n \<and> K i \<noteq> None}"
  have "finite ?S"
    by (rule finite_subset [of _ "{..<n}"]) auto
  moreover have "s \<notin> ?S" using assms by simp
  ultimately have "card (insert s ?S) = Suc (card ?S)"
    by (rule card_insert_disjoint)
  moreover have "{i. i < n \<and> (K(s := Some k)) i \<noteq> None} = insert s ?S"
    using assms by auto
  ultimately show ?thesis by (simp only:)
qed

lemma free_slot_exists:
  fixes n :: nat
  assumes "card {i. i < n \<and> K i \<noteq> None} < n"
  shows "\<exists>i < n. K i = None"
proof (rule ccontr)
  assume "\<not> (\<exists>i<n. K i = None)"
  then have "{i. i < n \<and> K i \<noteq> None} = {..<n}" by auto
  with assms show False by simp
qed

lemma card_slots_le:
  fixes n :: nat
  shows "card {i. i < n \<and> K i \<noteq> None} \<le> n"
proof -
  have "{i. i < n \<and> K i \<noteq> None} \<subseteq> {..<n}" by auto
  from card_mono [OF finite_lessThan this] show ?thesis by simp
qed

end
