(* ===== verification/Hash_Table.thy ===== *)
theory Hash_Table
  imports Index_Entry Linear_Probing
begin

text \<open>
  The open-addressed hash table file of \<^verbatim>\<open>core/index/hashtable.go\<close>.  The state is the
  file's bytes with the two header fields the struct keeps in memory; the abstraction
  is the partial map from strong hashes to entries.  Every operation is shown to
  implement the corresponding map operation.
\<close>

section \<open>Model\<close>

datatype ht_error = ErrTableFull | ErrSlotRead | ErrSlotWrite | ErrHeaderRead | ErrMagic | ErrNumSlots | PanicMakeCap

definition htabHeaderSize :: nat where
  "htabHeaderSize = 24"

definition htabMagic :: bytes where
  "htabMagic = [0x44, 0x4E, 0x48, 0x54, 0x41, 0x42, 0x01, 0x00]"

record diskHashTable =
  ht_f :: bytes
  ht_numSlots :: int
  ht_count :: int

definition createDiskHashTable :: "int \<Rightarrow> diskHashTable" where
  "createDiskHashTable n =
     \<lparr> ht_f = htabMagic @ put64 (of_int n) @ put64 0 @ replicate (nat n * EntrySize) 0,
       ht_numSlots = n, ht_count = 0 \<rparr>"

definition openDiskHashTable :: "bytes \<Rightarrow> ht_error + diskHashTable" where
  "openDiskHashTable f =
     (case fileReadAt f 0 htabHeaderSize of
        None \<Rightarrow> Inl ErrHeaderRead
      | Some hdr \<Rightarrow>
          if bslice 0 8 hdr \<noteq> htabMagic then Inl ErrMagic
          else
            let n = sint (get64 (bslice 8 16 hdr));
                c = sint (get64 (bslice 16 24 hdr))
            in if n \<le> 0 then Inl ErrNumSlots
               else Inr \<lparr> ht_f = f, ht_numSlots = n, ht_count = c \<rparr>)"

definition slotOffset :: "int \<Rightarrow> int" where
  "slotOffset slotIdx = i64 (int htabHeaderSize + slotIdx * int EntrySize)"

definition startSlot :: "diskHashTable \<Rightarrow> bytes \<Rightarrow> int" where
  "startSlot ht h = uint (hashPrefix8 h) mod ht_numSlots ht"

definition probeIdx :: "diskHashTable \<Rightarrow> int \<Rightarrow> nat \<Rightarrow> int" where
  "probeIdx ht start probe = go_rem (i64 (start + int probe)) (ht_numSlots ht)"

definition readSlot :: "diskHashTable \<Rightarrow> int \<Rightarrow> IndexEntry option" where
  "readSlot ht i = map_option decodeEntry (fileReadAt (ht_f ht) (slotOffset i) EntrySize)"

fun ht_lookup_loop :: "diskHashTable \<Rightarrow> bytes \<Rightarrow> int \<Rightarrow> nat list \<Rightarrow> ht_error + IndexEntry option" where
  "ht_lookup_loop ht h start [] = Inr None"
| "ht_lookup_loop ht h start (p # ps) =
     (case readSlot ht (probeIdx ht start p) of
        None \<Rightarrow> Inl ErrSlotRead
      | Some e \<Rightarrow>
          if StrongHash e = zeroHash then Inr None
          else if StrongHash e = h then Inr (Some e)
          else ht_lookup_loop ht h start ps)"

definition ht_Lookup :: "diskHashTable \<Rightarrow> bytes \<Rightarrow> ht_error + IndexEntry option" where
  "ht_Lookup ht h =
     (if ht_numSlots ht = 0 then Inr None
      else ht_lookup_loop ht h (startSlot ht h) [0..<nat (ht_numSlots ht)])"

definition writeSlot :: "diskHashTable \<Rightarrow> int \<Rightarrow> IndexEntry \<Rightarrow> diskHashTable option" where
  "writeSlot ht i e =
     map_option (\<lambda>f. ht\<lparr> ht_f := f \<rparr>) (fileWriteAt (ht_f ht) (slotOffset i) (encodeEntry e))"

fun ht_insert_loop :: "diskHashTable \<Rightarrow> IndexEntry \<Rightarrow> int \<Rightarrow> nat list \<Rightarrow> ht_error + diskHashTable" where
  "ht_insert_loop ht entry start [] = Inl ErrTableFull"
| "ht_insert_loop ht entry start (p # ps) =
     (let i = probeIdx ht start p in
      case readSlot ht i of
        None \<Rightarrow> Inl ErrSlotRead
      | Some e \<Rightarrow>
          if StrongHash e = zeroHash then
            (case writeSlot ht i entry of
               None \<Rightarrow> Inl ErrSlotWrite
             | Some ht' \<Rightarrow> Inr (ht'\<lparr> ht_count := ht_count ht' + 1 \<rparr>))
          else if StrongHash e = StrongHash entry then
            (if PackNumber e \<noteq> PackNumber entry \<or> StoreOffset e \<noteq> StoreOffset entry
                \<or> ChunkLength e \<noteq> ChunkLength entry
             then (case writeSlot ht i entry of None \<Rightarrow> Inl ErrSlotWrite | Some ht' \<Rightarrow> Inr ht')
             else Inr ht)
          else ht_insert_loop ht entry start ps)"

definition ht_Insert :: "diskHashTable \<Rightarrow> IndexEntry \<Rightarrow> ht_error + diskHashTable" where
  "ht_Insert ht entry =
     (if ht_numSlots ht \<le> 0 then Inl ErrNumSlots
      else if ht_count ht > go_quot (i64 (ht_numSlots ht * 85)) 100 then Inl ErrTableFull
      else ht_insert_loop ht entry (startSlot ht (StrongHash entry)) [0..<nat (ht_numSlots ht)])"

fun ht_readall_loop :: "diskHashTable \<Rightarrow> nat list \<Rightarrow> ht_error + IndexEntry list" where
  "ht_readall_loop ht [] = Inr []"
| "ht_readall_loop ht (i # is) =
     (case readSlot ht (int i) of
        None \<Rightarrow> Inl ErrSlotRead
      | Some e \<Rightarrow>
          map_sum id (\<lambda>r. if StrongHash e \<noteq> zeroHash then e # r else r) (ht_readall_loop ht is))"

text \<open>The result slice is made with capacity \<open>ht_count\<close>: a negative count panics.\<close>

definition ht_ReadAll :: "diskHashTable \<Rightarrow> ht_error + IndexEntry list" where
  "ht_ReadAll ht =
     (if ht_count ht < 0 then Inl PanicMakeCap else ht_readall_loop ht [0..<nat (ht_numSlots ht)])"

text \<open>Closing writes the count into the header; the result is the file left on disk.\<close>

definition ht_Close :: "diskHashTable \<Rightarrow> bytes" where
  "ht_Close ht = pwrite (ht_f ht) 16 (put64 (of_int (ht_count ht)))"

section \<open>Invariant and abstraction\<close>

definition ht_size :: "diskHashTable \<Rightarrow> nat" where
  "ht_size ht = nat (ht_numSlots ht)"

definition ht_slot :: "diskHashTable \<Rightarrow> nat \<Rightarrow> IndexEntry" where
  "ht_slot ht i = decodeEntry (take 48 (drop (24 + i * 48) (ht_f ht)))"

definition slot_key :: "IndexEntry \<Rightarrow> bytes option" where
  "slot_key e = (if StrongHash e = zeroHash then None else Some (StrongHash e))"

definition ht_key :: "diskHashTable \<Rightarrow> nat \<Rightarrow> bytes option" where
  "ht_key ht i = slot_key (ht_slot ht i)"

definition home_slot :: "nat \<Rightarrow> bytes \<Rightarrow> nat" where
  "home_slot n h = unat (hashPrefix8 h) mod n"

definition ht_entries :: "diskHashTable \<Rightarrow> IndexEntry list" where
  "ht_entries ht = filter (\<lambda>e. StrongHash e \<noteq> zeroHash) (map (ht_slot ht) [0..<ht_size ht])"

definition ht_abs :: "diskHashTable \<Rightarrow> bytes \<Rightarrow> IndexEntry option" where
  "ht_abs ht = entry_map (ht_entries ht)"

text \<open>The file has exactly the slots its header announces, and the sizes fit \<^verbatim>\<open>int64\<close>.\<close>

definition ht_layout :: "diskHashTable \<Rightarrow> bool" where
  "ht_layout ht \<longleftrightarrow>
     0 < ht_numSlots ht \<and> ht_numSlots ht < 100000000000000000 \<and>
     length (ht_f ht) = 24 + ht_size ht * 48 \<and>
     take 16 (ht_f ht) = htabMagic @ put64 (of_int (ht_numSlots ht)) \<and>
     0 \<le> sint (get64 (take 8 (drop 16 (ht_f ht))))"

definition ht_wf :: "diskHashTable \<Rightarrow> bool" where
  "ht_wf ht \<longleftrightarrow>
     ht_layout ht \<and>
     probe_inv (ht_size ht) (home_slot (ht_size ht)) (ht_key ht) \<and>
     distinct_slots (ht_size ht) (ht_key ht) \<and>
     ht_count ht = int (length (ht_entries ht))"

section \<open>Slot access\<close>

lemma ht_size_pos [simp]: "ht_layout ht \<Longrightarrow> 0 < ht_size ht"
  by (simp add: ht_layout_def ht_size_def)

lemma home_slot_less [simp]: "0 < n \<Longrightarrow> home_slot n h < n"
  by (simp add: home_slot_def)

lemma slotOffset_nat:
  assumes "ht_layout ht" "i < ht_size ht"
  shows "slotOffset (int i) = int (24 + i * 48)"
proof -
  have "int i < ht_numSlots ht" "ht_numSlots ht < 100000000000000000"
    using assms by (auto simp: ht_layout_def ht_size_def)
  then have "int i < 100000000000000000" by linarith
  then show ?thesis
    by (simp add: slotOffset_def htabHeaderSize_def EntrySize_def i64_id)
qed

lemma slot_in_file:
  assumes "ht_layout ht" "i < ht_size ht"
  shows "24 + i * 48 + 48 \<le> length (ht_f ht)"
  using assms by (simp add: ht_layout_def)

lemma readSlot_nat:
  assumes "ht_layout ht" "i < ht_size ht"
  shows "readSlot ht (int i) = Some (ht_slot ht i)"
  using slot_in_file [OF assms]
  by (simp add: readSlot_def slotOffset_nat [OF assms] fileReadAt_def pread_def EntrySize_def
      ht_slot_def nat_add_distrib nat_mult_distrib del: of_nat_add of_nat_mult)

lemma probeIdx_nat:
  assumes "ht_layout ht" and that: "p < ht_size ht"
  shows "probeIdx ht (startSlot ht h) p = int (probe_slot (ht_size ht) (home_slot (ht_size ht) h) p)"
proof -
  have pos: "0 < ht_numSlots ht" and lt: "ht_numSlots ht < 100000000000000000"
    using assms by (auto simp: ht_layout_def)
  have st: "startSlot ht h = int (home_slot (ht_size ht) h)"
    using pos by (simp add: startSlot_def home_slot_def ht_size_def zmod_int)
  have "startSlot ht h < ht_numSlots ht" "0 \<le> startSlot ht h"
    using pos by (simp_all add: startSlot_def)
  moreover have "int p < ht_numSlots ht" using that pos by (simp add: ht_size_def)
  ultimately have "i64 (startSlot ht h + int p) = startSlot ht h + int p"
    using lt by (intro i64_id) auto
  then show ?thesis
    using st pos by (simp add: probeIdx_def go_rem_nonneg probe_slot_def zmod_int ht_size_def)
qed

lemma writeSlot_nat:
  assumes "ht_layout ht" "i < ht_size ht"
  shows "writeSlot ht (int i) e = Some (ht\<lparr> ht_f := pwrite (ht_f ht) (24 + i * 48) (encodeEntry e) \<rparr>)"
  by (simp add: writeSlot_def slotOffset_nat [OF assms] fileWriteAt_def nat_add_distrib
      nat_mult_distrib del: of_nat_add of_nat_mult)

definition ht_set :: "diskHashTable \<Rightarrow> nat \<Rightarrow> IndexEntry \<Rightarrow> diskHashTable" where
  "ht_set ht i e = ht\<lparr> ht_f := pwrite (ht_f ht) (24 + i * 48) (encodeEntry e) \<rparr>"

lemma ht_set_fields [simp]:
  "ht_numSlots (ht_set ht i e) = ht_numSlots ht"
  "ht_count (ht_set ht i e) = ht_count ht"
  "ht_size (ht_set ht i e) = ht_size ht"
  by (simp_all add: ht_set_def ht_size_def)

lemma ht_slot_set:
  assumes lay: "ht_layout ht" and i: "i < ht_size ht" and j: "j < ht_size ht" and e: "wf_entry e"
  shows "ht_slot (ht_set ht i e) j = (if j = i then e else ht_slot ht j)"
proof -
  let ?f' = "pwrite (ht_f ht) (24 + i * 48) (encodeEntry e)"
  have len: "length (encodeEntry e) = 48" using e by (simp add: wf_entry_def)
  note room = slot_in_file [OF lay i]
  have read: "ht_slot (ht_set ht i e) j = decodeEntry (the (pread ?f' (24 + j * 48) 48))"
    using slot_in_file [OF lay j] room len
    by (simp add: ht_slot_def ht_set_def pread_def length_pwrite)
  consider "j = i" | "j < i" | "i < j" by linarith
  then show ?thesis
  proof cases
    case 1
    then show ?thesis using read len e by (simp add: pread_pwrite_same)
  next
    case 2
    then have "pread ?f' (24 + j * 48) 48 = pread (ht_f ht) (24 + j * 48) 48"
      using room len by (intro pread_pwrite_before) simp_all
    with 2 read slot_in_file [OF lay j] show ?thesis by (simp add: pread_def ht_slot_def)
  next
    case 3
    then have "pread ?f' (24 + j * 48) 48 = pread (ht_f ht) (24 + j * 48) 48"
      using room len by (intro pread_pwrite_after) simp_all
    with 3 read slot_in_file [OF lay j] show ?thesis by (simp add: pread_def ht_slot_def)
  qed
qed

lemma ht_layout_set:
  assumes "ht_layout ht" "i < ht_size ht" "wf_entry e"
  shows "ht_layout (ht_set ht i e)"
proof -
  have "length (encodeEntry e) = 48" using assms by (simp add: wf_entry_def)
  moreover have "take 16 (pwrite (ht_f ht) (24 + i * 48) (encodeEntry e)) = take 16 (ht_f ht)"
    using slot_in_file [OF assms(1,2)] by (simp add: pwrite_def)
  moreover have "take 8 (drop 16 (pwrite (ht_f ht) (24 + i * 48) (encodeEntry e))) = take 8 (drop 16 (ht_f ht))"
    using slot_in_file [OF assms(1,2)] by (simp add: pwrite_def drop_take min_absorb1)
  ultimately show ?thesis
    using assms slot_in_file [OF assms(1,2)]
    by (simp add: ht_layout_def length_pwrite) (simp add: ht_set_def length_pwrite)
qed

section \<open>The abstraction map\<close>

lemma slot_key_simps [simp]:
  "slot_key e = None \<longleftrightarrow> StrongHash e = zeroHash"
  "slot_key e = Some h \<longleftrightarrow> StrongHash e = h \<and> h \<noteq> zeroHash"
  by (auto simp: slot_key_def)

lemma ht_entries_filter:
  "ht_entries ht = map (ht_slot ht) (filter (\<lambda>i. ht_key ht i \<noteq> None) [0..<ht_size ht])"
  by (simp add: ht_entries_def filter_map o_def ht_key_def del: not_None_eq)

lemma set_ht_entries:
  "set (ht_entries ht) = {e. \<exists>i < ht_size ht. ht_key ht i \<noteq> None \<and> e = ht_slot ht i}"
  by (auto simp: ht_entries_filter)

lemma length_ht_entries:
  "length (ht_entries ht) = card {i. i < ht_size ht \<and> ht_key ht i \<noteq> None}"
proof -
  let ?xs = "filter (\<lambda>i. ht_key ht i \<noteq> None) [0..<ht_size ht]"
  have "length ?xs = card (set ?xs)" by (rule distinct_card [symmetric]) simp
  also have "set ?xs = {i. i < ht_size ht \<and> ht_key ht i \<noteq> None}" by auto
  finally show ?thesis by (simp add: ht_entries_filter)
qed

lemma distinct_ht_entries:
  assumes "distinct_slots (ht_size ht) (ht_key ht)"
  shows "distinct (map StrongHash (ht_entries ht))"
proof -
  have "inj_on (\<lambda>i. StrongHash (ht_slot ht i)) {i. i < ht_size ht \<and> ht_key ht i \<noteq> None}"
  proof (rule inj_onI)
    fix i j
    assume ij: "i \<in> {i. i < ht_size ht \<and> ht_key ht i \<noteq> None}"
      "j \<in> {i. i < ht_size ht \<and> ht_key ht i \<noteq> None}"
      and eq: "StrongHash (ht_slot ht i) = StrongHash (ht_slot ht j)"
    then have "ht_key ht i = ht_key ht j" by (simp add: ht_key_def slot_key_def)
    with ij assms show "i = j" unfolding distinct_slots_def by blast
  qed
  then show ?thesis
    by (auto simp: ht_entries_filter distinct_map o_def inj_on_def)
qed

lemma ht_abs_Some_iff:
  assumes "distinct_slots (ht_size ht) (ht_key ht)"
  shows "ht_abs ht h = Some e \<longleftrightarrow> (\<exists>i < ht_size ht. ht_key ht i = Some h \<and> e = ht_slot ht i)"
  unfolding ht_abs_def entry_map_Some_iff [OF distinct_ht_entries [OF assms]] set_ht_entries
  by (auto simp: ht_key_def)

lemma ht_abs_None_iff: "ht_abs ht h = None \<longleftrightarrow> (\<forall>i < ht_size ht. ht_key ht i \<noteq> Some h)"
  by (auto simp: ht_abs_def entry_map_None_iff set_ht_entries ht_key_def)

section \<open>Loops as the first stopping probe\<close>

abbreviation ht_stop :: "diskHashTable \<Rightarrow> bytes \<Rightarrow> nat option" where
  "ht_stop ht h \<equiv> probe_stop (ht_size ht) (home_slot (ht_size ht)) (ht_key ht) h"

abbreviation ht_at :: "diskHashTable \<Rightarrow> bytes \<Rightarrow> nat \<Rightarrow> nat" where
  "ht_at ht h p \<equiv> probe_slot (ht_size ht) (home_slot (ht_size ht) h) p"

lemma lookup_loop_find:
  assumes "ht_layout ht" "set ps \<subseteq> {..<ht_size ht}"
  shows "ht_lookup_loop ht h (startSlot ht h) ps =
    Inr (case List.find (\<lambda>p. ht_key ht (ht_at ht h p) = None \<or> ht_key ht (ht_at ht h p) = Some h) ps of
           None \<Rightarrow> None
         | Some p \<Rightarrow> if ht_key ht (ht_at ht h p) = None then None else Some (ht_slot ht (ht_at ht h p)))"
  using assms(2)
proof (induction ps)
  case (Cons p ps)
  then have "p < ht_size ht" by simp
  with assms(1) have "readSlot ht (probeIdx ht (startSlot ht h) p) = Some (ht_slot ht (ht_at ht h p))"
    by (simp add: probeIdx_nat readSlot_nat)
  with Cons show ?case by (auto simp: ht_key_def)
qed simp

lemma ht_Lookup_stop:
  assumes "ht_layout ht"
  shows "ht_Lookup ht h =
    Inr (case ht_stop ht h of
           None \<Rightarrow> None
         | Some p \<Rightarrow> if ht_key ht (ht_at ht h p) = None then None else Some (ht_slot ht (ht_at ht h p)))"
proof -
  have "ht_numSlots ht \<noteq> 0" using assms by (simp add: ht_layout_def)
  moreover have "set [0..<ht_size ht] \<subseteq> {..<ht_size ht}" by auto
  ultimately show ?thesis
    using lookup_loop_find [OF assms] by (simp add: ht_Lookup_def probe_stop_def ht_size_def)
qed

lemma insert_loop_find:
  assumes "ht_layout ht" "set ps \<subseteq> {..<ht_size ht}" and h: "h = StrongHash e"
  shows "ht_insert_loop ht e (startSlot ht h) ps =
    (case List.find (\<lambda>p. ht_key ht (ht_at ht h p) = None \<or> ht_key ht (ht_at ht h p) = Some h) ps of
       None \<Rightarrow> Inl ErrTableFull
     | Some p \<Rightarrow>
         if ht_key ht (ht_at ht h p) = None
         then Inr ((ht_set ht (ht_at ht h p) e)\<lparr> ht_count := ht_count ht + 1 \<rparr>)
         else if ht_slot ht (ht_at ht h p) = e then Inr ht
         else Inr (ht_set ht (ht_at ht h p) e))"
  using assms(2)
proof (induction ps)
  case (Cons p ps)
  let ?i = "ht_at ht h p"
  have "p < ht_size ht" using Cons by simp
  moreover have "?i < ht_size ht" using assms(1) by simp
  ultimately have "readSlot ht (probeIdx ht (startSlot ht h) p) = Some (ht_slot ht ?i)"
    and "writeSlot ht (probeIdx ht (startSlot ht h) p) e = Some (ht_set ht ?i e)"
    using assms(1) by (simp_all add: probeIdx_nat readSlot_nat writeSlot_nat ht_set_def)
  with Cons h show ?case by (auto simp: ht_key_def Let_def)
qed simp

section \<open>Operations implement map operations\<close>

lemma ht_Lookup_abs:
  assumes "ht_wf ht"
  shows "ht_Lookup ht h = Inr (ht_abs ht h)"
proof -
  have lay: "ht_layout ht" and dist: "distinct_slots (ht_size ht) (ht_key ht)"
    and inv: "probe_inv (ht_size ht) (home_slot (ht_size ht)) (ht_key ht)"
    using assms by (auto simp: ht_wf_def)
  show ?thesis
  proof (cases "ht_abs ht h")
    case None
    then have no: "\<forall>i < ht_size ht. ht_key ht i \<noteq> Some h" by (simp add: ht_abs_None_iff)
    show ?thesis
      using probe_stop_absent [OF ht_size_pos [OF lay] no] None
      by (simp add: ht_Lookup_stop [OF lay] split: option.split)
  next
    case (Some e)
    then obtain i where i: "i < ht_size ht" "ht_key ht i = Some h" "e = ht_slot ht i"
      using ht_abs_Some_iff [OF dist] by blast
    then obtain p where "ht_stop ht h = Some p" "ht_at ht h p = i"
      using probe_stop_present [OF inv dist] by blast
    with i Some show ?thesis by (simp add: ht_Lookup_stop [OF lay])
  qed
qed

lemma load_limit:
  assumes "ht_layout ht"
  shows "go_quot (i64 (ht_numSlots ht * 85)) 100 = ht_numSlots ht * 85 div 100"
  using assms by (subst i64_id) (auto simp: ht_layout_def go_quot_nonneg)

lemma ht_key_set:
  assumes "ht_layout ht" "i < ht_size ht" "j < ht_size ht" "wf_entry e"
  shows "ht_key (ht_set ht i e) j = ((ht_key ht)(i := slot_key e)) j"
  using assms by (simp add: ht_key_def ht_slot_set)

lemma ht_abs_set:
  assumes lay: "ht_layout ht" and i: "i < ht_size ht" and e: "wf_entry e" "StrongHash e = h" "h \<noteq> zeroHash"
    and old: "ht_key ht i = None \<or> ht_key ht i = Some h"
    and dist: "distinct_slots (ht_size ht) (ht_key ht)"
    and dist': "distinct_slots (ht_size ht) (ht_key (ht_set ht i e))"
  shows "ht_abs (ht_set ht i e) = (ht_abs ht)(h \<mapsto> e)"
proof (rule ext, rule option_eqI)
  fix x v
  have upd: "ht_key (ht_set ht i e) j = (if j = i then Some h else ht_key ht j)"
    "ht_slot (ht_set ht i e) j = (if j = i then e else ht_slot ht j)"
    if "j < ht_size ht" for j
    using that lay i e by (simp_all add: ht_key_set ht_slot_set slot_key_def)
  have "ht_key ht j \<noteq> Some h" if "j < ht_size ht" "j \<noteq> i" for j
  proof
    assume "ht_key ht j = Some h"
    then have "ht_key (ht_set ht i e) j = ht_key (ht_set ht i e) i"
      "ht_key (ht_set ht i e) j \<noteq> None" using upd that i by simp_all
    with dist' that i have "j = i" unfolding distinct_slots_def ht_set_fields by blast
    with that show False by simp
  qed
  then have others: "ht_key ht j = Some h \<Longrightarrow> j < ht_size ht \<Longrightarrow> j = i" for j by blast
  have "ht_abs (ht_set ht i e) x = Some v \<longleftrightarrow>
      (\<exists>j < ht_size ht. (if j = i then Some h else ht_key ht j) = Some x \<and>
        v = (if j = i then e else ht_slot ht j))"
    using upd by (simp add: ht_abs_Some_iff dist' cong: conj_cong)
  also have "\<dots> \<longleftrightarrow> (if x = h then v = e else \<exists>j < ht_size ht. ht_key ht j = Some x \<and> v = ht_slot ht j)"
  proof (cases "x = h")
    case True
    then show ?thesis using others i by (auto intro: exI [of _ i])
  next
    case False
    then have "(if j = i then Some h else ht_key ht j) = Some x \<and> v = (if j = i then e else ht_slot ht j)
        \<longleftrightarrow> ht_key ht j = Some x \<and> v = ht_slot ht j" for j
      using old by auto
    with False show ?thesis by simp
  qed
  finally show "ht_abs (ht_set ht i e) x = Some v \<longleftrightarrow> ((ht_abs ht)(h \<mapsto> e)) x = Some v"
    by (auto simp: ht_abs_Some_iff dist)
qed

lemma ht_set_present:
  assumes wf: "ht_wf ht" and i: "i < ht_size ht" and e: "wf_entry e" "StrongHash e = h"
    and key: "ht_key ht i = Some h"
  shows "ht_wf (ht_set ht i e)" "ht_abs (ht_set ht i e) = (ht_abs ht)(h \<mapsto> e)"
proof -
  note lay = wf [unfolded ht_wf_def, THEN conjunct1]
  have h: "h \<noteq> zeroHash" using key by (simp add: ht_key_def)
  have same: "ht_key (ht_set ht i e) j = ht_key ht j" if "j < ht_size ht" for j
    using that lay i e key h by (simp add: ht_key_set slot_key_def)
  have dist': "distinct_slots (ht_size ht) (ht_key (ht_set ht i e))"
    using wf distinct_slots_cong [of "ht_size ht" "ht_key (ht_set ht i e)" "ht_key ht"] same
    by (simp add: ht_wf_def)
  moreover have "probe_inv (ht_size ht) (home_slot (ht_size ht)) (ht_key (ht_set ht i e))"
    using wf probe_inv_cong [of "ht_size ht" "ht_key (ht_set ht i e)" "ht_key ht"] same lay
    by (simp add: ht_wf_def)
  moreover have "{j. j < ht_size ht \<and> ht_key (ht_set ht i e) j \<noteq> None}
      = {j. j < ht_size ht \<and> ht_key ht j \<noteq> None}"
    using same by auto
  then have "length (ht_entries (ht_set ht i e)) = length (ht_entries ht)"
    unfolding length_ht_entries ht_set_fields by (simp only:)
  ultimately show "ht_wf (ht_set ht i e)"
    using wf ht_layout_set [OF lay i e(1)] by (simp add: ht_wf_def)
  show "ht_abs (ht_set ht i e) = (ht_abs ht)(h \<mapsto> e)"
    using wf key e h lay i dist' by (intro ht_abs_set) (auto simp: ht_wf_def)
qed

lemma ht_slot_count [simp]: "ht_slot (ht\<lparr> ht_count := c \<rparr>) = ht_slot ht"
  by (simp add: ht_slot_def fun_eq_iff)

lemma ht_count_update [simp]:
  "ht_key (ht\<lparr> ht_count := c \<rparr>) = ht_key ht"
  "ht_size (ht\<lparr> ht_count := c \<rparr>) = ht_size ht" "ht_entries (ht\<lparr> ht_count := c \<rparr>) = ht_entries ht"
  "ht_abs (ht\<lparr> ht_count := c \<rparr>) = ht_abs ht" "ht_layout (ht\<lparr> ht_count := c \<rparr>) = ht_layout ht"
  by (simp_all add: ht_key_def ht_size_def ht_entries_def ht_abs_def ht_layout_def fun_eq_iff)

lemma ht_set_fresh:
  assumes wf: "ht_wf ht" and e: "wf_entry e" "StrongHash e = h" "h \<noteq> zeroHash"
    and stop: "ht_stop ht h = Some p" and i: "i = ht_at ht h p" and free: "ht_key ht i = None"
    and new: "\<forall>j < ht_size ht. ht_key ht j \<noteq> Some h"
  shows "ht_wf ((ht_set ht i e)\<lparr> ht_count := ht_count ht + 1 \<rparr>)"
    "ht_abs (ht_set ht i e) = (ht_abs ht)(h \<mapsto> e)"
proof -
  note lay = wf [unfolded ht_wf_def, THEN conjunct1]
  have il: "i < ht_size ht" using i lay by simp
  have keys: "ht_key (ht_set ht i e) j = ((ht_key ht)(i := Some h)) j" if "j < ht_size ht" for j
    using that lay il e by (simp add: ht_key_set slot_key_def)
  have dist': "distinct_slots (ht_size ht) (ht_key (ht_set ht i e))"
    using wf new
    by (intro iffD2 [OF distinct_slots_cong [OF keys]] distinct_slots_insert) (auto simp: ht_wf_def)
  moreover have "probe_inv (ht_size ht) (home_slot (ht_size ht)) (ht_key (ht_set ht i e))"
    using wf stop i free lay
    by (intro iffD2 [OF probe_inv_cong [OF ht_size_pos [OF lay] keys]] probe_inv_insert [where p = p])
      (auto simp: ht_wf_def)
  moreover have "{j. j < ht_size ht \<and> ht_key (ht_set ht i e) j \<noteq> None}
      = {j. j < ht_size ht \<and> ((ht_key ht)(i := Some h)) j \<noteq> None}"
    using keys by auto
  then have "length (ht_entries (ht_set ht i e)) = Suc (length (ht_entries ht))"
    unfolding length_ht_entries ht_set_fields using occupied_insert [where K = "ht_key ht", OF il free, of h] by (simp only:)
  ultimately show "ht_wf ((ht_set ht i e)\<lparr> ht_count := ht_count ht + 1 \<rparr>)"
    using wf ht_layout_set [OF lay il e(1)] by (simp add: ht_wf_def)
  show "ht_abs (ht_set ht i e) = (ht_abs ht)(h \<mapsto> e)"
    using wf free e lay il dist' by (intro ht_abs_set) (auto simp: ht_wf_def)
qed

lemma ht_Insert_abs:
  assumes wf: "ht_wf ht" and e: "wf_entry e" "StrongHash e \<noteq> zeroHash"
    and load: "ht_count ht \<le> ht_numSlots ht * 85 div 100"
  shows "\<exists>ht'. ht_Insert ht e = Inr ht' \<and> ht_wf ht' \<and> ht_numSlots ht' = ht_numSlots ht \<and>
    ht_abs ht' = (ht_abs ht)(StrongHash e \<mapsto> e) \<and>
    ht_count ht \<le> ht_count ht' \<and> ht_count ht' \<le> ht_count ht + 1"
proof -
  let ?h = "StrongHash e"
  note lay = wf [unfolded ht_wf_def, THEN conjunct1]
  have pos: "0 < ht_numSlots ht" using lay by (simp add: ht_layout_def)
  have "int (card {i. i < ht_size ht \<and> ht_key ht i \<noteq> None}) < int (ht_size ht)"
    using load pos wf by (simp only: ht_wf_def length_ht_entries ht_size_def)
  then obtain j where "j < ht_size ht" "ht_key ht j = None"
    using free_slot_exists [of "ht_size ht" "ht_key ht"] by (auto simp only: of_nat_less_iff)
  then obtain p where p: "ht_stop ht ?h = Some p"
    using probe_stop_exists [of j "ht_size ht" "ht_key ht" "home_slot (ht_size ht)" ?h] lay by auto
  let ?i = "ht_at ht ?h p"
  have il: "?i < ht_size ht" using lay by simp
  have ps: "set [0..<ht_size ht] \<subseteq> {..<ht_size ht}" by auto
  have run: "ht_Insert ht e =
    (if ht_key ht ?i = None then Inr ((ht_set ht ?i e)\<lparr> ht_count := ht_count ht + 1 \<rparr>)
     else if ht_slot ht ?i = e then Inr ht else Inr (ht_set ht ?i e))"
    using pos load p insert_loop_find [OF lay ps refl, of e]
    by (simp add: ht_Insert_def load_limit [OF lay] probe_stop_def ht_size_def)
  show ?thesis
  proof (cases "ht_key ht ?i")
    case None
    have "\<forall>j < ht_size ht. ht_key ht j \<noteq> Some ?h"
      using probe_stop_present [of "ht_size ht" "home_slot (ht_size ht)" "ht_key ht" _ ?h] wf p None
      by (fastforce simp: ht_wf_def)
    with None run ht_set_fresh [OF wf e(1) refl e(2) p refl] show ?thesis by simp
  next
    case (Some k)
    with p have k: "ht_key ht ?i = Some ?h" by (auto simp: probe_stop_Some_iff)
    have "ht_abs ht ?h = Some (ht_slot ht ?i)"
      using wf k il ht_abs_Some_iff [of ht ?h "ht_slot ht ?i"] unfolding ht_wf_def by blast
    with k run wf ht_set_present [OF wf il e(1) refl k] show ?thesis
      by (cases "ht_slot ht ?i = e") auto
  qed
qed

lemma ht_Insert_full:
  assumes "ht_wf ht" "ht_numSlots ht * 85 div 100 < ht_count ht"
  shows "ht_Insert ht e = Inl ErrTableFull"
  using assms by (simp add: ht_Insert_def ht_wf_def load_limit) (simp add: ht_layout_def)

section \<open>Scanning, creating, closing and reopening\<close>

lemma readall_loop_all:
  assumes "ht_layout ht" "set is \<subseteq> {..<ht_size ht}"
  shows "ht_readall_loop ht is = Inr (filter (\<lambda>e. StrongHash e \<noteq> zeroHash) (map (ht_slot ht) is))"
  using assms(2) by (induction "is") (auto simp: readSlot_nat [OF assms(1)])

lemma ht_ReadAll_entries:
  assumes "ht_layout ht" "0 \<le> ht_count ht"
  shows "ht_ReadAll ht = Inr (ht_entries ht)"
proof -
  have "set [0..<ht_size ht] \<subseteq> {..<ht_size ht}" by auto
  from readall_loop_all [OF assms(1) this] assms(2) show ?thesis
    by (simp add: ht_ReadAll_def ht_entries_def ht_size_def)
qed

lemma length_htabMagic [simp]: "length htabMagic = 8"
  by (simp add: htabMagic_def)

lemma create_slots:
  assumes "i < nat n"
  shows "StrongHash (ht_slot (createDiskHashTable n) i) = zeroHash"
proof -
  have "take 48 (drop (24 + i * 48) (ht_f (createDiskHashTable n))) = replicate 48 0"
    using assms by (simp add: createDiskHashTable_def EntrySize_def min_absorb1)
  then show ?thesis by (simp add: ht_slot_def zeroHash_def)
qed

lemma create_size [simp]: "ht_size (createDiskHashTable n) = nat n"
  by (simp add: ht_size_def createDiskHashTable_def)

lemma create_wf:
  assumes "0 < n" "n < 100000000000000000"
  shows "ht_wf (createDiskHashTable n)"
proof -
  have "ht_layout (createDiskHashTable n)"
    using assms by (simp add: ht_layout_def) (simp add: createDiskHashTable_def EntrySize_def)
  moreover have "ht_key (createDiskHashTable n) i = None" if "i < ht_size (createDiskHashTable n)" for i
    using that create_slots [of i n] by (simp add: ht_key_def)
  ultimately show ?thesis
    by (simp add: ht_wf_def probe_inv_def distinct_slots_def ht_entries_filter)
      (simp add: createDiskHashTable_def)
qed

lemma create_abs: "0 < n \<Longrightarrow> ht_abs (createDiskHashTable n) = Map.empty"
proof -
  have "\<forall>i < ht_size (createDiskHashTable n). ht_key (createDiskHashTable n) i \<noteq> Some h" for h
    using create_slots [of _ n] by (simp add: ht_key_def)
  then show ?thesis by (auto simp: fun_eq_iff ht_abs_None_iff)
qed

text \<open>
  A table that was closed and opened again is the same table: the header brings back
  both fields, and no slot changes.
\<close>

lemma take_pwrite: "n \<le> off \<Longrightarrow> off \<le> length f \<Longrightarrow> take n (pwrite f off bs) = take n f"
  by (simp add: pwrite_def)

lemma open_Close:
  assumes "ht_wf ht"
  shows "openDiskHashTable (ht_Close ht) = Inr (ht\<lparr> ht_f := ht_Close ht \<rparr>)"
    and "ht_wf (ht\<lparr> ht_f := ht_Close ht \<rparr>)"
    and "ht_abs (ht\<lparr> ht_f := ht_Close ht \<rparr>) = ht_abs ht"
proof -
  let ?f = "ht_Close ht"
  have lay: "ht_layout ht" and cnt: "ht_count ht = int (length (ht_entries ht))"
    using assms by (auto simp: ht_wf_def)
  have len: "24 \<le> length (ht_f ht)" "length ?f = length (ht_f ht)"
    using lay by (auto simp: ht_layout_def ht_Close_def length_pwrite)
  have t16: "take 16 ?f = htabMagic @ put64 (of_int (ht_numSlots ht))"
    using lay len by (simp add: ht_Close_def take_pwrite ht_layout_def)
  have c8: "take 8 (drop 16 ?f) = put64 (of_int (ht_count ht))"
    using len by (simp add: ht_Close_def pwrite_def)
  have "take 24 ?f = take 16 ?f @ take 8 (drop 16 ?f)"
    using take_add [of 16 8 ?f] by simp
  then have hdr: "take 24 ?f = htabMagic @ put64 (of_int (ht_numSlots ht)) @ put64 (of_int (ht_count ht))"
    by (simp only: t16 c8 append_assoc)
  have n: "sint (of_int (ht_numSlots ht) :: u64) = ht_numSlots ht"
    using lay by (simp add: ht_layout_def sint_of_int_u64)
  have "ht_count ht \<le> ht_numSlots ht"
    using cnt lay card_slots_le [of "ht_size ht" "ht_key ht"]
    by (simp add: length_ht_entries ht_size_def ht_layout_def le_nat_iff del: not_None_eq)
  then have c: "sint (of_int (ht_count ht) :: u64) = ht_count ht"
    using lay cnt by (intro sint_of_int_u64) (auto simp: ht_layout_def)
  show "openDiskHashTable ?f = Inr (ht\<lparr> ht_f := ?f \<rparr>)"
    using len hdr n c lay
    by (simp add: openDiskHashTable_def fileReadAt_def pread_def htabHeaderSize_def codec_simps
        ht_layout_def)
  have slots: "ht_slot (ht\<lparr> ht_f := ?f \<rparr>) = ht_slot ht"
    using len by (simp add: ht_slot_def ht_Close_def pwrite_def fun_eq_iff add.commute)
  then have keys: "ht_key (ht\<lparr> ht_f := ?f \<rparr>) = ht_key ht"
    "ht_entries (ht\<lparr> ht_f := ?f \<rparr>) = ht_entries ht"
    by (simp_all add: ht_key_def [abs_def] ht_entries_def ht_size_def)
  show "ht_wf (ht\<lparr> ht_f := ?f \<rparr>)"
    using assms keys len t16 c8 c cnt by (simp add: ht_wf_def ht_layout_def ht_size_def)
  show "ht_abs (ht\<lparr> ht_f := ?f \<rparr>) = ht_abs ht"
    using keys by (simp add: ht_abs_def)
qed

section \<open>The table as a location store\<close>

text \<open>The number of further inserts the load limit still admits.\<close>

definition ht_room :: "diskHashTable \<Rightarrow> nat \<Rightarrow> bool" where
  "ht_room ht k \<longleftrightarrow> ht_count ht + int k \<le> ht_numSlots ht * 85 div 100 + 1"

lemma ht_Insert_store:
  assumes wf: "ht_wf ht" and room: "ht_room ht (Suc k)" and e: "good_entry e"
  shows "\<exists>ht'. ht_Insert ht e = Inr ht' \<and> ht_wf ht' \<and> ht_numSlots ht' = ht_numSlots ht \<and>
    ht_room ht' k \<and> ht_abs ht' = (ht_abs ht)(StrongHash e \<mapsto> e)"
proof -
  have "ht_count ht \<le> ht_numSlots ht * 85 div 100" using room by (simp add: ht_room_def)
  then obtain ht' where h: "ht_Insert ht e = Inr ht'" "ht_wf ht'" "ht_numSlots ht' = ht_numSlots ht"
    "ht_abs ht' = (ht_abs ht)(StrongHash e \<mapsto> e)" "ht_count ht' \<le> ht_count ht + 1"
    using ht_Insert_abs [OF wf] e by (auto simp: good_entry_def)
  then show ?thesis using room by (auto simp: ht_room_def)
qed

interpretation hts: location_store "\<lambda>ht. ht_wf ht \<and> ht_numSlots ht = n" ht_abs ht_Lookup ht_Insert ht_room
  for n
proof
  fix s :: diskHashTable and h k e
  assume "ht_wf s \<and> ht_numSlots s = n"
  then show "ht_Lookup s h = Inr (ht_abs s h)" by (simp add: ht_Lookup_abs)
next
  fix s :: diskHashTable and k e
  assume "ht_wf s \<and> ht_numSlots s = n" "ht_room s (Suc k)" "good_entry e"
  then show "\<exists>s'. ht_Insert s e = Inr s' \<and> (ht_wf s' \<and> ht_numSlots s' = n) \<and> ht_room s' k \<and>
      ht_abs s' = (ht_abs s)(StrongHash e \<mapsto> e)"
    using ht_Insert_store [of s k e] by auto
qed

lemma abs_count: "ht_wf ht \<Longrightarrow> ht_count ht = int (card (dom (ht_abs ht)))"
proof -
  assume wf: "ht_wf ht"
  then have "distinct (map StrongHash (ht_entries ht))" by (simp add: ht_wf_def distinct_ht_entries)
  then have "card (StrongHash ` set (ht_entries ht)) = length (ht_entries ht)"
    using distinct_card [of "map StrongHash (ht_entries ht)"] by simp
  with wf show ?thesis by (simp add: ht_abs_def dom_entry_map ht_wf_def)
qed

section \<open>Properties\<close>

definition sample_entry :: IndexEntry where
  "sample_entry = \<lparr> StrongHash = 1 # replicate 31 0, PackNumber = 3, StoreOffset = 4096, ChunkLength = 512 \<rparr>"

lemma good_sample: "good_entry sample_entry"
  by (simp add: good_entry_def wf_entry_def sample_entry_def zeroHash_def numeral_eq_Suc)

text \<open>
  C8: A well-formed table file implements a partial map.  A lookup returns what the map
  holds at the hash.  An insert either stores the entry, which changes the map at that
  hash only and keeps the table well-formed, or reports a full table, and that only
  when more than 85% of the slots are in use; the probe loop never runs off the table
  and no slot read or write fails.
\<close>

theorem hash_table_refines_map:
  assumes "ht_wf ht" "good_entry e"
  shows "ht_Lookup ht h = Inr (ht_abs ht h) \<and>
    (case ht_Insert ht e of
       Inr ht' \<Rightarrow> ht_wf ht' \<and> ht_abs ht' = (ht_abs ht)(StrongHash e \<mapsto> e) \<and>
                  ht_count ht' = int (card (insert (StrongHash e) (dom (ht_abs ht))))
     | Inl err \<Rightarrow> err = ErrTableFull \<and> ht_numSlots ht * 85 div 100 < ht_count ht)"
proof (cases "ht_count ht \<le> ht_numSlots ht * 85 div 100")
  case True
  then obtain ht' where "ht_Insert ht e = Inr ht'" "ht_wf ht'" "ht_abs ht' = (ht_abs ht)(StrongHash e \<mapsto> e)"
    using ht_Insert_abs [OF assms(1)] assms(2) by (auto simp: good_entry_def)
  with abs_count [of ht'] ht_Lookup_abs [OF assms(1)] show ?thesis by simp
next
  case False
  with ht_Insert_full [OF assms(1)] ht_Lookup_abs [OF assms(1)] show ?thesis by simp
qed

theorem hash_table_refines_map_witness:
  "ht_wf (createDiskHashTable 8) \<and> good_entry sample_entry \<and>
   ht_Lookup (createDiskHashTable 8) zeroHash = Inr (ht_abs (createDiskHashTable 8) zeroHash) \<and>
   (case ht_Insert (createDiskHashTable 8) sample_entry of
      Inr ht' \<Rightarrow> ht_wf ht' \<and>
        ht_abs ht' = (ht_abs (createDiskHashTable 8))(StrongHash sample_entry \<mapsto> sample_entry)
    | Inl err \<Rightarrow> False)"
proof -
  have wf: "ht_wf (createDiskHashTable 8)" by (rule create_wf) simp_all
  have "\<not> ht_numSlots (createDiskHashTable 8) * 85 div 100 < ht_count (createDiskHashTable 8)"
    by (simp add: createDiskHashTable_def)
  with hash_table_refines_map [OF wf good_sample] wf good_sample show ?thesis
    by (auto split: sum.splits)
qed

end
