(* ===== verification/Hash_Build.thy ===== *)
theory Hash_Build
  imports Hash_Table
begin

text \<open>
  The K-segment construction of the hash table from the sorted index file
  (\<^verbatim>\<open>buildHashTable\<close> in \<^verbatim>\<open>core/index/hashindex.go\<close>).  Segments are lists of 48-byte slots;
  entries that run off a segment are carried into the next one and finally wrap to
  slot 0.  The streaming build is shown to produce a well-formed table with exactly
  the entries of the file.
\<close>

section \<open>Model\<close>

datatype build_error = BuildPanic | BuildFull | BuildOpen ht_error

definition htabBuildK :: nat where
  "htabBuildK = 8"

definition htabBuildSegTarget :: nat where
  "htabBuildSegTarget = 24 * 1024 * 1024"

definition buildNumSlots :: "nat \<Rightarrow> nat" where
  "buildNumSlots diskSize =
     (let n = diskSize div EntrySize * 2 in if n < 1024 then 1024 else n)"

definition buildK :: "nat \<Rightarrow> nat" where
  "buildK numSlots =
     (let maxSegSlots = htabBuildSegTarget div EntrySize in
      if numSlots > maxSegSlots * htabBuildK then (numSlots + maxSegSlots - 1) div maxSegSlots
      else htabBuildK)"

definition buildSegSize :: "nat \<Rightarrow> nat \<Rightarrow> nat" where
  "buildSegSize numSlots K = (numSlots + K - 1) div K"

definition homeSlot :: "nat \<Rightarrow> bytes \<Rightarrow> nat" where
  "homeSlot numSlots buf = unat (getBE64 (bslice 0 8 buf)) mod numSlots"

definition bucketIndex :: "nat \<Rightarrow> nat \<Rightarrow> nat \<Rightarrow> bytes \<Rightarrow> nat" where
  "bucketIndex numSlots segSize K buf =
     (let bi = homeSlot numSlots buf div segSize in if bi \<ge> K then K - 1 else bi)"

text \<open>Phase 1: bucket \<open>k\<close> receives its entries in file order.\<close>

definition bucket :: "nat \<Rightarrow> nat \<Rightarrow> nat \<Rightarrow> bytes list \<Rightarrow> nat \<Rightarrow> bytes list" where
  "bucket numSlots segSize K recs k = filter (\<lambda>b. bucketIndex numSlots segSize K b = k) recs"

definition emptySlot :: "bytes \<Rightarrow> bool" where
  "emptySlot b \<longleftrightarrow> take 32 b = zeroHash"

text \<open>The shared scan position of carry placement: past the slot just filled, or the end.\<close>

function scanFree :: "bytes list \<Rightarrow> nat \<Rightarrow> nat \<times> bool" where
  "scanFree slots nf =
     (if nf < length slots
      then if emptySlot (slots ! nf) then (Suc nf, True) else scanFree slots (Suc nf)
      else (nf, False))"
  by pat_completeness auto
termination
  by (relation "measure (\<lambda>(slots, nf). length slots - nf)") auto

fun placeCarry :: "bytes list \<Rightarrow> nat \<Rightarrow> nat \<Rightarrow> bytes list \<Rightarrow> bytes list \<times> nat \<times> bytes list" where
  "placeCarry slots nf cnt [] = (slots, cnt, [])"
| "placeCarry slots nf cnt (e # es) =
     (let (nf', placed) = scanFree slots nf in
      if placed then placeCarry (slots[nf' - 1 := e]) nf' (cnt + 1) es
      else let (slots', cnt', nextCarry) = placeCarry slots nf' cnt es
           in (slots', cnt', e # nextCarry))"

datatype placement = PlacedAt nat | Duplicate | NotPlaced

function probeSlots :: "bytes list \<Rightarrow> bytes \<Rightarrow> nat \<Rightarrow> placement" where
  "probeSlots slots e probe =
     (if probe < length slots
      then if emptySlot (slots ! probe) then PlacedAt probe
           else if take 32 (slots ! probe) = take 32 e then Duplicate
           else probeSlots slots e (Suc probe)
      else NotPlaced)"
  by pat_completeness auto
termination
  by (relation "measure (\<lambda>(slots, e, probe). length slots - probe)") auto

fun placeBucket :: "nat \<Rightarrow> nat \<Rightarrow> bytes list \<Rightarrow> nat \<Rightarrow> bytes list \<Rightarrow> bytes list
    \<Rightarrow> bytes list \<times> nat \<times> bytes list" where
  "placeBucket numSlots segStart slots cnt carry [] = (slots, cnt, carry)"
| "placeBucket numSlots segStart slots cnt carry (e # es) =
     (case probeSlots slots e (homeSlot numSlots e - segStart) of
        PlacedAt p \<Rightarrow> placeBucket numSlots segStart (slots[p := e]) (cnt + 1) carry es
      | Duplicate \<Rightarrow> placeBucket numSlots segStart slots cnt carry es
      | NotPlaced \<Rightarrow> placeBucket numSlots segStart slots cnt (carry @ [e]) es)"

text \<open>
  Phase 2 for one segment.  \<open>None\<close> is the panic of slicing the segment buffer with a
  negative length, when the segments before already cover all slots.
\<close>

definition buildSegment :: "(nat list \<Rightarrow> nat list) \<Rightarrow> nat \<Rightarrow> nat \<Rightarrow> (nat \<Rightarrow> bytes list) \<Rightarrow> nat
    \<Rightarrow> bytes list \<Rightarrow> nat \<Rightarrow> (bytes list \<times> bytes list \<times> nat) option" where
  "buildSegment sperm numSlots segSize bkts k carry cnt =
     (let segStart = k * segSize;
          segEnd = min (segStart + segSize) numSlots in
      if segEnd < segStart then None
      else
        let partSlots = replicate (segEnd - segStart) (replicate EntrySize 0);
            (slots1, cnt1, carry1) = placeCarry partSlots 0 cnt carry;
            (slots2, cnt2, carry2) =
              placeBucket numSlots segStart slots1 cnt1 carry1
                (sort_Slice sperm (homeSlot numSlots) (bkts k))
        in Some (slots2, carry2, cnt2))"

fun buildSegments :: "(nat list \<Rightarrow> nat list) \<Rightarrow> nat \<Rightarrow> nat \<Rightarrow> (nat \<Rightarrow> bytes list) \<Rightarrow> nat list
    \<Rightarrow> bytes list \<Rightarrow> bytes list \<Rightarrow> nat \<Rightarrow> (bytes list \<times> bytes list \<times> nat) option" where
  "buildSegments sperm numSlots segSize bkts [] out carry cnt = Some (out, carry, cnt)"
| "buildSegments sperm numSlots segSize bkts (k # ks) out carry cnt =
     (case buildSegment sperm numSlots segSize bkts k carry cnt of
        None \<Rightarrow> None
      | Some (slots, carry', cnt') \<Rightarrow>
          buildSegments sperm numSlots segSize bkts ks (out @ slots) carry' cnt')"

fun wrapCarry :: "bytes list \<Rightarrow> nat \<Rightarrow> bytes list \<Rightarrow> (bytes list \<times> nat) option" where
  "wrapCarry slots cnt [] = Some (slots, cnt)"
| "wrapCarry slots cnt (e # es) =
     (case probeSlots slots e 0 of
        PlacedAt p \<Rightarrow> wrapCarry (slots[p := e]) (cnt + 1) es
      | Duplicate \<Rightarrow> wrapCarry slots cnt es
      | NotPlaced \<Rightarrow> None)"

definition buildHashTable :: "(nat list \<Rightarrow> nat list) \<Rightarrow> nat \<Rightarrow> bytes \<Rightarrow> build_error + diskHashTable" where
  "buildHashTable sperm diskSize sortedFile =
     (let numSlots = buildNumSlots diskSize;
          K = buildK numSlots;
          segSize = buildSegSize numSlots K;
          recs = (if diskSize > 0 then records EntrySize sortedFile else []);
          hdr = htabMagic @ put64 (of_nat numSlots) @ put64 0
      in case buildSegments sperm numSlots segSize (bucket numSlots segSize K recs) [0..<K] [] [] 0 of
           None \<Rightarrow> Inl BuildPanic
         | Some (slots, carry, cnt) \<Rightarrow>
             (case wrapCarry slots cnt carry of
                None \<Rightarrow> Inl BuildFull
              | Some (slots', cnt') \<Rightarrow>
                  map_sum BuildOpen id
                    (openDiskHashTable (pwrite (hdr @ concat slots') 16 (put64 (of_nat cnt'))))))"

declare scanFree.simps [simp del] probeSlots.simps [simp del]

section \<open>Scans\<close>

lemma scanFree_spec:
  "case scanFree slots nf of (nf', placed) \<Rightarrow>
     if placed then (\<exists>p. nf' = Suc p \<and> nf \<le> p \<and> p < length slots \<and> emptySlot (slots ! p)
        \<and> (\<forall>j. nf \<le> j \<and> j < p \<longrightarrow> \<not> emptySlot (slots ! j)))
     else nf' = max nf (length slots) \<and> (\<forall>j. nf \<le> j \<and> j < length slots \<longrightarrow> \<not> emptySlot (slots ! j))"
proof (induction slots nf rule: scanFree.induct)
  case (1 slots nf)
  show ?case
  proof (cases "nf < length slots \<and> \<not> emptySlot (slots ! nf)")
    case True
    then have eq: "scanFree slots nf = scanFree slots (Suc nf)"
      by (simp add: scanFree.simps [of slots nf])
    have step: "nf \<le> j \<longleftrightarrow> j = nf \<or> Suc nf \<le> j" for j by auto
    from 1 True show ?thesis
      unfolding eq step by (auto split: prod.splits if_splits)
  next
    case False
    then show ?thesis by (auto simp: scanFree.simps [of slots nf])
  qed
qed

lemma probeSlots_spec:
  "case probeSlots slots e probe of
     PlacedAt p \<Rightarrow> probe \<le> p \<and> p < length slots \<and> emptySlot (slots ! p)
       \<and> (\<forall>j. probe \<le> j \<and> j < p \<longrightarrow> \<not> emptySlot (slots ! j))
   | Duplicate \<Rightarrow> \<exists>j < length slots. \<not> emptySlot (slots ! j) \<and> take 32 (slots ! j) = take 32 e
   | NotPlaced \<Rightarrow> \<forall>j. probe \<le> j \<and> j < length slots \<longrightarrow> \<not> emptySlot (slots ! j)"
proof (induction slots e probe rule: probeSlots.induct)
  case (1 slots e probe)
  show ?case
  proof (cases "probe < length slots \<and> \<not> emptySlot (slots ! probe) \<and> take 32 (slots ! probe) \<noteq> take 32 e")
    case True
    then have eq: "probeSlots slots e probe = probeSlots slots e (Suc probe)"
      by (simp add: probeSlots.simps [of slots e probe])
    have step: "probe \<le> j \<longleftrightarrow> j = probe \<or> Suc probe \<le> j" for j by auto
    from 1 True show ?thesis
      unfolding eq step by (auto split: placement.splits)
  next
    case False
    then show ?thesis by (auto simp: probeSlots.simps [of slots e probe])
  qed
qed

section \<open>The linear invariant of a partial build\<close>

definition reach :: "bytes list \<Rightarrow> nat \<Rightarrow> nat \<Rightarrow> bool" where
  "reach T s i \<longleftrightarrow> s \<le> i \<and> (\<forall>j. s \<le> j \<and> j < i \<longrightarrow> \<not> emptySlot (T ! j))"

definition lin_inv :: "nat \<Rightarrow> bytes list \<Rightarrow> bool" where
  "lin_inv n T \<longleftrightarrow> (\<forall>i < length T. \<not> emptySlot (T ! i) \<longrightarrow> reach T (homeSlot n (T ! i)) i)"

definition carried :: "nat \<Rightarrow> bytes list \<Rightarrow> nat \<Rightarrow> bytes list \<Rightarrow> bool" where
  "carried n T l C \<longleftrightarrow> (\<forall>e \<in> set C. \<not> emptySlot e \<and> reach T (homeSlot n e) l)"

definition contents :: "bytes list \<Rightarrow> bytes list" where
  "contents T = filter (\<lambda>b. \<not> emptySlot b) T"

lemma reach_update: "reach T s i \<Longrightarrow> \<not> emptySlot e \<Longrightarrow> reach (T[p := e]) s i"
  by (cases "p < length T") (auto simp: reach_def nth_list_update list_update_beyond)

lemma carried_update: "carried n T l C \<Longrightarrow> \<not> emptySlot e \<Longrightarrow> carried n (T[p := e]) l C"
  by (simp add: carried_def reach_update)

lemma lin_inv_place:
  assumes "lin_inv n T" "p < length T" "\<not> emptySlot e" "reach T (homeSlot n e) p"
  shows "lin_inv n (T[p := e])"
  using assms by (auto simp: lin_inv_def nth_list_update reach_update)

lemma mset_contents_place:
  assumes "p < length T" "emptySlot (T ! p)" "\<not> emptySlot e"
  shows "mset (contents (T[p := e])) = add_mset e (mset (contents T))"
proof -
  obtain A x B where T: "T = A @ x # B" "length A = p"
    using id_take_nth_drop [OF assms(1)] assms(1) by (metis length_take min.absorb4)
  then show ?thesis
    using assms(2,3) by (auto simp: contents_def list_update_append nth_append)
qed

lemma length_contents_place:
  "p < length T \<Longrightarrow> emptySlot (T ! p) \<Longrightarrow> \<not> emptySlot e \<Longrightarrow>
     length (contents (T[p := e])) = Suc (length (contents T))"
  by (metis mset_contents_place size_add_mset size_mset)

lemma update_append_right: "out @ slots[p := e] = (out @ slots)[length out + p := e]"
  by (simp add: list_update_append)

lemma reach_append_extend:
  assumes "reach (out @ slots) s (length out + nf)" "nf \<le> p" "p \<le> length slots"
    "\<forall>j. nf \<le> j \<and> j < p \<longrightarrow> \<not> emptySlot (slots ! j)"
  shows "reach (out @ slots) s (length out + p)"
  unfolding reach_def
proof (intro conjI allI impI)
  show "s \<le> length out + p" using assms by (simp add: reach_def)
next
  fix j assume j: "s \<le> j \<and> j < length out + p"
  show "\<not> emptySlot ((out @ slots) ! j)"
  proof (cases "j < length out + nf")
    case True
    with j assms(1) show ?thesis by (simp add: reach_def)
  next
    case False
    then have "nf \<le> j - length out" "j - length out < p" using j by auto
    with assms(4) have "\<not> emptySlot (slots ! (j - length out))" by blast
    with False show ?thesis by (simp add: nth_append)
  qed
qed

lemma placeCarry_end: "length slots \<le> nf \<Longrightarrow> placeCarry slots nf cnt C = (slots, cnt, C)"
  by (induction C) (simp_all add: scanFree.simps)

lemma placeCarry_spec:
  assumes "placeCarry slots nf cnt C = (slots', cnt', C')"
    and "lin_inv n (out @ slots)" "nf \<le> length slots"
    and "carried n (out @ slots) (length out + nf) C"
  shows "lin_inv n (out @ slots') \<and> length slots' = length slots \<and>
    carried n (out @ slots') (length out + length slots) C' \<and>
    mset (contents (out @ slots')) + mset C' = mset (contents (out @ slots)) + mset C \<and>
    cnt' + length (contents (out @ slots)) = cnt + length (contents (out @ slots'))"
  using assms
proof (induction slots nf cnt C arbitrary: slots' cnt' C' rule: placeCarry.induct)
  case (1 slots nf cnt)
  then show ?case by (simp add: carried_def)
next
  case (2 slots nf cnt e es)
  obtain nf' placed where scan: "scanFree slots nf = (nf', placed)" by fastforce
  have e: "\<not> emptySlot e" "reach (out @ slots) (homeSlot n e) (length out + nf)"
    and es: "carried n (out @ slots) (length out + nf) es"
    using "2.prems" by (auto simp: carried_def)
  show ?case
  proof (cases placed)
    case True
    then obtain p where p: "nf' = Suc p" "nf \<le> p" "p < length slots" "emptySlot (slots ! p)"
      "\<forall>j. nf \<le> j \<and> j < p \<longrightarrow> \<not> emptySlot (slots ! j)"
      using scanFree_spec [where slots = slots and nf = nf] scan by auto
    let ?T = "(out @ slots)[length out + p := e]"
    have T: "out @ slots[p := e] = ?T" by (rule update_append_right)
    have pT: "length out + p < length (out @ slots)" "emptySlot ((out @ slots) ! (length out + p))"
      using p by (simp_all add: nth_append)
    have run: "placeCarry (slots[p := e]) (Suc p) (cnt + 1) es = (slots', cnt', C')"
      using "2.prems"(1) scan True p by simp
    have lin: "lin_inv n ?T"
      using "2.prems"(2) pT(1) e(1) by (rule lin_inv_place)
        (rule reach_append_extend [OF e(2) p(2) less_imp_le [OF p(3)] p(5)])
    have car: "carried n ?T (length out + Suc p) es"
      unfolding carried_def
    proof (intro ballI conjI)
      fix x assume x: "x \<in> set es"
      then have nx: "\<not> emptySlot x" and rx: "reach (out @ slots) (homeSlot n x) (length out + nf)"
        using es by (auto simp: carried_def)
      show "\<not> emptySlot x" by (rule nx)
      have "reach (out @ slots) (homeSlot n x) (length out + p)"
        using rx p(2) less_imp_le [OF p(3)] p(5) by (rule reach_append_extend)
      then have "reach ?T (homeSlot n x) (length out + p)"
        using e(1) by (rule reach_update)
      then show "reach ?T (homeSlot n x) (length out + Suc p)"
        using pT e by (auto simp: reach_def less_Suc_eq)
    qed
    have "Suc p \<le> length (slots[p := e])" using p by simp
    from "2.IH"(1) [OF scan [symmetric] refl True, unfolded p(1) diff_Suc_1, OF run lin [folded T] this car [folded T]]
    show ?thesis
      using mset_contents_place [OF pT e(1), folded T] length_contents_place [OF pT e(1), folded T]
      by simp
  next
    case False
    then have full: "\<forall>j. nf \<le> j \<and> j < length slots \<longrightarrow> \<not> emptySlot (slots ! j)"
      and nf': "nf' = max nf (length slots)"
      using scanFree_spec [where slots = slots and nf = nf] scan by auto
    have "placeCarry slots nf' cnt es = (slots, cnt, es)"
      using nf' "2.prems"(3) by (simp add: placeCarry_end)
    then have run: "slots' = slots" "cnt' = cnt" "C' = e # es"
      using "2.prems"(1) scan False by auto
    have "reach (out @ slots) s (length out + length slots)"
      if "reach (out @ slots) s (length out + nf)" for s
      using that "2.prems"(3) order_refl full by (rule reach_append_extend)
    with run e es "2.prems" show ?thesis by (auto simp: carried_def)
  qed
qed

lemma distinct_hash_mset:
  "mset xs = mset ys \<Longrightarrow> distinct (map (take 32) xs) \<longleftrightarrow> distinct (map (take 32) (ys :: bytes list))"
  by (rule mset_eq_imp_distinct_iff) (simp add: mset_map)

lemma not_duplicate:
  assumes "distinct (map (take 32) (contents (out @ slots) @ e # es))"
  shows "\<not> (\<exists>j < length slots. \<not> emptySlot (slots ! j) \<and> take 32 (slots ! j) = take 32 e)"
proof
  assume "\<exists>j < length slots. \<not> emptySlot (slots ! j) \<and> take 32 (slots ! j) = take 32 e"
  then obtain j where "j < length slots" "\<not> emptySlot (slots ! j)" "take 32 (slots ! j) = take 32 e"
    by blast
  then have "take 32 e \<in> take 32 ` set (contents (out @ slots))"
    by (auto simp: contents_def intro!: rev_image_eqI [of "slots ! j"])
  with assms show False by auto
qed

lemma placeBucket_spec:
  assumes "placeBucket n (length out) slots cnt C es = (slots', cnt', C')"
    and "lin_inv n (out @ slots)"
    and "carried n (out @ slots) (length out + length slots) C"
    and "\<forall>e \<in> set es. \<not> emptySlot e \<and> length out \<le> homeSlot n e \<and> homeSlot n e \<le> length out + length slots"
    and "distinct (map (take 32) (contents (out @ slots) @ es))"
  shows "lin_inv n (out @ slots') \<and> length slots' = length slots \<and>
    carried n (out @ slots') (length out + length slots) C' \<and>
    mset (contents (out @ slots')) + mset C' = mset (contents (out @ slots)) + mset C + mset es \<and>
    cnt' + length (contents (out @ slots)) = cnt + length (contents (out @ slots'))"
  using assms
proof (induction es arbitrary: slots cnt C)
  case Nil
  then show ?case by simp
next
  case (Cons e es)
  let ?r = "homeSlot n e - length out"
  have e: "\<not> emptySlot e" "length out \<le> homeSlot n e" "homeSlot n e \<le> length out + length slots"
    using Cons.prems by auto
  have base: "reach (out @ slots) (homeSlot n e) (length out + ?r)"
    using e by (auto simp: reach_def)
  have rl: "?r \<le> length slots" using e by simp
  show ?case
  proof (cases "probeSlots slots e ?r")
    case (PlacedAt p)
    then have p: "?r \<le> p" "p < length slots" "emptySlot (slots ! p)"
      "\<forall>j. ?r \<le> j \<and> j < p \<longrightarrow> \<not> emptySlot (slots ! j)"
      using probeSlots_spec [where slots = slots and e = e and probe = ?r] by auto
    let ?T = "(out @ slots)[length out + p := e]"
    have T: "out @ slots[p := e] = ?T" by (rule update_append_right)
    have pT: "length out + p < length (out @ slots)" "emptySlot ((out @ slots) ! (length out + p))"
      using p by (simp_all add: nth_append)
    have lin: "lin_inv n ?T"
      using Cons.prems(2) pT(1) e(1)
      by (rule lin_inv_place) (rule reach_append_extend [OF base p(1) less_imp_le [OF p(2)] p(4)])
    have car: "carried n ?T (length out + length (slots[p := e])) C"
      using carried_update [OF Cons.prems(3) e(1)] by simp
    note mc = mset_contents_place [OF pT e(1), folded T]
    have "mset (contents (out @ slots[p := e]) @ es) = mset (contents (out @ slots) @ e # es)"
      using mc by simp
    then have dis: "distinct (map (take 32) (contents (out @ slots[p := e]) @ es))"
      using Cons.prems(5) distinct_hash_mset by blast
    have run: "placeBucket n (length out) (slots[p := e]) (cnt + 1) C es = (slots', cnt', C')"
      using Cons.prems(1) PlacedAt by simp
    have "\<forall>x \<in> set es. \<not> emptySlot x \<and> length out \<le> homeSlot n x \<and>
        homeSlot n x \<le> length out + length (slots[p := e])"
      using Cons.prems(4) by simp
    from Cons.IH [OF run lin [folded T] car [folded T] this dis]
    show ?thesis
      using mc length_contents_place [OF pT e(1), folded T] by simp
  next
    case Duplicate
    then show ?thesis
      using probeSlots_spec [where slots = slots and e = e and probe = ?r]
        not_duplicate [OF Cons.prems(5)] by simp
  next
    case NotPlaced
    then have full: "\<forall>j. ?r \<le> j \<and> j < length slots \<longrightarrow> \<not> emptySlot (slots ! j)"
      using probeSlots_spec [where slots = slots and e = e and probe = ?r] by simp
    have "reach (out @ slots) (homeSlot n e) (length out + length slots)"
      by (rule reach_append_extend [OF base rl order_refl full])
    then have car: "carried n (out @ slots) (length out + length slots) (C @ [e])"
      using Cons.prems(3) e(1) by (auto simp: carried_def)
    have run: "placeBucket n (length out) slots cnt (C @ [e]) es = (slots', cnt', C')"
      using Cons.prems(1) NotPlaced by simp
    have "\<forall>e \<in> set es. \<not> emptySlot e \<and> length out \<le> homeSlot n e \<and>
        homeSlot n e \<le> length out + length slots"
      using Cons.prems(4) by simp
    from Cons.IH [OF run Cons.prems(2) car this] Cons.prems(5) show ?thesis by simp
  qed
qed

lemma emptySlot_zero: "emptySlot (replicate EntrySize 0)"
  by (simp add: emptySlot_def EntrySize_def zeroHash_def)

lemma contents_zero [simp]: "contents (out @ replicate m (replicate EntrySize 0)) = contents out"
  by (simp add: contents_def emptySlot_zero)

lemma lin_inv_extend: "lin_inv n out \<Longrightarrow> lin_inv n (out @ replicate m (replicate EntrySize 0))"
  by (auto simp: lin_inv_def reach_def nth_append emptySlot_zero)

lemma carried_extend: "carried n out (length out) C \<Longrightarrow> carried n (out @ zs) (length out) C"
  by (auto simp: carried_def reach_def nth_append)

lemma buildSegment_spec:
  assumes run: "buildSegment sperm n seg bk k C cnt = Some (slots, C', cnt')"
    and sperm: "slice_sort sperm"
    and out: "length out = k * seg" "lin_inv n out" "carried n out (length out) C"
    and le: "k * seg \<le> n"
    and bk: "\<forall>e \<in> set (bk k). \<not> emptySlot e \<and> k * seg \<le> homeSlot n e \<and> homeSlot n e < k * seg + seg \<and> homeSlot n e < n"
    and dis: "distinct (map (take 32) (contents out @ C @ bk k))"
  shows "length (out @ slots) = min (k * seg + seg) n \<and> lin_inv n (out @ slots) \<and>
    carried n (out @ slots) (length (out @ slots)) C' \<and>
    mset (contents (out @ slots)) + mset C' = mset (contents out) + mset C + mset (bk k) \<and>
    cnt' + length (contents out) = cnt + length (contents (out @ slots))"
proof -
  define m where "m = min (k * seg + seg) n - k * seg"
  let ?z = "replicate m (replicate EntrySize (0 :: byte))"
  let ?es = "sort_Slice sperm (homeSlot n) (bk k)"
  obtain s1 c1 C1 where p1: "placeCarry ?z 0 cnt C = (s1, c1, C1)" by (cases "placeCarry ?z 0 cnt C") auto
  then have p2: "placeBucket n (length out) s1 c1 C1 ?es = (slots, cnt', C')"
    using run out(1) by (auto simp: buildSegment_def Let_def m_def split: if_splits prod.splits)
  have S1: "lin_inv n (out @ s1) \<and> length s1 = length ?z \<and>
    carried n (out @ s1) (length out + length ?z) C1 \<and>
    mset (contents (out @ s1)) + mset C1 = mset (contents (out @ ?z)) + mset C \<and>
    c1 + length (contents (out @ ?z)) = cnt + length (contents (out @ s1))"
    using carried_extend [OF out(3)] by (intro placeCarry_spec [OF p1 lin_inv_extend [OF out(2)]]) auto
  then have "mset (contents (out @ s1)) + mset C1 + mset (bk k)
      = mset (contents out) + mset C + mset (bk k)" by simp
  then have "mset (contents (out @ s1) @ C1 @ ?es) = mset (contents out @ C @ bk k)"
    using sperm by (simp add: add.assoc)
  then have "distinct (map (take 32) (contents (out @ s1) @ C1 @ ?es))"
    using dis distinct_hash_mset by blast
  then have dis1: "distinct (map (take 32) (contents (out @ s1) @ ?es))" by auto
  have len: "length out + m = min (k * seg + seg) n" using out(1) le by (simp add: m_def)
  have es: "\<forall>e \<in> set ?es. \<not> emptySlot e \<and> length out \<le> homeSlot n e \<and>
      homeSlot n e \<le> length out + length s1"
    using bk S1 len sperm out(1) by auto
  have "lin_inv n (out @ slots) \<and> length slots = length s1 \<and>
    carried n (out @ slots) (length out + length s1) C' \<and>
    mset (contents (out @ slots)) + mset C' = mset (contents (out @ s1)) + mset C1 + mset ?es \<and>
    cnt' + length (contents (out @ s1)) = c1 + length (contents (out @ slots))"
    using p2 S1 es dis1 by (intro placeBucket_spec) simp_all
  with S1 len sperm show ?thesis by simp
qed

lemma buildSegments_spec:
  assumes "buildSegments sperm n seg bk [k..<K] out C cnt = Some (T, C', cnt')"
    and "slice_sort sperm" "k \<le> K" "length out = min (k * seg) n"
    and "lin_inv n out" "carried n out (length out) C"
    and "\<forall>k < K. k * seg \<le> n"
    and "\<forall>k < K. \<forall>e \<in> set (bk k). \<not> emptySlot e \<and> k * seg \<le> homeSlot n e \<and>
           homeSlot n e < k * seg + seg \<and> homeSlot n e < n"
    and "distinct (map (take 32) (contents out @ C @ concat (map bk [k..<K])))"
  shows "length T = min (K * seg) n \<and> lin_inv n T \<and> carried n T (length T) C' \<and>
    mset (contents T) + mset C' = mset (contents out) + mset C + mset (concat (map bk [k..<K])) \<and>
    cnt' + length (contents out) = cnt + length (contents T)"
  using assms(1,3-6,9)
proof (induction "[k..<K]" arbitrary: k out C cnt)
  case Nil
  then have "k = K" by (cases "k < K") (simp_all add: upt_conv_Cons)
  with Nil show ?case by simp
next
  case (Cons j ks)
  have "k < K" using Cons.hyps(2) by (cases "k < K") simp_all
  then have "[k..<K] = k # [Suc k..<K]" by (rule upt_conv_Cons)
  with \<open>k < K\<close> Cons.hyps(2) have k: "k < K" "j = k" "ks = [Suc k..<K]" "[k..<K] = k # [Suc k..<K]"
    by simp_all
  obtain slots C1 c1 where seg: "buildSegment sperm n seg bk k C cnt = Some (slots, C1, c1)"
    and run: "buildSegments sperm n seg bk [Suc k..<K] (out @ slots) C1 c1 = Some (T, C', cnt')"
    using Cons.prems(1) by (auto simp: k split: option.splits)
  have le: "k * seg \<le> n" using assms(7) k(1) by simp
  have out: "length out = k * seg" using Cons.prems(3) le by simp
  have dis: "distinct (map (take 32) (contents out @ C @ bk k))"
    using Cons.prems(6) by (auto simp: k)
  have S: "length (out @ slots) = min (k * seg + seg) n \<and> lin_inv n (out @ slots) \<and>
    carried n (out @ slots) (length (out @ slots)) C1 \<and>
    mset (contents (out @ slots)) + mset C1 = mset (contents out) + mset C + mset (bk k) \<and>
    c1 + length (contents out) = cnt + length (contents (out @ slots))"
    using assms(8) k(1)
    by (intro buildSegment_spec [OF seg assms(2) out Cons.prems(4,5) le _ dis]) simp
  have "mset (contents (out @ slots) @ C1 @ concat (map bk [Suc k..<K]))
      = (mset (contents (out @ slots)) + mset C1) + mset (concat (map bk [Suc k..<K]))" by simp
  also have "\<dots> = mset (contents out @ C @ concat (map bk [k..<K]))"
    using S by (simp add: k)
  finally have dis1: "distinct (map (take 32) (contents (out @ slots) @ C1 @ concat (map bk [Suc k..<K])))"
    using Cons.prems(6) distinct_hash_mset by blast
  have len: "length (out @ slots) = min (Suc k * seg) n" using S by (simp add: add.commute)
  have "length T = min (K * seg) n \<and> lin_inv n T \<and> carried n T (length T) C' \<and>
    mset (contents T) + mset C' = mset (contents (out @ slots)) + mset C1 + mset (concat (map bk [Suc k..<K])) \<and>
    cnt' + length (contents (out @ slots)) = c1 + length (contents T)"
    using S k(1) by (intro Cons.hyps(1) [OF k(3) run _ len _ _ dis1]) auto
  with S show ?case unfolding k(4) by auto
qed

lemma buildSegments_total:
  assumes "\<forall>k \<in> set ks. k * seg \<le> n"
  shows "\<exists>r. buildSegments sperm n seg bk ks out C cnt = Some r"
  using assms
proof (induction ks arbitrary: out C cnt)
  case (Cons k ks)
  then have "buildSegment sperm n seg bk k C cnt \<noteq> None"
    by (auto simp: buildSegment_def Let_def split: prod.splits)
  with Cons show ?case by (auto split: option.splits)
qed simp

section \<open>Wrap-around\<close>

definition slots_key :: "bytes list \<Rightarrow> nat \<Rightarrow> bytes option" where
  "slots_key T i = slot_key (decodeEntry (T ! i))"

lemma slots_key_simps [simp]:
  "slots_key T i = None \<longleftrightarrow> emptySlot (T ! i)"
  "slots_key T i = Some h \<longleftrightarrow> take 32 (T ! i) = h \<and> h \<noteq> zeroHash"
  by (auto simp: slots_key_def emptySlot_def)

lemma homeSlot_hash: "homeSlot n b = home_slot n (take 32 b)"
  by (simp add: homeSlot_def home_slot_def hashPrefix8_def)

lemma lin_inv_probe_inv:
  assumes "lin_inv n T" "length T = n"
  shows "probe_inv n (home_slot n) (slots_key T)"
  unfolding probe_inv_def
proof (intro allI impI)
  fix i h assume i: "i < n" and h: "slots_key T i = Some h"
  then have "reach T (homeSlot n (T ! i)) i"
    using assms by (auto simp: lin_inv_def emptySlot_def)
  with h have r: "home_slot n h \<le> i" "\<forall>j. home_slot n h \<le> j \<and> j < i \<longrightarrow> \<not> emptySlot (T ! j)"
    by (auto simp: homeSlot_hash reach_def)
  with i show "\<exists>d<n. probe_slot n (home_slot n h) d = i \<and>
      (\<forall>d'<d. slots_key T (probe_slot n (home_slot n h) d') \<noteq> None)"
    by (intro exI [of _ "i - home_slot n h"]) (auto simp: probe_slot_def)
qed

text \<open>The wrapping entry found its home slot and everything up to the end occupied.\<close>

lemma wrap_stop:
  assumes n: "length T = n" "0 < n" and e: "\<not> emptySlot e" "reach T (homeSlot n e) n"
    and p: "p < n" "emptySlot (T ! p)" "\<forall>j < p. \<not> emptySlot (T ! j)"
    and new: "take 32 e \<notin> take 32 ` set (contents T)"
  shows "\<exists>d. probe_stop n (home_slot n) (slots_key T) (take 32 e) = Some d \<and>
    probe_slot n (home_slot n (take 32 e)) d = p"
proof -
  let ?h = "home_slot n (take 32 e)"
  have h: "?h < n" using n by simp
  have ph: "p < ?h"
    using e(2) p by (auto simp: reach_def homeSlot_hash not_less [symmetric])
  let ?d = "n - ?h + p"
  have "?h + ?d = n + p" using h by simp
  then have pd: "probe_slot n ?h ?d = p" using p(1) by (simp add: probe_slot_def)
  have "\<not> emptySlot (T ! probe_slot n ?h q)" if "q < ?d" for q
  proof (cases "?h + q < n")
    case True
    then show ?thesis using e(2) by (auto simp: probe_slot_def reach_def homeSlot_hash)
  next
    case False
    then have "probe_slot n ?h q = ?h + q - n"
      using that h p by (simp add: probe_slot_def mod_if)
    then show ?thesis using p(3) that False h by auto
  qed
  moreover have "slots_key T (probe_slot n ?h q) \<noteq> Some (take 32 e)" for q
  proof
    assume k: "slots_key T (probe_slot n ?h q) = Some (take 32 e)"
    have "T ! probe_slot n ?h q \<in> set T" using n by simp
    with k have "T ! probe_slot n ?h q \<in> set (contents T)" by (simp add: contents_def emptySlot_def)
    with k new show False by (simp add: image_iff) metis
  qed
  ultimately show ?thesis
    using pd p h ph by (intro exI [of _ ?d]) (auto simp: probe_stop_Some_iff)
qed

lemma slots_key_update:
  assumes "p < length T" "\<not> emptySlot e" "i < length T"
  shows "slots_key (T[p := e]) i = ((slots_key T)(p := Some (take 32 e))) i"
  using assms by (auto simp: slots_key_def nth_list_update slot_key_def emptySlot_def)

lemma wrapCarry_spec:
  assumes "length T = n" "0 < n" "probe_inv n (home_slot n) (slots_key T)" "carried n T n C"
    and "distinct (map (take 32) (contents T @ C))" "length (contents T) + length C < n"
  shows "\<exists>T' cnt'. wrapCarry T cnt C = Some (T', cnt') \<and> length T' = n \<and>
    probe_inv n (home_slot n) (slots_key T') \<and> mset (contents T') = mset (contents T) + mset C \<and>
    cnt' + length (contents T) = cnt + length (contents T') \<and> set T' \<subseteq> set T \<union> set C"
  using assms
proof (induction C arbitrary: T cnt)
  case Nil
  then show ?case by auto
next
  case (Cons e C)
  have e: "\<not> emptySlot e" "reach T (homeSlot n e) n" using Cons.prems by (auto simp: carried_def)
  have new: "take 32 e \<notin> take 32 ` set (contents T)" using Cons.prems(5) by auto
  note ps = probeSlots_spec [where slots = T and e = e and probe = 0]
  show ?case
  proof (cases "probeSlots T e 0")
    case (PlacedAt p)
    with ps have p: "p < length T" "emptySlot (T ! p)" "\<forall>j < p. \<not> emptySlot (T ! j)" by auto
    obtain d where d: "probe_stop n (home_slot n) (slots_key T) (take 32 e) = Some d"
      "probe_slot n (home_slot n (take 32 e)) d = p"
      using wrap_stop [OF Cons.prems(1,2) e _ p(2,3) new] p(1) Cons.prems(1) by auto
    have "probe_inv n (home_slot n) ((slots_key T)(p := Some (take 32 e)))"
      using probe_inv_insert [OF Cons.prems(3,2) d(1) d(2) [symmetric]] p(2) by simp
    then have pinv: "probe_inv n (home_slot n) (slots_key (T[p := e]))"
      using probe_inv_cong [of n "slots_key (T[p := e])" "(slots_key T)(p := Some (take 32 e))"]
        slots_key_update [OF p(1) e(1)] Cons.prems(1,2) by blast
    have car: "carried n (T[p := e]) n C"
      using carried_update [OF _ e(1)] Cons.prems(4) by (auto simp: carried_def)
    note mc = mset_contents_place [OF p(1,2) e(1)] and lc = length_contents_place [OF p(1,2) e(1)]
    have "mset (contents (T[p := e]) @ C) = mset (contents T @ e # C)" using mc by simp
    then have dis: "distinct (map (take 32) (contents (T[p := e]) @ C))"
      using Cons.prems(5) distinct_hash_mset by blast
    obtain T' cnt' where R: "wrapCarry (T[p := e]) (cnt + 1) C = Some (T', cnt')" "length T' = n"
      "probe_inv n (home_slot n) (slots_key T')"
      "mset (contents T') = mset (contents (T[p := e])) + mset C"
      "cnt' + length (contents (T[p := e])) = cnt + 1 + length (contents T')"
      "set T' \<subseteq> set (T[p := e]) \<union> set C"
      using Cons.IH [OF _ Cons.prems(2) pinv car dis, of "cnt + 1"] Cons.prems(1,6) lc by auto
    then show ?thesis
      using PlacedAt mc lc set_update_subset_insert [of T p e] by auto
  next
    case Duplicate
    with ps not_duplicate [of "[]" T e C] Cons.prems(5) show ?thesis by simp
  next
    case NotPlaced
    with ps have "contents T = T" by (auto simp: contents_def filter_id_conv in_set_conv_nth)
    with Cons.prems show ?thesis by simp
  qed
qed

section \<open>Sizes and buckets\<close>

lemma filter_mset_less_Suc:
  "filter_mset (\<lambda>x. f x < Suc K) M = filter_mset (\<lambda>x. f x < K) M + filter_mset (\<lambda>x. f x = K) M"
  by (induction M) (auto simp: less_Suc_eq)

lemma mset_buckets:
  "mset (concat (map (\<lambda>k. filter (\<lambda>x. f x = k) xs) [0..<K])) = filter_mset (\<lambda>x. f x < (K :: nat)) (mset xs)"
  by (induction K) (simp_all add: filter_mset_less_Suc)

lemma buildNumSlots_bounds: "1024 \<le> buildNumSlots d" "2 * (d div 48) \<le> buildNumSlots d"
  by (auto simp: buildNumSlots_def EntrySize_def Let_def)

lemma buildK_pos: "0 < buildK n"
  by (auto simp: buildK_def htabBuildK_def htabBuildSegTarget_def EntrySize_def Let_def)

lemma buildSegSize_cover:
  assumes "0 < K" "0 < n"
  shows "n \<le> K * buildSegSize n K" "0 < buildSegSize n K" "K * buildSegSize n K \<le> n + K - 1"
proof -
  let ?q = "(n + K - 1) div K"
  have "(n + K - 1) mod K < K" using assms by simp
  then have "n + K - 1 < K * ?q + K"
    using mult_div_mod_eq [of K "n + K - 1"] by linarith
  then show "n \<le> K * buildSegSize n K" using assms by (simp add: buildSegSize_def)
  then show "0 < buildSegSize n K" using assms by (cases "buildSegSize n K") auto
  show "K * buildSegSize n K \<le> n + K - 1" by (simp add: buildSegSize_def)
qed

lemma segments_start_inside:
  assumes n: "1024 \<le> n" "n \<le> 2 ^ 37" and k: "k < buildK n"
  shows "k * buildSegSize n (buildK n) \<le> n"
proof -
  let ?K = "buildK n" and ?s = "buildSegSize n (buildK n)"
  note c = buildSegSize_cover [OF buildK_pos [of n], of n]
  have "?K - 1 \<le> ?s"
  proof (cases "n > 4194304")
    case True
    then have K: "?K = (n + 524287) div 524288"
      by (simp add: buildK_def htabBuildK_def htabBuildSegTarget_def EntrySize_def)
    then have "524288 * ?K \<le> n + 524287" "n \<le> 524288 * ?K" by linarith+
    then have K1: "?K \<le> 262144" "524288 * (?K - 1) \<le> n" using n by auto
    show ?thesis
    proof (rule ccontr)
      assume "\<not> ?K - 1 \<le> ?s"
      then have "?K * ?s \<le> ?K * (?K - 2)" by (intro mult_le_mono2) simp
      moreover have "?K * (?K - 2) \<le> 262144 * (?K - 2)" using K1 by (intro mult_le_mono1)
      ultimately have "n \<le> 262144 * (?K - 2)" using c(1) n by linarith
      with K1 True show False by linarith
    qed
  next
    case False
    then have K: "?K = 8" by (simp add: buildK_def htabBuildK_def htabBuildSegTarget_def EntrySize_def)
    then show ?thesis using c(1) n by simp
  qed
  moreover have "k * ?s \<le> (?K - 1) * ?s" using k by (intro mult_le_mono1) simp
  moreover have "(?K - 1) * ?s = ?K * ?s - ?s" by (simp add: diff_mult_distrib)
  ultimately show ?thesis using c(3) n by linarith
qed

lemma bucket_bounds:
  assumes "1024 \<le> n" "K = buildK n" "seg = buildSegSize n K" "e \<in> set (bucket n seg K recs k)" "k < K"
  shows "k * seg \<le> homeSlot n e \<and> homeSlot n e < k * seg + seg \<and> homeSlot n e < n"
proof -
  have n0: "0 < n" using assms by simp
  note c = buildSegSize_cover [OF buildK_pos [of n] n0, folded assms(2), folded assms(3)]
  have h: "homeSlot n e < n" using n0 by (simp add: homeSlot_def)
  then have "homeSlot n e < seg * K" using c(1) by (simp add: mult.commute)
  then have "homeSlot n e div seg < K" using c(2) by (simp add: less_mult_imp_div_less mult.commute)
  then have "homeSlot n e div seg = k" using assms(4) by (simp add: bucket_def bucketIndex_def Let_def)
  then have "k * seg \<le> homeSlot n e" "homeSlot n e < Suc k * seg"
    using c(2) by (auto simp: div_nat_eqI dividend_less_div_times split: if_splits)
  with h show ?thesis by simp
qed

lemma mset_all_buckets:
  assumes "K = buildK n"
  shows "mset (concat (map (bucket n seg K recs) [0..<K])) = mset recs"
proof -
  have "bucketIndex n seg K b < K" for b
    using buildK_pos [of n] assms by (simp add: bucketIndex_def Let_def)
  then show ?thesis
    using mset_buckets [of "bucketIndex n seg K" recs K] by (simp add: bucket_def [abs_def])
qed

lemma buildSegments_set:
  assumes "buildSegments sperm n seg bk ks out C cnt = Some (T, C', cnt')" "slice_sort sperm"
  shows "set T \<union> set C' \<subseteq> set out \<union> set C \<union> (\<Union>k \<in> set ks. set (bk k)) \<union> {replicate EntrySize 0}"
proof -
  have carry: "placeCarry slots nf c es = (slots', c', es') \<Longrightarrow> set slots' \<union> set es' \<subseteq> set slots \<union> set es"
    for slots nf c es slots' c' es'
  proof (induction slots nf c es arbitrary: slots' c' es' rule: placeCarry.induct)
    case (2 slots nf c e es)
    show ?case
    proof (cases "scanFree slots nf")
      case (Pair nf' placed)
      then show ?thesis
        using "2.prems" "2.IH"(1) [OF Pair [symmetric] refl] "2.IH"(2) [OF Pair [symmetric] refl]
          set_update_subset_insert [of slots "nf' - 1" e]
        by (cases placed) (fastforce split: prod.splits)+
    qed
  qed simp
  have buck: "placeBucket n s slots c ca es = (slots', c', ca') \<Longrightarrow>
      set slots' \<union> set ca' \<subseteq> set slots \<union> set ca \<union> set es" for s slots c ca es slots' c' ca'
  proof (induction es arbitrary: slots c ca)
    case (Cons e es)
    show ?case
    proof (cases "probeSlots slots e (homeSlot n e - s)")
      case (PlacedAt p)
      with Cons.prems Cons.IH [of "slots[p := e]"] set_update_subset_insert [of slots p e]
      show ?thesis by fastforce
    qed (use Cons in fastforce)+
  qed simp
  have seg: "buildSegment sperm n seg bk k ca c = Some (s, ca', c') \<Longrightarrow>
      set s \<union> set ca' \<subseteq> set ca \<union> set (bk k) \<union> {replicate EntrySize 0}" for k ca c s ca' c'
    using assms(2) by (fastforce simp: buildSegment_def Let_def dest!: carry buck split: if_splits prod.splits)
  from assms(1) show ?thesis
  proof (induction ks arbitrary: out C cnt)
    case (Cons k ks)
    then obtain s ca c where s: "buildSegment sperm n seg bk k C cnt = Some (s, ca, c)"
      and "buildSegments sperm n seg bk ks (out @ s) ca c = Some (T, C', cnt')"
      by (auto split: option.splits)
    from Cons.IH [OF this(2)] seg [OF s] show ?case by auto
  qed auto
qed

section \<open>The build is correct\<close>

definition sorted_entries :: "bytes \<Rightarrow> IndexEntry list" where
  "sorted_entries f = map decodeEntry (records EntrySize f)"

lemma built_slots:
  assumes sperm: "slice_sort sperm" and n: "1024 \<le> n" "n \<le> 2 ^ 37" "length recs < n"
    and K: "K = buildK n" and seg: "seg = buildSegSize n K"
    and recs: "\<forall>b \<in> set recs. \<not> emptySlot b" "distinct (map (take 32) recs)"
  obtains T C c T' c' where
    "buildSegments sperm n seg (bucket n seg K recs) [0..<K] [] [] 0 = Some (T, C, c)"
    "wrapCarry T c C = Some (T', c')" "length T' = n" "probe_inv n (home_slot n) (slots_key T')"
    "mset (contents T') = mset recs" "c' = length recs"
    "set T' \<subseteq> set recs \<union> {replicate EntrySize 0}"
proof -
  let ?bk = "bucket n seg K recs"
  have start: "\<forall>k < K. k * seg \<le> n"
    using segments_start_inside [OF n(1,2)] by (simp add: K seg)
  obtain T C c where run: "buildSegments sperm n seg ?bk [0..<K] [] [] 0 = Some (T, C, c)"
    using buildSegments_total [of "[0..<K]" seg n sperm ?bk "[]" "[]" 0] start by auto
  have bk: "\<forall>k < K. \<forall>e \<in> set (?bk k). \<not> emptySlot e \<and> k * seg \<le> homeSlot n e \<and>
      homeSlot n e < k * seg + seg \<and> homeSlot n e < n"
    using bucket_bounds [OF n(1) K seg] recs(1) by (auto simp: bucket_def)
  have "distinct (map (take 32) (concat (map ?bk [0..<K])))"
    using distinct_hash_mset [OF mset_all_buckets [OF K]] recs(2) by blast
  then have dis: "distinct (map (take 32) (contents [] @ [] @ concat (map ?bk [0..<K])))"
    by (simp add: contents_def)
  have S: "length T = min (K * seg) n \<and> lin_inv n T \<and> carried n T (length T) C \<and>
    mset (contents T) + mset C = mset (contents []) + mset [] + mset (concat (map ?bk [0..<K])) \<and>
    c + length (contents []) = 0 + length (contents T)"
    by (rule buildSegments_spec [OF run sperm _ _ _ _ start bk dis]) (simp_all add: lin_inv_def carried_def)
  have len: "length T = n"
    using S buildSegSize_cover(1) [OF buildK_pos [of n], of n] n(1) by (simp add: K seg)
  have all: "mset (contents T) + mset C = mset recs" and c: "c = length (contents T)"
    using S mset_all_buckets [OF K] by (auto simp: contents_def)
  have "size (mset (contents T) + mset C) = length recs" by (simp only: all size_mset)
  then have sz: "length (contents T) + length C = length recs" by simp
  have "mset (contents T @ C) = mset recs" using all by simp
  then have dis': "distinct (map (take 32) (contents T @ C))"
    using distinct_hash_mset recs(2) by blast
  have n0: "0 < n" using n by simp
  obtain T' c' where W: "wrapCarry T c C = Some (T', c')" "length T' = n"
    "probe_inv n (home_slot n) (slots_key T')" "mset (contents T') = mset (contents T) + mset C"
    "c' + length (contents T) = c + length (contents T')" "set T' \<subseteq> set T \<union> set C"
    using wrapCarry_spec [OF len n0 lin_inv_probe_inv [OF _ len] _ dis', of c] S sz n(3) len by auto
  have "set T \<union> set C \<subseteq> set recs \<union> {replicate EntrySize 0}"
    using buildSegments_set [OF run sperm] by (auto simp: bucket_def)
  moreover have "length (contents T') = length recs" using W(4) all by (metis size_mset)
  ultimately show ?thesis
    using W all c by (intro that [OF run W(1-3)]) auto
qed

lemma contents_nth: "contents T = map ((!) T) (filter (\<lambda>i. \<not> emptySlot (T ! i)) [0..<length T])"
  unfolding contents_def using filter_map [of "\<lambda>b. \<not> emptySlot b" "(!) T" "[0..<length T]"]
  by (simp add: map_nth o_def)

lemma distinct_slots_contents:
  assumes "distinct (map (take 32) (contents T))"
  shows "distinct_slots (length T) (slots_key T)"
proof -
  have "inj_on (\<lambda>i. take 32 (T ! i)) {i. i < length T \<and> \<not> emptySlot (T ! i)}"
    using assms by (auto simp: contents_nth distinct_map o_def inj_on_def)
  then show ?thesis
    unfolding distinct_slots_def inj_on_def
    by (auto simp: slots_key_def slot_key_def emptySlot_def split: if_splits)
qed

lemma table_of_slots:
  assumes n: "0 < n" "n < 100000000000000000" "length T = n" and len: "\<forall>b \<in> set T. length b = 48"
    and inv: "probe_inv n (home_slot n) (slots_key T)" and dis: "distinct (map (take 32) (contents T))"
    and f: "f = pwrite (htabMagic @ put64 (of_nat n) @ put64 0 @ concat T) 16 (put64 (of_nat c))"
    and c: "c = length (contents T)"
    and ht: "ht = \<lparr> ht_f = f, ht_numSlots = int n, ht_count = int c \<rparr>"
  shows "openDiskHashTable f = Inr ht" "ht_wf ht" "ht_entries ht = map decodeEntry (contents T)"
proof -
  have f': "f = htabMagic @ put64 (of_nat n) @ put64 (of_nat c) @ concat T"
    by (simp add: f pwrite_def)
  have size: "ht_size ht = n" by (simp add: ht ht_size_def)
  have cn: "c \<le> n" using c n(3) length_filter_le [of "\<lambda>b. \<not> emptySlot b" T] by (simp add: contents_def)
  have sn: "sint (of_nat n :: u64) = int n" "sint (of_nat c :: u64) = int c"
    using sint_of_int_u64 [of "int n"] sint_of_int_u64 [of "int c"] n cn by simp_all
  have lenf: "length f = 24 + n * 48"
    using length_concat_const [OF len] n(3) by (simp add: f')
  show "openDiskHashTable f = Inr ht"
    using sn n(1) by (simp add: openDiskHashTable_def fileReadAt_def pread_def htabHeaderSize_def lenf)
      (simp add: f' codec_simps ht)
  have slot: "ht_slot ht i = decodeEntry (T ! i)" if "i < n" for i
    using take_concat_nth [OF len, of i] that n(3) by (simp add: ht_slot_def ht f')
  then have key: "ht_key ht i = slots_key T i" if "i < n" for i
    using that by (simp add: ht_key_def slots_key_def)
  have "ht_entries ht = filter (\<lambda>e. StrongHash e \<noteq> zeroHash) (map (\<lambda>i. decodeEntry (T ! i)) [0..<n])"
    unfolding ht_entries_def size using slot by (intro arg_cong [of _ _ "filter _"] map_cong) auto
  also have "map (\<lambda>i. decodeEntry (T ! i)) [0..<n] = map decodeEntry T"
    using n(3) by (auto intro: nth_equalityI)
  finally show ent: "ht_entries ht = map decodeEntry (contents T)"
    by (simp add: contents_def emptySlot_def filter_map o_def)
  have "ht_layout ht"
    using n lenf size sn by (simp add: ht_layout_def) (simp add: ht f')
  moreover have "probe_inv n (home_slot n) (ht_key ht)"
    using probe_inv_cong [of n "ht_key ht" "slots_key T"] n(1) key inv by blast
  moreover have "distinct_slots n (ht_key ht)"
    using distinct_slots_cong [of n "ht_key ht" "slots_key T"] key distinct_slots_contents [OF dis] n(3) by blast
  ultimately show "ht_wf ht" using size ent c by (simp add: ht_wf_def) (simp add: ht)
qed

lemma sorted_entries_hashes: "map StrongHash (sorted_entries f) = map (take 32) (records EntrySize f)"
  by (simp add: sorted_entries_def)

lemma buildHashTable_correct:
  assumes sperm: "slice_sort sperm" and small: "length f \<le> 48 * 2 ^ 36"
    and dis: "distinct (map StrongHash (sorted_entries f))"
    and nz: "zeroHash \<notin> StrongHash ` set (sorted_entries f)"
  shows "\<exists>ht. buildHashTable sperm (length f) f = Inr ht \<and> ht_wf ht \<and>
    ht_abs ht = entry_map (sorted_entries f) \<and> ht_count ht = int (length (sorted_entries f)) \<and>
    ht_numSlots ht = int (buildNumSlots (length f)) \<and> mset (ht_entries ht) = mset (sorted_entries f)"
proof -
  let ?recs = "records EntrySize f" and ?n = "buildNumSlots (length f)"
  have d: "length f div 48 \<le> 2 ^ 36" using small by simp
  then have n: "1024 \<le> ?n" "?n \<le> 2 ^ 37"
    using buildNumSlots_bounds(1) [of "length f"]
    by (auto simp: buildNumSlots_def EntrySize_def Let_def)
  have "length ?recs = length f div 48" by (simp add: length_records EntrySize_def)
  then have lr: "length ?recs < ?n"
    using buildNumSlots_bounds [of "length f"] by linarith
  have ne: "\<forall>b \<in> set ?recs. \<not> emptySlot b"
    using nz by (force simp: sorted_entries_def emptySlot_def)
  have dr: "distinct (map (take 32) ?recs)" using dis by (simp only: sorted_entries_hashes)
  have recs: "(if length f > 0 then ?recs else []) = ?recs" by (simp add: EntrySize_def)
  obtain T C c T' c' where B:
    "buildSegments sperm ?n (buildSegSize ?n (buildK ?n))
       (bucket ?n (buildSegSize ?n (buildK ?n)) (buildK ?n) ?recs) [0..<buildK ?n] [] [] 0 = Some (T, C, c)"
    "wrapCarry T c C = Some (T', c')" "length T' = ?n" "probe_inv ?n (home_slot ?n) (slots_key T')"
    "mset (contents T') = mset ?recs" "c' = length ?recs" "set T' \<subseteq> set ?recs \<union> {replicate EntrySize 0}"
    using built_slots [OF sperm n lr refl refl ne dr] by blast
  have len48: "\<forall>b \<in> set T'. length b = 48"
    using B(7) by (auto simp: EntrySize_def dest: records_lengths)
  have dT: "distinct (map (take 32) (contents T'))" using distinct_hash_mset [OF B(5)] dr by simp
  have c': "c' = length (contents T')" using B(5,6) by (metis size_mset)
  let ?f = "pwrite (htabMagic @ put64 (of_nat ?n) @ put64 0 @ concat T') 16 (put64 (of_nat c'))"
  let ?ht = "\<lparr> ht_f = ?f, ht_numSlots = int ?n, ht_count = int c' \<rparr>"
  have n': "0 < ?n" "?n < 100000000000000000" using n by simp_all
  note tab = table_of_slots [OF n' B(3) len48 B(4) dT refl c' refl]
  have run: "buildHashTable sperm (length f) f = Inr ?ht"
    using B(1,2) tab(1) by (simp add: buildHashTable_def Let_def recs del: length_greater_0_conv)
  have ms: "mset (ht_entries ?ht) = mset (sorted_entries f)"
    using tab(3) B(5) by (simp add: sorted_entries_def)
  have "distinct (map StrongHash (ht_entries ?ht))"
    using tab(2) by (intro distinct_ht_entries) (simp add: ht_wf_def)
  then have "ht_abs ?ht = entry_map (sorted_entries f)"
    unfolding ht_abs_def using ms by (rule entry_map_mset)
  with run tab(2) ms B(6) show ?thesis by (intro exI [of _ ?ht]) (simp add: sorted_entries_def)
qed

section \<open>Properties\<close>

text \<open>
  C9: The segmented build of the hash table is correct for every choice of the unstable
  sort: on an index file whose hashes are distinct and non-zero (up to 2^36 entries) it
  neither panics nor fails, the table is well-formed, its map is exactly the map of the
  file, and its header count is the number of entries.
\<close>

theorem build_matches_sorted_file:
  assumes "slice_sort sperm" "length f \<le> 48 * 2 ^ 36"
    and "distinct (map StrongHash (sorted_entries f))"
    and "zeroHash \<notin> StrongHash ` set (sorted_entries f)"
  shows "\<exists>ht. buildHashTable sperm (length f) f = Inr ht \<and> ht_wf ht \<and>
    ht_abs ht = entry_map (sorted_entries f) \<and> ht_count ht = int (length (sorted_entries f))"
  using buildHashTable_correct [OF assms] by blast

lemma sorted_entries_sample: "sorted_entries (encodeEntry sample_entry) = [sample_entry]"
  using ie.array_decode [of "[sample_entry]"] good_sample
  by (simp add: sorted_entries_def good_entry_def)

lemma length_sample [simp]: "length (StrongHash sample_entry) = 32"
  using good_sample by (simp add: good_entry_def wf_entry_def)

theorem build_matches_sorted_file_witness:
  "slice_sort stable_perm \<and>
   (\<exists>ht. buildHashTable stable_perm 48 (encodeEntry sample_entry) = Inr ht \<and>
      ht_abs ht (StrongHash sample_entry) = Some sample_entry \<and> ht_count ht = 1)"
  using build_matches_sorted_file [OF slice_sort_stable, of "encodeEntry sample_entry"] good_sample
  by (auto simp: sorted_entries_sample entry_map_single good_entry_def slice_sort_stable)

end
