(* ===== verification/Hash_Index.thy ===== *)
theory Hash_Index
  imports Hash_Build "HOL-Library.AList"
begin

text \<open>
  The session index of \<^verbatim>\<open>core/index/hashindex.go\<close>: an in-memory write buffer over the
  hash table, or over the sorted file when the table is switched off.  The Go map of
  the buffer is an association list with distinct keys; its order is the iteration
  order of \<^verbatim>\<open>range\<close>, on which no result may depend.
\<close>

section \<open>Model\<close>

datatype hi_error =
    HiTable ht_error
  | HiBuild build_error
  | HiDiskRead
  | HiNeedsTable

record HashIndex =
  hi_disk :: bytes
  hi_open :: bool
  hi_diskSize :: nat
  hi_entries :: "(bytes \<times> IndexEntry) list"
  hi_dirty :: bool
  hi_noHtab :: bool
  hi_htab :: "diskHashTable option"

definition hi_rebuild :: "(nat list \<Rightarrow> nat list) \<Rightarrow> HashIndex \<Rightarrow> hi_error + HashIndex" where
  "hi_rebuild sperm idx =
     (case buildHashTable sperm (hi_diskSize idx) (hi_disk idx) of
        Inl err \<Rightarrow> Inl (HiBuild err)
      | Inr ht \<Rightarrow> Inr (idx\<lparr> hi_htab := Some ht \<rparr>))"

text \<open>Opening creates the file when it is missing: then its contents are empty.\<close>

definition NewHashIndex :: "(nat list \<Rightarrow> nat list) \<Rightarrow> bytes \<Rightarrow> bool \<Rightarrow> hi_error + HashIndex" where
  "NewHashIndex sperm disk skipHtab =
     (let idx = \<lparr> hi_disk = disk, hi_open = True, hi_diskSize = length disk, hi_entries = [],
                  hi_dirty = False, hi_noHtab = skipHtab, hi_htab = None \<rparr>
      in if skipHtab then Inr idx else hi_rebuild sperm idx)"

definition hi_readAt :: "HashIndex \<Rightarrow> nat \<Rightarrow> IndexEntry option" where
  "hi_readAt idx i = map_option decodeEntry (pread (hi_disk idx) (i * EntrySize) EntrySize)"

function diskSearch :: "HashIndex \<Rightarrow> u64 \<Rightarrow> nat \<Rightarrow> nat \<Rightarrow> nat option" where
  "diskSearch idx want lo hi =
     (if lo < hi then
        let mid = (lo + hi) div 2 in
        case hi_readAt idx mid of
          None \<Rightarrow> None
        | Some e \<Rightarrow>
            if hashPrefix8 (StrongHash e) < want then diskSearch idx want (mid + 1) hi
            else diskSearch idx want lo mid
      else Some lo)"
  by pat_completeness auto
termination
  by (relation "measure (\<lambda>(idx, want, lo, hi). hi - lo)") auto

fun diskScan :: "HashIndex \<Rightarrow> bytes \<Rightarrow> nat list \<Rightarrow> hi_error + IndexEntry option" where
  "diskScan idx strong [] = Inr None"
| "diskScan idx strong (i # is) =
     (case hi_readAt idx i of
        None \<Rightarrow> Inl HiDiskRead
      | Some e \<Rightarrow>
          if hashPrefix8 (StrongHash e) \<noteq> hashPrefix8 strong then Inr None
          else if StrongHash e = strong then Inr (Some e)
          else diskScan idx strong is)"

definition diskLookup :: "HashIndex \<Rightarrow> bytes \<Rightarrow> hi_error + IndexEntry option" where
  "diskLookup idx strong =
     (let n = hi_diskSize idx div EntrySize in
      if n = 0 \<or> \<not> hi_open idx then Inr None
      else case diskSearch idx (hashPrefix8 strong) 0 n of
             None \<Rightarrow> Inl HiDiskRead
           | Some lo \<Rightarrow> diskScan idx strong [lo..<n])"

definition hi_Lookup :: "HashIndex \<Rightarrow> bytes \<Rightarrow> hi_error + IndexEntry option" where
  "hi_Lookup idx h =
     (case map_of (hi_entries idx) h of
        Some e \<Rightarrow> Inr (Some e)
      | None \<Rightarrow>
          (case hi_htab idx of
             None \<Rightarrow> diskLookup idx h
           | Some ht \<Rightarrow> map_sum HiTable id (ht_Lookup ht h)))"

definition hi_Insert :: "HashIndex \<Rightarrow> bytes \<Rightarrow> u32 \<Rightarrow> u64 \<Rightarrow> u32 \<Rightarrow> HashIndex" where
  "hi_Insert idx h packNumber storeOffset chunkLength =
     idx\<lparr> hi_entries := AList.update h
            \<lparr> StrongHash = h, PackNumber = packNumber, StoreOffset = storeOffset,
              ChunkLength = chunkLength \<rparr> (hi_entries idx),
          hi_dirty := True \<rparr>"

definition growHashTable :: "diskHashTable \<Rightarrow> ht_error + diskHashTable" where
  "growHashTable ht =
     (case ht_ReadAll ht of
        Inl err \<Rightarrow> Inl err
      | Inr es \<Rightarrow>
          (case insert_all ht_Insert (createDiskHashTable (i64 (ht_numSlots ht * 2))) es of
             Inl err \<Rightarrow> Inl err
           | Inr newHT \<Rightarrow> openDiskHashTable (ht_Close newHT)))"

text \<open>One step of the flush loop: a full table grows once, and the insert is retried.\<close>

definition flushOne :: "diskHashTable \<Rightarrow> IndexEntry \<Rightarrow> ht_error + diskHashTable" where
  "flushOne ht e =
     (case ht_Insert ht e of
        Inr ht' \<Rightarrow> Inr ht'
      | Inl err \<Rightarrow>
          if err = ErrTableFull then
            (case growHashTable ht of
               Inl err2 \<Rightarrow> Inl err2
             | Inr grown \<Rightarrow> ht_Insert grown e)
          else Inl err)"

definition FlushDelta :: "HashIndex \<Rightarrow> hi_error + HashIndex" where
  "FlushDelta idx =
     (if hi_entries idx = [] then Inr idx
      else case hi_htab idx of
             None \<Rightarrow> Inl HiNeedsTable
           | Some ht \<Rightarrow>
               (case insert_all flushOne ht (map snd (hi_entries idx)) of
                  Inl err \<Rightarrow> Inl (HiTable err)
                | Inr ht' \<Rightarrow> Inr (idx\<lparr> hi_htab := Some ht', hi_entries := [] \<rparr>)))"

definition readSortedFile :: "HashIndex \<Rightarrow> hi_error + IndexEntry list" where
  "readSortedFile idx =
     (if hi_diskSize idx = 0 then Inr []
      else if \<not> hi_open idx then Inl HiDiskRead
      else Inr (sorted_entries (hi_disk idx)))"

text \<open>What a flush collects before merging: the reopened table, or the sorted file.\<close>

definition flushCollect :: "HashIndex \<Rightarrow> hi_error + IndexEntry list" where
  "flushCollect idx =
     (case hi_htab idx of
        Some ht \<Rightarrow>
          (case openDiskHashTable (ht_f ht) of
             Inl err \<Rightarrow> Inl (HiTable err)
           | Inr ht' \<Rightarrow> map_sum HiTable id (ht_ReadAll ht'))
      | None \<Rightarrow> readSortedFile idx)"

definition flushMerge :: "(bytes \<times> IndexEntry) list \<Rightarrow> IndexEntry list \<Rightarrow> IndexEntry list" where
  "flushMerge buf collected =
     (if buf = [] then collected
      else filter (\<lambda>e. map_of buf (StrongHash e) = None) collected @ map snd buf)"

definition prefixKey :: "IndexEntry \<Rightarrow> nat" where
  "prefixKey e = unat (hashPrefix8 (StrongHash e))"

definition hi_Flush :: "(nat list \<Rightarrow> nat list) \<Rightarrow> HashIndex \<Rightarrow> hi_error option \<times> HashIndex" where
  "hi_Flush sperm idx =
     (if \<not> hi_dirty idx \<and> hi_entries idx = [] then (None, idx)
      else case flushCollect idx of
        Inl err \<Rightarrow> (Some err, idx)
      | Inr collected \<Rightarrow>
          let out = sort_Slice sperm prefixKey (flushMerge (hi_entries idx) collected);
              idx' = idx\<lparr> hi_disk := concat (map encodeEntry out), hi_open := True,
                         hi_diskSize := length out * EntrySize, hi_entries := [],
                         hi_dirty := False, hi_htab := None \<rparr>
          in if hi_noHtab idx then (None, idx')
             else case hi_rebuild sperm idx' of
                    Inl err \<Rightarrow> (Some err, idx')
                  | Inr idx'' \<Rightarrow> (None, idx''))"

definition hi_ReadAll :: "HashIndex \<Rightarrow> hi_error + IndexEntry list" where
  "hi_ReadAll idx = map_sum id (\<lambda>es. es @ map snd (hi_entries idx)) (readSortedFile idx)"

definition hi_Count :: "HashIndex \<Rightarrow> u64" where
  "hi_Count idx =
     (case hi_htab idx of
        None \<Rightarrow> of_nat (length (hi_entries idx))
      | Some ht \<Rightarrow>
          of_int (ht_count ht) +
          of_nat (length (filter (\<lambda>(h, e). case ht_Lookup ht h of Inr (Some x) \<Rightarrow> False | _ \<Rightarrow> True)
            (hi_entries idx))))"

definition hi_CloseDiscard :: "HashIndex \<Rightarrow> HashIndex" where
  "hi_CloseDiscard idx =
     idx\<lparr> hi_entries := [], hi_dirty := False, hi_htab := None, hi_open := False \<rparr>"

text \<open>Closing flushes and drops every handle, also after a failed flush.\<close>

definition hi_Close :: "(nat list \<Rightarrow> nat list) \<Rightarrow> HashIndex \<Rightarrow> hi_error option \<times> HashIndex" where
  "hi_Close sperm idx =
     (let (err, idx') = hi_Flush sperm idx in (err, idx'\<lparr> hi_htab := None, hi_open := False \<rparr>))"

declare diskSearch.simps [simp del]

section \<open>Invariant and abstraction\<close>

definition sorted_file :: "bytes \<Rightarrow> bool" where
  "sorted_file f \<longleftrightarrow>
     48 dvd length f \<and> sorted (map prefixKey (sorted_entries f)) \<and>
     distinct (map StrongHash (sorted_entries f)) \<and>
     zeroHash \<notin> StrongHash ` set (sorted_entries f)"

definition disk_map :: "HashIndex \<Rightarrow> bytes \<Rightarrow> IndexEntry option" where
  "disk_map idx = entry_map (sorted_entries (hi_disk idx))"

definition base_map :: "HashIndex \<Rightarrow> bytes \<Rightarrow> IndexEntry option" where
  "base_map idx = (case hi_htab idx of None \<Rightarrow> disk_map idx | Some ht \<Rightarrow> ht_abs ht)"

definition hi_abs :: "HashIndex \<Rightarrow> bytes \<Rightarrow> IndexEntry option" where
  "hi_abs idx = base_map idx ++ map_of (hi_entries idx)"

definition buffer_ok :: "(bytes \<times> IndexEntry) list \<Rightarrow> bool" where
  "buffer_ok buf \<longleftrightarrow>
     distinct (map fst buf) \<and> (\<forall>(h, e) \<in> set buf. StrongHash e = h \<and> good_entry e)"

text \<open>The table never has many more slots than entries: it grows only when 85% full.\<close>

definition table_ok :: "diskHashTable \<Rightarrow> bool" where
  "table_ok ht \<longleftrightarrow> ht_wf ht \<and> ht_numSlots ht \<le> 1024 + 3 * ht_count ht"

definition hi_wf :: "HashIndex \<Rightarrow> bool" where
  "hi_wf idx \<longleftrightarrow>
     hi_open idx \<and> hi_diskSize idx = length (hi_disk idx) \<and> sorted_file (hi_disk idx) \<and>
     buffer_ok (hi_entries idx) \<and> (hi_entries idx \<noteq> [] \<longrightarrow> hi_dirty idx) \<and>
     (case hi_htab idx of
        None \<Rightarrow> hi_noHtab idx
      | Some ht \<Rightarrow> \<not> hi_noHtab idx \<and> table_ok ht \<and>
          (\<not> hi_dirty idx \<longrightarrow> ht_abs ht = disk_map idx))"

text \<open>An upper bound of the number of chunks the index knows.\<close>

definition hi_total :: "HashIndex \<Rightarrow> nat" where
  "hi_total idx =
     (case hi_htab idx of
        None \<Rightarrow> length (hi_disk idx) div 48
      | Some ht \<Rightarrow> nat (ht_count ht)) + length (hi_entries idx)"

section \<open>Binary search of the sorted file\<close>

lemma hi_readAt_nth:
  assumes "i < length (hi_disk idx) div 48"
  shows "hi_readAt idx i = Some (sorted_entries (hi_disk idx) ! i)"
proof -
  have le: "Suc i * 48 \<le> length (hi_disk idx)"
    using assms by (metis Suc_leI div_le_mono le_trans mult_le_mono1 div_times_less_eq_dividend)
  then have "records 48 (hi_disk idx) ! i = take 48 (drop (i * 48) (hi_disk idx))"
    by (simp add: records_nth)
  then show ?thesis
    using assms le by (simp add: hi_readAt_def pread_def EntrySize_def sorted_entries_def length_records)
qed

lemma length_sorted_entries: "length (sorted_entries f) = length f div 48"
  by (simp add: sorted_entries_def length_records EntrySize_def)

lemma diskSearch_spec:
  fixes idx :: HashIndex
  defines "E \<equiv> sorted_entries (hi_disk idx)"
  assumes "sorted (map prefixKey E)"
    and "hi \<le> length E" "lo \<le> hi"
    and "\<forall>i < lo. prefixKey (E ! i) < unat want"
    and "\<forall>i. hi \<le> i \<and> i < length E \<longrightarrow> unat want \<le> prefixKey (E ! i)"
  shows "\<exists>p. diskSearch idx want lo hi = Some p \<and> p \<le> length E \<and>
    (\<forall>i < p. prefixKey (E ! i) < unat want) \<and>
    (\<forall>i. p \<le> i \<and> i < length E \<longrightarrow> unat want \<le> prefixKey (E ! i))"
  using assms(3-6)
proof (induction "hi - lo" arbitrary: lo hi rule: less_induct)
  case less
  have mono: "prefixKey (E ! i) \<le> prefixKey (E ! j)" if "i \<le> j" "j < length E" for i j
    using sorted_nth_mono [OF assms(2), of i j] that by simp
  show ?case
  proof (cases "lo < hi")
    case True
    let ?mid = "(lo + hi) div 2"
    have mid: "lo \<le> ?mid" "?mid < hi" "?mid < length E" using True less.prems(1) by auto
    then have rd: "hi_readAt idx ?mid = Some (E ! ?mid)"
      by (simp add: hi_readAt_nth E_def length_sorted_entries)
    have lt: "hashPrefix8 (StrongHash (E ! ?mid)) < want \<longleftrightarrow> prefixKey (E ! ?mid) < unat want"
      by (simp add: prefixKey_def word_less_nat_alt)
    show ?thesis
    proof (cases "prefixKey (E ! ?mid) < unat want")
      case l: True
      then have "\<forall>i < ?mid + 1. prefixKey (E ! i) < unat want"
        using mono [of _ ?mid] mid by (metis Suc_eq_plus1 le_less_trans less_Suc_eq_le)
      moreover have "diskSearch idx want lo hi = diskSearch idx want (?mid + 1) hi"
        using True l lt rd by (subst diskSearch.simps) (simp add: Let_def)
      ultimately show ?thesis
        using less.hyps [of hi "?mid + 1"] less.prems mid by simp
    next
      case g: False
      then have "\<forall>i. ?mid \<le> i \<and> i < length E \<longrightarrow> unat want \<le> prefixKey (E ! i)"
        using mono [of ?mid] by (meson le_trans not_less)
      moreover have "diskSearch idx want lo hi = diskSearch idx want lo ?mid"
        using True g lt rd by (subst diskSearch.simps) (simp add: Let_def)
      ultimately show ?thesis
        using less.hyps [of ?mid lo] less.prems mid by simp
    qed
  next
    case False
    then have "diskSearch idx want lo hi = Some lo" by (simp add: diskSearch.simps)
    with False less.prems show ?thesis by simp
  qed
qed

lemma diskScan_spec:
  fixes idx :: HashIndex
  defines "E \<equiv> sorted_entries (hi_disk idx)"
  assumes "distinct (map StrongHash E)" "sorted (map prefixKey E)" "lo \<le> length E"
    and "\<forall>i < lo. StrongHash (E ! i) \<noteq> h"
    and "\<forall>i. lo \<le> i \<and> i < length E \<longrightarrow> unat (hashPrefix8 h) \<le> prefixKey (E ! i)"
  shows "diskScan idx h [lo..<length E] = Inr (entry_map E h)"
  using assms(4-6)
proof (induction "length E - lo" arbitrary: lo)
  case 0
  then have "h \<notin> StrongHash ` set E" by (auto simp: in_set_conv_nth)
  with 0 show ?case by (simp add: entry_map_None_iff [THEN iffD2])
next
  case (Suc m)
  then have lo: "lo < length E" by simp
  then have rd: "hi_readAt idx lo = Some (E ! lo)"
    by (simp add: hi_readAt_nth E_def length_sorted_entries)
  have ups: "[lo..<length E] = lo # [Suc lo..<length E]" using lo by (rule upt_conv_Cons)
  have mono: "prefixKey (E ! lo) \<le> prefixKey (E ! j)" if "lo \<le> j" "j < length E" for j
    using sorted_nth_mono [OF assms(3), of lo j] that by simp
  consider "hashPrefix8 (StrongHash (E ! lo)) \<noteq> hashPrefix8 h" | "StrongHash (E ! lo) = h"
    | "hashPrefix8 (StrongHash (E ! lo)) = hashPrefix8 h" "StrongHash (E ! lo) \<noteq> h" by blast
  then show ?case
  proof cases
    case 1
    then have "prefixKey (E ! lo) \<noteq> unat (hashPrefix8 h)"
      unfolding prefixKey_def using unsigned_word_eqI by blast
    with Suc.prems(3) lo have gt: "unat (hashPrefix8 h) < prefixKey (E ! lo)" by fastforce
    have "StrongHash (E ! i) \<noteq> h" if "i < length E" for i
    proof (cases "i < lo")
      case False
      with mono [of i] gt that have "prefixKey (E ! i) \<noteq> unat (hashPrefix8 h)" by simp
      then show ?thesis by (auto simp: prefixKey_def)
    qed (use Suc.prems in simp)
    then have "h \<notin> StrongHash ` set E" by (metis imageE in_set_conv_nth)
    with 1 rd show ?thesis by (simp add: ups entry_map_None_iff [THEN iffD2])
  next
    case 2
    then have "entry_map E h = Some (E ! lo)" using lo by (simp add: entry_map_Some_iff [OF assms(2)])
    with 2 rd show ?thesis by (simp add: ups)
  next
    case 3
    then have "\<forall>i < Suc lo. StrongHash (E ! i) \<noteq> h" using Suc.prems by (simp add: less_Suc_eq)
    with 3 rd Suc.hyps(1) [of "Suc lo"] Suc.hyps(2) Suc.prems lo show ?thesis by (simp add: ups)
  qed
qed

lemma diskLookup_map:
  assumes "sorted_file (hi_disk idx)" "hi_open idx" "hi_diskSize idx = length (hi_disk idx)"
  shows "diskLookup idx h = Inr (disk_map idx h)"
proof (cases "length (hi_disk idx) div 48 = 0")
  case True
  then have "sorted_entries (hi_disk idx) = []" using length_sorted_entries by (metis length_0_conv)
  with True assms show ?thesis
    by (simp add: diskLookup_def Let_def EntrySize_def disk_map_def entry_map_def)
next
  case False
  let ?E = "sorted_entries (hi_disk idx)"
  have srt: "sorted (map prefixKey ?E)" and dis: "distinct (map StrongHash ?E)"
    using assms(1) by (auto simp: sorted_file_def)
  obtain p where p: "diskSearch idx (hashPrefix8 h) 0 (length ?E) = Some p" "p \<le> length ?E"
    "\<forall>i < p. prefixKey (?E ! i) < unat (hashPrefix8 h)"
    "\<forall>i. p \<le> i \<and> i < length ?E \<longrightarrow> unat (hashPrefix8 h) \<le> prefixKey (?E ! i)"
    using diskSearch_spec [OF srt, of "length ?E" 0 "hashPrefix8 h"] by auto
  then have "\<forall>i < p. StrongHash (?E ! i) \<noteq> h" by (auto simp: prefixKey_def)
  from diskScan_spec [OF dis srt p(2) this p(4)] p(1) False assms show ?thesis
    by (simp add: diskLookup_def Let_def EntrySize_def disk_map_def length_sorted_entries)
qed

section \<open>Lookup and insert\<close>

lemma hi_Lookup_abs:
  assumes "hi_wf idx"
  shows "hi_Lookup idx h = Inr (hi_abs idx h)"
proof (cases "map_of (hi_entries idx) h")
  case None
  show ?thesis
  proof (cases "hi_htab idx")
    case None
    with assms diskLookup_map [of idx h] \<open>map_of (hi_entries idx) h = None\<close> show ?thesis
      by (simp add: hi_Lookup_def hi_abs_def base_map_def map_add_def hi_wf_def)
  next
    case (Some ht)
    with assms have "ht_wf ht" by (simp add: hi_wf_def table_ok_def)
    with Some \<open>map_of (hi_entries idx) h = None\<close> show ?thesis
      by (simp add: hi_Lookup_def hi_abs_def base_map_def map_add_def ht_Lookup_abs)
  qed
qed (simp add: hi_Lookup_def hi_abs_def)

lemma buffer_ok_update:
  assumes "buffer_ok buf" "good_entry e" "StrongHash e = h"
  shows "buffer_ok (AList.update h e buf)"
proof -
  have "set (AList.update h e buf) \<subseteq> insert (h, e) (set buf)"
    by (induction buf) auto
  with assms show ?thesis
    by (auto simp: buffer_ok_def distinct_update)
qed

lemma hi_Insert_abs:
  assumes "hi_wf idx" "length h = 32" "h \<noteq> zeroHash"
  shows "hi_wf (hi_Insert idx h p off len)"
    and "hi_abs (hi_Insert idx h p off len) = (hi_abs idx)
      (h \<mapsto> \<lparr> StrongHash = h, PackNumber = p, StoreOffset = off, ChunkLength = len \<rparr>)"
  using assms
  by (auto simp: hi_wf_def hi_Insert_def hi_abs_def base_map_def disk_map_def update_conv' good_entry_def
      wf_entry_def buffer_ok_update split: option.splits)

section \<open>Growing the table\<close>

lemma entry_map_rev: "distinct (map StrongHash es) \<Longrightarrow> entry_map (rev es) = entry_map es"
  by (rule entry_map_mset) (simp_all add: rev_map [symmetric])

lemma ht_entries_good:
  assumes "ht_layout ht" "e \<in> set (ht_entries ht)"
  shows "good_entry e"
proof -
  obtain i where i: "i < ht_size ht" "e = ht_slot ht i" "ht_key ht i \<noteq> None"
    using assms(2) by (auto simp: set_ht_entries)
  have "length (take 48 (drop (24 + i * 48) (ht_f ht))) = 48"
    using slot_in_file [OF assms(1) i(1)] by simp
  then have "wf_entry e" unfolding i(2) ht_slot_def by (intro wf_decodeEntry) linarith
  moreover have "StrongHash e \<noteq> zeroHash" using i(2,3) by (simp add: ht_key_def)
  ultimately show ?thesis by (simp add: good_entry_def)
qed

lemma growHashTable_ok:
  assumes wf: "ht_wf ht" and small: "ht_numSlots ht < 50000000000000000"
    and full: "ht_numSlots ht * 85 div 100 < ht_count ht"
  shows "\<exists>ht'. growHashTable ht = Inr ht' \<and> table_ok ht' \<and> ht_abs ht' = ht_abs ht \<and> ht_room ht' 1"
proof -
  have lay: "ht_layout ht" and dis: "distinct (map StrongHash (ht_entries ht))"
    and cnt: "ht_count ht = int (length (ht_entries ht))"
    using wf by (auto simp: ht_wf_def distinct_ht_entries)
  have pos: "0 < ht_numSlots ht" using lay by (simp add: ht_layout_def)
  let ?n = "ht_numSlots ht * 2"
  have n: "i64 ?n = ?n" using small pos by (intro i64_id) auto
  have new: "ht_wf (createDiskHashTable ?n)" "ht_abs (createDiskHashTable ?n) = Map.empty"
    using create_wf [of ?n] create_abs [of ?n] pos small by simp_all
  have le: "ht_count ht \<le> ht_numSlots ht"
    using cnt card_slots_le [of "ht_size ht" "ht_key ht"] pos
    by (simp add: length_ht_entries ht_size_def le_nat_iff del: not_None_eq)
  then have room: "ht_room (createDiskHashTable ?n) (length (ht_entries ht))"
    using cnt pos by (simp add: ht_room_def createDiskHashTable_def)
  have "\<forall>e \<in> set (ht_entries ht). good_entry e" using ht_entries_good [OF lay] by blast
  then obtain h1 where h1: "insert_all ht_Insert (createDiskHashTable ?n) (ht_entries ht) = Inr h1"
    "ht_wf h1" "ht_abs h1 = ht_abs ht" "ht_numSlots h1 = ?n"
    using hts.insert_all_abs [OF conjI [OF new(1) refl] room] new(2) entry_map_rev [OF dis]
    by (auto simp: ht_abs_def createDiskHashTable_def)
  let ?h2 = "h1\<lparr> ht_f := ht_Close h1 \<rparr>"
  have "growHashTable ht = Inr ?h2"
    using h1(1) open_Close(1) [OF h1(2)] n by (simp add: growHashTable_def ht_ReadAll_entries [OF lay] cnt)
  moreover have "ht_count h1 = ht_count ht"
    using abs_count [OF h1(2)] abs_count [OF wf] h1(3) by simp
  then have "table_ok ?h2" "ht_room ?h2 1"
    using open_Close(2) [OF h1(2)] h1(4) full le pos by (auto simp: table_ok_def ht_room_def)
  ultimately show ?thesis using open_Close(3) [OF h1(2)] h1(3) by auto
qed

lemma flushOne_ok:
  assumes ok: "table_ok ht" and room: "ht_count ht + int (Suc k) \<le> 2 ^ 36" and e: "good_entry e"
  shows "\<exists>ht'. flushOne ht e = Inr ht' \<and> table_ok ht' \<and> ht_count ht' + int k \<le> 2 ^ 36 \<and>
    ht_abs ht' = (ht_abs ht)(StrongHash e \<mapsto> e)"
proof (cases "ht_count ht \<le> ht_numSlots ht * 85 div 100")
  case True
  then show ?thesis
    using ok room e ht_Insert_abs [of ht e] by (fastforce simp: flushOne_def table_ok_def good_entry_def)
next
  case False
  have wf: "ht_wf ht" using ok by (simp add: table_ok_def)
  have "ht_numSlots ht < 50000000000000000" using ok room by (simp add: table_ok_def)
  then obtain g where g: "growHashTable ht = Inr g" "table_ok g" "ht_abs g = ht_abs ht" "ht_room g 1"
    using growHashTable_ok [OF wf] False by auto
  have "ht_count g = ht_count ht"
    using abs_count [of g] abs_count [OF wf] g by (simp add: table_ok_def)
  moreover have "ht_Insert ht e = Inl ErrTableFull" using ht_Insert_full [OF wf] False by simp
  moreover obtain g' where "ht_Insert g e = Inr g'" "ht_wf g'" "ht_numSlots g' = ht_numSlots g"
    "ht_abs g' = (ht_abs g)(StrongHash e \<mapsto> e)" "ht_count g \<le> ht_count g'" "ht_count g' \<le> ht_count g + 1"
    using ht_Insert_abs [of g e] g(2,4) e by (auto simp: table_ok_def ht_room_def good_entry_def)
  ultimately show ?thesis
    using g room by (auto simp: flushOne_def table_ok_def)
qed

interpretation fls: location_store table_ok ht_abs ht_Lookup flushOne "\<lambda>ht k. ht_count ht + int k \<le> 2 ^ 36"
  by unfold_locales (simp add: table_ok_def ht_Lookup_abs, rule flushOne_ok)

lemma buffer_entry_map:
  assumes "buffer_ok buf"
  shows "entry_map (map snd buf) = map_of buf" "distinct (map StrongHash (map snd buf))"
    "\<forall>e \<in> set (map snd buf). good_entry e"
proof -
  have "map (\<lambda>x. (StrongHash (snd x), snd x)) buf = buf" "map (\<lambda>x. StrongHash (snd x)) buf = map fst buf"
    using assms by (auto simp: buffer_ok_def intro!: map_idI)
  then show "entry_map (map snd buf) = map_of buf" "distinct (map StrongHash (map snd buf))"
    using assms by (simp_all only: entry_map_def map_map o_def buffer_ok_def)
  show "\<forall>e \<in> set (map snd buf). good_entry e" using assms by (auto simp: buffer_ok_def)
qed

lemma FlushDelta_ok:
  assumes wf: "hi_wf idx" and tab: "\<not> hi_noHtab idx" and small: "hi_total idx \<le> 2 ^ 36"
  shows "\<exists>idx'. FlushDelta idx = Inr idx' \<and> hi_wf idx' \<and> hi_abs idx' = hi_abs idx \<and>
    hi_entries idx' = [] \<and> hi_disk idx' = hi_disk idx"
proof (cases "hi_entries idx = []")
  case True
  with wf show ?thesis by (simp add: FlushDelta_def)
next
  case False
  let ?es = "map snd (hi_entries idx)"
  obtain ht where ht: "hi_htab idx = Some ht" using wf tab by (auto simp: hi_wf_def split: option.splits)
  have ok: "table_ok ht" and buf: "buffer_ok (hi_entries idx)" and dirty: "hi_dirty idx"
    using wf ht False by (auto simp: hi_wf_def)
  have "0 \<le> ht_count ht" using ok by (simp add: table_ok_def ht_wf_def)
  then have "ht_count ht + int (length ?es) \<le> 2 ^ 36" using small ht by (simp add: hi_total_def)
  then obtain ht' where h: "insert_all flushOne ht ?es = Inr ht'" "table_ok ht'"
    "ht_abs ht' = ht_abs ht ++ map_of (hi_entries idx)"
    using fls.insert_all_abs [OF ok _ buffer_entry_map(3) [OF buf]]
      entry_map_rev [OF buffer_entry_map(2) [OF buf]] buffer_entry_map(1) [OF buf] by auto
  with False ht wf dirty show ?thesis
    by (auto simp: FlushDelta_def hi_wf_def hi_abs_def base_map_def disk_map_def buffer_ok_def)
qed

section \<open>Flush: the sorted file is the map\<close>

lemma open_layout:
  assumes "ht_layout ht"
  shows "\<exists>c \<ge> 0. openDiskHashTable (ht_f ht) = Inr (ht\<lparr> ht_count := c \<rparr>)"
proof -
  let ?f = "ht_f ht"
  have len: "24 \<le> length ?f" and t16: "take 16 ?f = htabMagic @ put64 (of_int (ht_numSlots ht))"
    and pos: "0 < ht_numSlots ht" and lt: "ht_numSlots ht < 100000000000000000"
    and c: "0 \<le> sint (get64 (take 8 (drop 16 ?f)))"
    using assms by (auto simp: ht_layout_def)
  have n: "sint (of_int (ht_numSlots ht) :: u64) = ht_numSlots ht"
    using pos lt by (intro sint_of_int_u64) auto
  have "take 24 ?f = take 16 ?f @ take 8 (drop 16 ?f)" using take_add [of 16 8 ?f] by simp
  then have "take 24 ?f = htabMagic @ put64 (of_int (ht_numSlots ht)) @ take 8 (drop 16 ?f)"
    by (simp only: t16 append_assoc)
  then show ?thesis
    using len n pos c
    by (intro exI [of _ "sint (get64 (take 8 (drop 16 ?f)))"])
      (simp add: openDiskHashTable_def fileReadAt_def pread_def htabHeaderSize_def codec_simps)
qed

lemma flushCollect_ok:
  assumes "hi_wf idx"
  shows "\<exists>es. flushCollect idx = Inr es \<and> entry_map es = base_map idx \<and> distinct (map StrongHash es) \<and>
    (\<forall>e \<in> set es. good_entry e) \<and> length es + length (hi_entries idx) = hi_total idx"
proof (cases "hi_htab idx")
  case None
  let ?E = "sorted_entries (hi_disk idx)"
  have rd: "readSortedFile idx = Inr ?E"
    using assms by (auto simp: readSortedFile_def hi_wf_def sorted_entries_def EntrySize_def)
  have "\<forall>e \<in> set ?E. wf_entry e" unfolding sorted_entries_def using ie.decoded_wf by blast
  moreover have "zeroHash \<notin> StrongHash ` set ?E" using assms by (simp add: hi_wf_def sorted_file_def)
  ultimately have "\<forall>e \<in> set ?E. good_entry e" unfolding good_entry_def by (metis image_eqI)
  with None rd assms show ?thesis
    by (simp add: flushCollect_def base_map_def disk_map_def hi_total_def length_sorted_entries
        hi_wf_def sorted_file_def)
next
  case (Some ht)
  then have wf: "ht_wf ht" using assms by (simp add: hi_wf_def table_ok_def)
  then have lay: "ht_layout ht" by (simp add: ht_wf_def)
  obtain c where "0 \<le> c" "openDiskHashTable (ht_f ht) = Inr (ht\<lparr> ht_count := c \<rparr>)"
    using open_layout [OF lay] by blast
  then have "flushCollect idx = Inr (ht_entries ht)"
    using Some lay by (simp add: flushCollect_def ht_ReadAll_entries)
  moreover have "length (ht_entries ht) + length (hi_entries idx) = hi_total idx"
    using Some wf by (simp add: hi_total_def ht_wf_def)
  ultimately show ?thesis
    using Some wf lay ht_entries_good [OF lay]
    by (simp add: base_map_def ht_abs_def distinct_ht_entries ht_wf_def)
qed

lemma flushMerge_ok:
  assumes buf: "buffer_ok buf" and es: "distinct (map StrongHash es)" "\<forall>e \<in> set es. good_entry e"
  shows "entry_map (flushMerge buf es) = entry_map es ++ map_of buf"
    "distinct (map StrongHash (flushMerge buf es))" "\<forall>e \<in> set (flushMerge buf es). good_entry e"
    "length (flushMerge buf es) \<le> length es + length buf"
proof -
  let ?k = "filter (\<lambda>e. map_of buf (StrongHash e) = None) es"
  note b = buffer_entry_map [OF buf]
  have keys: "StrongHash ` set (map snd buf) = dom (map_of buf)"
    using dom_entry_map [of "map snd buf"] b(1) by simp
  have dk: "distinct (map StrongHash ?k)" using es(1) by (simp add: distinct_map_filter)
  moreover have "StrongHash ` set ?k \<inter> StrongHash ` set (map snd buf) = {}"
    unfolding keys by auto
  ultimately have "distinct (map StrongHash (?k @ map snd buf))"
    using b(2) by (simp only: map_append distinct_append set_map)
  then show "distinct (map StrongHash (flushMerge buf es))"
    using es(1) by (simp only: flushMerge_def split: if_split) simp
  show "\<forall>e \<in> set (flushMerge buf es). good_entry e" using es(2) b(3) by (auto simp: flushMerge_def)
  show "length (flushMerge buf es) \<le> length es + length buf"
    using length_filter_le [of "\<lambda>e. map_of buf (StrongHash e) = None" es] by (simp add: flushMerge_def)
  show "entry_map (flushMerge buf es) = entry_map es ++ map_of buf"
  proof (cases "buf = []")
    case False
    have "entry_map ?k h = (if map_of buf h = None then entry_map es h else None)" for h
      by (rule option_eqI) (auto simp: entry_map_Some_iff dk es(1))
    moreover have "entry_map (?k @ map snd buf) = entry_map (map snd buf) ++ entry_map ?k"
      by (rule entry_map_append)
    ultimately show ?thesis
      using False b(1) by (auto simp: flushMerge_def fun_eq_iff map_add_def split: option.splits)
  qed (simp add: flushMerge_def)
qed

lemma written_file:
  assumes es: "distinct (map StrongHash es)" "\<forall>e \<in> set es. good_entry e"
    and sperm: "slice_sort sperm" and f: "f = concat (map encodeEntry (sort_Slice sperm prefixKey es))"
  shows "sorted_file f" "entry_map (sorted_entries f) = entry_map es" "length f = length es * 48"
    "mset (sorted_entries f) = mset es"
proof -
  let ?o = "sort_Slice sperm prefixKey es"
  have wf: "\<forall>e \<in> set ?o. wf_entry e" using es(2) sperm by (simp add: good_entry_def)
  have dec: "sorted_entries f = ?o"
    unfolding sorted_entries_def f by (rule ie.array_decode [OF wf])
  show len: "length f = length es * 48"
    using ie.array_length [OF wf] sperm by (simp add: f EntrySize_def)
  show ms: "mset (sorted_entries f) = mset es" using dec sperm by simp
  have "mset (map StrongHash ?o) = mset (map StrongHash es)" using sperm by simp
  then have dis: "distinct (map StrongHash ?o)" using es(1) mset_eq_imp_distinct_iff by blast
  moreover have "zeroHash \<notin> StrongHash ` set ?o" using es(2) sperm by (auto simp: good_entry_def)
  ultimately show "sorted_file f"
    using len dec sorted_sort_Slice [OF sperm] by (simp add: sorted_file_def)
  show "entry_map (sorted_entries f) = entry_map es"
    using entry_map_mset [OF dis, of es] sperm dec by simp
qed

lemma rebuild_ok:
  assumes f: "sorted_file (hi_disk idx)" "length (hi_disk idx) \<le> 48 * 2 ^ 36"
    and idx: "hi_open idx" "hi_diskSize idx = length (hi_disk idx)" "hi_entries idx = []" "\<not> hi_noHtab idx"
    and sperm: "slice_sort sperm"
  shows "\<exists>ht. hi_rebuild sperm idx = Inr (idx\<lparr> hi_htab := Some ht \<rparr>) \<and> hi_wf (idx\<lparr> hi_htab := Some ht \<rparr>) \<and>
    ht_abs ht = disk_map idx"
proof -
  obtain ht where ht: "buildHashTable sperm (length (hi_disk idx)) (hi_disk idx) = Inr ht" "ht_wf ht"
    "ht_abs ht = entry_map (sorted_entries (hi_disk idx))"
    "ht_count ht = int (length (sorted_entries (hi_disk idx)))"
    "ht_numSlots ht = int (buildNumSlots (length (hi_disk idx)))"
    using buildHashTable_correct [OF sperm f(2)] f(1) by (auto simp: sorted_file_def)
  have "buildNumSlots (length (hi_disk idx)) \<le> 1024 + 3 * length (sorted_entries (hi_disk idx))"
    by (simp add: buildNumSlots_def length_sorted_entries EntrySize_def Let_def)
  then have "table_ok ht" using ht by (simp add: table_ok_def)
  with ht idx f show ?thesis
    by (auto simp: hi_rebuild_def hi_wf_def disk_map_def buffer_ok_def)
qed

lemma hi_Flush_ok:
  assumes wf: "hi_wf idx" and sperm: "slice_sort sperm" and small: "hi_total idx \<le> 2 ^ 36"
  shows "\<exists>idx'. hi_Flush sperm idx = (None, idx') \<and> hi_wf idx' \<and> hi_abs idx' = hi_abs idx \<and>
    disk_map idx' = hi_abs idx \<and> hi_entries idx' = [] \<and> \<not> hi_dirty idx' \<and>
    length (hi_disk idx') \<le> 48 * 2 ^ 36 + length (hi_disk idx) \<and> hi_noHtab idx' = hi_noHtab idx"
proof (cases "\<not> hi_dirty idx \<and> hi_entries idx = []")
  case True
  then have "disk_map idx = hi_abs idx"
    using wf by (auto simp: hi_abs_def base_map_def hi_wf_def split: option.splits)
  with True wf show ?thesis by (simp add: hi_Flush_def)
next
  case False
  obtain es where es: "flushCollect idx = Inr es" "entry_map es = base_map idx"
    "distinct (map StrongHash es)" "\<forall>e \<in> set es. good_entry e"
    "length es + length (hi_entries idx) = hi_total idx"
    using flushCollect_ok [OF wf] by blast
  have buf: "buffer_ok (hi_entries idx)" using wf by (simp add: hi_wf_def)
  note mg = flushMerge_ok [OF buf es(3,4)]
  let ?m = "flushMerge (hi_entries idx) es"
  define f where "f = concat (map encodeEntry (sort_Slice sperm prefixKey ?m))"
  note wr = written_file [OF mg(2,3) sperm f_def]
  let ?idx = "idx\<lparr> hi_disk := f, hi_open := True,
    hi_diskSize := length (sort_Slice sperm prefixKey ?m) * EntrySize, hi_entries := [],
    hi_dirty := False, hi_htab := None \<rparr>"
  have size: "hi_diskSize ?idx = length f" using wr(3) sperm by (simp add: EntrySize_def)
  have abs: "entry_map (sorted_entries f) = hi_abs idx"
    using wr(2) mg(1) es(2) by (simp add: hi_abs_def)
  have len: "length f \<le> 48 * 2 ^ 36" using wr(3) mg(4) es(5) small by simp
  have run: "hi_Flush sperm idx = (if hi_noHtab idx then (None, ?idx)
      else case hi_rebuild sperm ?idx of Inl err \<Rightarrow> (Some err, ?idx) | Inr i \<Rightarrow> (None, i))"
    using False es(1) by (simp only: hi_Flush_def Let_def f_def if_False sum.case)
  show ?thesis
  proof (cases "hi_noHtab idx")
    case True
    with run wr(1) size abs len show ?thesis
      by (simp add: hi_wf_def hi_abs_def base_map_def disk_map_def buffer_ok_def)
  next
    case nohtab: False
    then obtain ht where "hi_rebuild sperm ?idx = Inr (?idx\<lparr> hi_htab := Some ht \<rparr>)"
      "hi_wf (?idx\<lparr> hi_htab := Some ht \<rparr>)" "ht_abs ht = disk_map ?idx"
      using rebuild_ok [of ?idx sperm] wr(1) len size sperm by auto
    with nohtab run abs len show ?thesis
      by (simp add: hi_abs_def base_map_def disk_map_def)
  qed
qed

section \<open>Opening, closing, counting\<close>

lemma disk_total: "hi_htab idx = None \<Longrightarrow> sorted_file (hi_disk idx) \<Longrightarrow>
    card (dom (disk_map idx)) = length (hi_disk idx) div 48"
  using distinct_card [of "map StrongHash (sorted_entries (hi_disk idx))"]
  by (simp add: disk_map_def dom_entry_map sorted_file_def length_sorted_entries)

lemma base_total:
  assumes "hi_wf idx"
  shows "hi_total idx = card (dom (base_map idx)) + length (hi_entries idx)"
  using assms disk_total [of idx] abs_count
  by (auto simp: hi_total_def base_map_def hi_wf_def table_ok_def split: option.splits)

lemma NewHashIndex_ok:
  assumes "sorted_file disk" "length disk \<le> 48 * 2 ^ 36" "slice_sort sperm"
  shows "\<exists>idx. NewHashIndex sperm disk skip = Inr idx \<and> hi_wf idx \<and>
    hi_abs idx = entry_map (sorted_entries disk) \<and> hi_disk idx = disk \<and> hi_noHtab idx = skip \<and>
    hi_entries idx = [] \<and> hi_total idx = length disk div 48"
proof (cases skip)
  case True
  with assms show ?thesis
    by (simp add: NewHashIndex_def hi_wf_def hi_abs_def base_map_def disk_map_def buffer_ok_def hi_total_def)
next
  case False
  let ?idx = "\<lparr> hi_disk = disk, hi_open = True, hi_diskSize = length disk, hi_entries = [],
    hi_dirty = False, hi_noHtab = skip, hi_htab = None \<rparr>"
  obtain ht where "hi_rebuild sperm ?idx = Inr (?idx\<lparr> hi_htab := Some ht \<rparr>)"
    "hi_wf (?idx\<lparr> hi_htab := Some ht \<rparr>)" "ht_abs ht = disk_map ?idx"
    using rebuild_ok [of ?idx sperm] assms False by auto
  with False base_total [of "?idx\<lparr> hi_htab := Some ht \<rparr>"] disk_total [of ?idx] assms(1) show ?thesis
    by (simp add: NewHashIndex_def hi_abs_def base_map_def disk_map_def)
qed

lemma hi_Count_card:
  assumes "hi_wf idx" "\<not> hi_noHtab idx"
  shows "hi_Count idx = of_nat (card (dom (hi_abs idx)))"
proof -
  obtain ht where ht: "hi_htab idx = Some ht" "ht_wf ht"
    using assms by (auto simp: hi_wf_def table_ok_def split: option.splits)
  let ?new = "filter (\<lambda>(h, e). ht_abs ht h = None) (hi_entries idx)"
  have "filter (\<lambda>(h, e). case ht_Lookup ht h of Inr (Some x) \<Rightarrow> False | _ \<Rightarrow> True) (hi_entries idx) = ?new"
    using ht(2) by (intro filter_cong) (auto simp: ht_Lookup_abs split: option.splits)
  then have cnt: "hi_Count idx = of_nat (card (dom (ht_abs ht)) + length ?new)"
    using ht abs_count [OF ht(2)] by (simp add: hi_Count_def)
  have "distinct (map fst ?new)"
    using assms(1) by (simp add: hi_wf_def buffer_ok_def distinct_map_filter)
  then have len: "length ?new = card (fst ` set ?new)"
    using distinct_card [of "map fst ?new"] by simp
  have "dom (hi_abs idx) = dom (ht_abs ht) \<union> fst ` set (hi_entries idx)"
    using ht(1) by (simp add: hi_abs_def base_map_def dom_map_of_conv_image_fst Un_commute)
  moreover have new: "fst ` set ?new = fst ` set (hi_entries idx) - dom (ht_abs ht)" by force
  ultimately have un: "dom (hi_abs idx) = dom (ht_abs ht) \<union> fst ` set ?new" by (simp only: Un_Diff_cancel)
  have "finite (dom (ht_abs ht))" by (simp add: ht_abs_def dom_entry_map)
  then have "card (dom (hi_abs idx)) = card (dom (ht_abs ht)) + length ?new"
    unfolding un len using new by (intro card_Un_disjoint) auto
  with cnt show ?thesis by simp
qed

section \<open>Sessions\<close>

text \<open>The mutating operations of a backup session, and what they do to the abstract map.\<close>

datatype hi_op = OpInsert bytes u32 u64 u32 | OpFlushDelta | OpFlush

fun hi_step :: "(nat list \<Rightarrow> nat list) \<Rightarrow> hi_op \<Rightarrow> HashIndex \<Rightarrow> hi_error + HashIndex" where
  "hi_step sperm (OpInsert h p off len) idx = Inr (hi_Insert idx h p off len)"
| "hi_step sperm OpFlushDelta idx = FlushDelta idx"
| "hi_step sperm OpFlush idx =
     (case hi_Flush sperm idx of (None, idx') \<Rightarrow> Inr idx' | (Some err, _) \<Rightarrow> Inl err)"

fun hi_run :: "(nat list \<Rightarrow> nat list) \<Rightarrow> hi_op list \<Rightarrow> HashIndex \<Rightarrow> hi_error + HashIndex" where
  "hi_run sperm [] idx = Inr idx"
| "hi_run sperm (a # as) idx = (case hi_step sperm a idx of Inl err \<Rightarrow> Inl err | Inr idx' \<Rightarrow> hi_run sperm as idx')"

fun op_entry :: "hi_op \<Rightarrow> IndexEntry list" where
  "op_entry (OpInsert h p off len) =
     [\<lparr> StrongHash = h, PackNumber = p, StoreOffset = off, ChunkLength = len \<rparr>]"
| "op_entry _ = []"

definition op_entries :: "hi_op list \<Rightarrow> IndexEntry list" where
  "op_entries as = concat (map op_entry as)"

lemma flushed_total:
  assumes "hi_wf idx" "hi_wf idx'" "hi_abs idx' = hi_abs idx" "hi_entries idx' = []"
  shows "hi_total idx' \<le> hi_total idx"
proof -
  have "hi_total idx' = card (dom (hi_abs idx'))"
    using assms by (simp add: base_total) (simp add: hi_abs_def)
  also have "\<dots> = card (dom (base_map idx) \<union> fst ` set (hi_entries idx))"
    using assms(3) by (simp add: hi_abs_def dom_map_of_conv_image_fst Un_commute)
  also have "\<dots> \<le> card (dom (base_map idx)) + card (fst ` set (hi_entries idx))" by (rule card_Un_le)
  also have "card (fst ` set (hi_entries idx)) \<le> length (hi_entries idx)"
    by (metis card_length length_map set_map)
  finally show ?thesis using assms(1) by (simp add: base_total)
qed

lemma insert_total: "hi_total (hi_Insert idx h p off len) \<le> Suc (hi_total idx)"
proof -
  have "length (AList.update h e buf) \<le> Suc (length buf)" for e :: IndexEntry and buf
    by (induction buf) auto
  then show ?thesis by (simp add: hi_total_def hi_Insert_def split: option.splits)
qed

lemma hi_step_abs:
  assumes wf: "hi_wf idx" and sperm: "slice_sort sperm" and tab: "\<not> hi_noHtab idx"
    and small: "hi_total idx + length (op_entry a) \<le> 2 ^ 36" and good: "\<forall>e \<in> set (op_entry a). good_entry e"
  shows "\<exists>idx'. hi_step sperm a idx = Inr idx' \<and> hi_wf idx' \<and> \<not> hi_noHtab idx' \<and>
    hi_total idx' \<le> hi_total idx + length (op_entry a) \<and> hi_abs idx' = hi_abs idx ++ entry_map (op_entry a)"
proof (cases a)
  case (OpInsert h p off len)
  then show ?thesis
    using wf tab good hi_Insert_abs [of idx h p off len] insert_total [of idx h p off len]
    by (auto simp: good_entry_def wf_entry_def entry_map_single hi_Insert_def)
next
  case OpFlushDelta
  then show ?thesis
    using FlushDelta_ok [OF wf tab] small wf tab flushed_total [OF wf]
    by (fastforce simp: entry_map_def FlushDelta_def split: if_splits option.splits sum.splits)
next
  case OpFlush
  then show ?thesis
    using hi_Flush_ok [OF wf sperm] small tab flushed_total [OF wf] by (fastforce simp: entry_map_def)
qed

lemma hi_run_abs:
  assumes "slice_sort sperm" "hi_wf idx" "\<not> hi_noHtab idx"
    and "hi_total idx + length (op_entries as) \<le> 2 ^ 36" "\<forall>e \<in> set (op_entries as). good_entry e"
  shows "\<exists>idx'. hi_run sperm as idx = Inr idx' \<and> hi_wf idx' \<and> \<not> hi_noHtab idx' \<and>
    hi_total idx' \<le> 2 ^ 36 \<and> hi_abs idx' = hi_abs idx ++ entry_map (rev (op_entries as))"
  using assms(2-)
proof (induction as arbitrary: idx)
  case Nil
  then show ?case by (simp add: op_entries_def entry_map_def)
next
  case (Cons a as)
  have split: "op_entries (a # as) = op_entry a @ op_entries as" by (simp add: op_entries_def)
  then obtain i1 where i1: "hi_step sperm a idx = Inr i1" "hi_wf i1" "\<not> hi_noHtab i1"
    "hi_total i1 \<le> hi_total idx + length (op_entry a)" "hi_abs i1 = hi_abs idx ++ entry_map (op_entry a)"
    using hi_step_abs [of idx sperm a] assms(1) Cons.prems by auto
  have "entry_map (rev (op_entry a)) = entry_map (op_entry a)" by (cases a) simp_all
  with i1 Cons.IH [OF i1(2,3)] Cons.prems split show ?case
    by (auto simp: entry_map_append map_add_assoc)
qed

section \<open>Properties\<close>

text \<open>
  C7: A whole backup session on the index.  Opened on a sorted file and driven through
  any sequence of inserts, delta flushes (the table growing when it has to) and full
  flushes, no operation fails, and every lookup returns the location inserted last for
  that hash, or else the location the file had.  Neither the iteration order of the
  buffer nor the tie order of the sort matters.
\<close>

theorem session_lookups:
  assumes "slice_sort sperm" "sorted_file disk"
    and "length disk div 48 + length (op_entries as) \<le> 2 ^ 36"
    and "\<forall>e \<in> set (op_entries as). good_entry e"
  shows "\<exists>idx idx'. NewHashIndex sperm disk False = Inr idx \<and> hi_run sperm as idx = Inr idx' \<and>
    (\<forall>h. hi_Lookup idx' h =
       Inr ((entry_map (sorted_entries disk) ++ entry_map (rev (op_entries as))) h))"
proof -
  have "length disk \<le> 48 * 2 ^ 36"
    using assms(2,3) by (auto simp: sorted_file_def elim!: dvdE)
  then obtain idx where i: "NewHashIndex sperm disk False = Inr idx" "hi_wf idx"
    "hi_abs idx = entry_map (sorted_entries disk)" "\<not> hi_noHtab idx" "hi_total idx = length disk div 48"
    using NewHashIndex_ok [OF assms(2) _ assms(1), of False] by auto
  obtain idx' where "hi_run sperm as idx = Inr idx'" "hi_wf idx'"
    "hi_abs idx' = hi_abs idx ++ entry_map (rev (op_entries as))"
    using hi_run_abs [OF assms(1) i(2,4)] assms(3,4) i(5) by auto
  with i show ?thesis by (auto simp: hi_Lookup_abs)
qed

definition sample_ops :: "hi_op list" where
  "sample_ops =
     [OpInsert (StrongHash sample_entry) 1 0 7, OpFlushDelta, OpFlush,
      OpInsert (StrongHash sample_entry) 3 4096 512, OpFlushDelta]"

lemma sorted_file_Nil: "sorted_file []" "sorted_entries [] = []"
  by (simp_all add: sorted_file_def sorted_entries_def EntrySize_def)

lemma sample_ops_entries:
  "op_entries sample_ops =
     [sample_entry\<lparr> PackNumber := 1, StoreOffset := 0, ChunkLength := 7 \<rparr>, sample_entry]"
  by (simp add: op_entries_def sample_ops_def sample_entry_def)

theorem session_lookups_witness:
  "\<exists>idx idx'. NewHashIndex stable_perm [] False = Inr idx \<and> hi_run stable_perm sample_ops idx = Inr idx' \<and>
     hi_Lookup idx' (StrongHash sample_entry) = Inr (Some sample_entry)"
proof -
  have g: "\<forall>e \<in> set (op_entries sample_ops). good_entry e"
    using good_sample by (simp add: sample_ops_entries good_entry_def wf_entry_def)
  have "length ([] :: bytes) div 48 + length (op_entries sample_ops) \<le> 2 ^ 36"
    by (simp add: sample_ops_entries)
  from session_lookups [OF slice_sort_stable sorted_file_Nil(1) this g] show ?thesis
    by (auto simp: sample_ops_entries entry_map_def)
qed

text \<open>
  C19: What a session leaves on disk.  Closing flushes every insert into a sorted file, and
  opening that file again, with the hash table or in the read-only mode that
  binary-searches the file, answers every lookup exactly as the closed index did.
\<close>

theorem close_reopen_lookups:
  assumes "hi_wf idx" "slice_sort sperm" "hi_total idx \<le> 2 ^ 36"
  shows "\<exists>idx'. hi_Close sperm idx = (None, idx') \<and> sorted_file (hi_disk idx') \<and>
    (\<forall>skip. \<exists>idx''. NewHashIndex sperm (hi_disk idx') skip = Inr idx'' \<and>
       (\<forall>h. hi_Lookup idx'' h = hi_Lookup idx h))"
proof -
  obtain i1 where i1: "hi_Flush sperm idx = (None, i1)" "hi_wf i1" "disk_map i1 = hi_abs idx"
    "hi_entries i1 = []" "hi_abs i1 = hi_abs idx"
    using hi_Flush_ok [OF assms] by blast
  let ?c = "i1\<lparr> hi_htab := None, hi_open := False \<rparr>"
  have srt: "sorted_file (hi_disk i1)" using i1(2) by (simp add: hi_wf_def)
  have "card (dom (disk_map i1)) = length (hi_disk i1) div 48"
    using disk_total [of ?c] srt by (simp add: disk_map_def)
  also have "card (dom (disk_map i1)) = hi_total i1"
    using base_total [OF i1(2)] i1(3-5) by (simp add: hi_abs_def)
  finally have "length (hi_disk i1) div 48 \<le> 2 ^ 36"
    using flushed_total [OF assms(1) i1(2,5,4)] assms(3) by simp
  then have len: "length (hi_disk i1) \<le> 48 * 2 ^ 36"
    using srt by (auto simp: sorted_file_def elim!: dvdE)
  have "\<exists>i2. NewHashIndex sperm (hi_disk i1) skip = Inr i2 \<and> (\<forall>h. hi_Lookup i2 h = hi_Lookup idx h)" for skip
    using NewHashIndex_ok [OF srt len assms(2), of skip] i1(3) assms(1)
    by (auto simp: hi_Lookup_abs disk_map_def)
  with i1(1) srt show ?thesis by (simp add: hi_Close_def)
qed

lemma sorted_file_sample: "sorted_file (encodeEntry sample_entry)"
  using good_sample by (auto simp: sorted_file_def sorted_entries_sample good_entry_def)

theorem close_reopen_lookups_witness:
  "\<exists>idx. NewHashIndex stable_perm (encodeEntry sample_entry) True = Inr idx \<and>
    (\<exists>idx'. hi_Close stable_perm idx = (None, idx') \<and> sorted_file (hi_disk idx'))"
proof -
  obtain idx where "NewHashIndex stable_perm (encodeEntry sample_entry) True = Inr idx" "hi_wf idx"
    "hi_total idx = 1"
    using NewHashIndex_ok [OF sorted_file_sample _ slice_sort_stable, of True] by auto
  with close_reopen_lookups [of idx stable_perm] slice_sort_stable show ?thesis by auto
qed



end
