(* ===== verification/Fold_Stream.thy ===== *)
theory Fold_Stream
  imports Delta Bloom Hash_Index "HOL-Library.List_Lexorder" "HOL-Library.Product_Lexorder"
begin

text \<open>
  The streaming fold of pending deltas into the sorted index
  (\<^verbatim>\<open>core/index/foldstream.go\<close>), and the streaming filter of the sorted index.  A slab is
  the list of its 56-byte records; the base file is read run by run, a run being the
  consecutive entries with one hash prefix.  Byte strings compare lexicographically.
\<close>

section \<open>Model\<close>

datatype fold_error =
    FoldTruncatedBase
  | FoldDelta delta_error
  | FoldBloom bloom_error
  | FoldPanicBloom

definition foldRecSize :: nat where
  "foldRecSize = EntrySize + 8"

definition recPrefix :: "bytes \<Rightarrow> u64" where
  "recPrefix r = getBE64 (bslice 0 8 r)"

definition foldKey :: "bytes \<Rightarrow> bytes \<times> u64" where
  "foldKey r = (take 32 r, get64 (drop EntrySize r))"

text \<open>
  The sort by (hash, sequence).  Sequence numbers are distinct, so the order is total and
  the result does not depend on the algorithm.
\<close>

definition sortSlab :: "bytes list \<Rightarrow> bytes list" where
  "sortSlab slab = sort_key foldKey slab"

text \<open>
  One run of the base reader: \<open>runLoop\<close> collects the entries that share the prefix; the
  first entry of the next run stays in the remaining bytes.
\<close>

function runLoop :: "u64 \<Rightarrow> bytes \<Rightarrow> fold_error + bytes list \<times> bytes" where
  "runLoop prefix rest =
     (if rest = [] then Inr ([], [])
      else if length rest < EntrySize then Inl FoldTruncatedBase
      else if recPrefix (take EntrySize rest) \<noteq> prefix then Inr ([], rest)
      else map_sum id (\<lambda>(es, r). (take EntrySize rest # es, r)) (runLoop prefix (drop EntrySize rest)))"
  by pat_completeness auto
termination
  by (relation "measure (\<lambda>(prefix, rest). length rest)") (auto simp: EntrySize_def)

declare runLoop.simps [simp del]

type_synonym base_run = "u64 \<times> bytes list"

definition nextRun :: "bytes \<Rightarrow> fold_error + base_run option \<times> bytes" where
  "nextRun rest =
     (if rest = [] then Inr (None, [])
      else if length rest < EntrySize then Inl FoldTruncatedBase
      else
        let first = take EntrySize rest; prefix = recPrefix first in
        map_sum id (\<lambda>(es, r). (Some (prefix, first # es), r)) (runLoop prefix (drop EntrySize rest)))"

fun lastOfGroup :: "bytes \<Rightarrow> bytes \<Rightarrow> bytes list \<Rightarrow> bytes \<times> bytes list" where
  "lastOfGroup start cur [] = (cur, [])"
| "lastOfGroup start cur (r # rs) =
     (if take 32 r = take 32 start then lastOfGroup start r rs else (cur, r # rs))"

lemma lastOfGroup_shorter: "lastOfGroup start cur rs = (w, rest) \<Longrightarrow> length rest \<le> length rs"
  by (induction rs arbitrary: cur) (fastforce split: if_splits)+

function collectWins :: "u64 \<Rightarrow> bytes list \<Rightarrow> bytes list \<times> bytes list" where
  "collectWins p recs =
     (case recs of
        [] \<Rightarrow> ([], [])
      | r # rs \<Rightarrow>
          if recPrefix r = p then
            let (w, rest) = lastOfGroup r r rs; (ws, rest') = collectWins p rest
            in (take EntrySize w # ws, rest')
          else ([], recs))"
  by pat_completeness auto
termination
  by (relation "measure (\<lambda>(p, recs). length recs)") (auto dest!: lastOfGroup_shorter [OF sym])

declare collectWins.simps [simp del]

definition minPrefix :: "base_run option \<Rightarrow> bytes list \<Rightarrow> u64" where
  "minPrefix run recs =
     (case run of
        None \<Rightarrow> recPrefix (hd recs)
      | Some (q, _) \<Rightarrow> if recs = [] then q else if recPrefix (hd recs) < q then recPrefix (hd recs) else q)"

lemma runLoop_shorter: "runLoop p rest = Inr (es, r) \<Longrightarrow> length r \<le> length rest"
proof (induction p rest arbitrary: es r rule: runLoop.induct)
  case (1 p rest)
  then show ?case
    by (subst (asm) (2) runLoop.simps) (fastforce split: if_splits sum.splits simp: map_sum_def)
qed

lemma nextRun_shorter: "nextRun rest = Inr (run, r) \<Longrightarrow>
    length r + (if run = None then 0 else 1) \<le> length rest"
  by (fastforce simp: nextRun_def Let_def EntrySize_def map_sum_def split: if_splits sum.splits dest!: runLoop_shorter)

lemma collectWins_shorter: "collectWins p recs = (ws, rest) \<Longrightarrow> length rest \<le> length recs"
proof (induction p recs arbitrary: ws rest rule: collectWins.induct)
  case (1 p recs)
  show ?case
  proof (cases recs)
    case (Cons r rs)
    then show ?thesis
      using 1 by (subst (asm) (2) collectWins.simps)
        (fastforce split: if_splits prod.splits dest: lastOfGroup_shorter)
  qed (use "1.prems" in \<open>simp add: collectWins.simps\<close>)
qed

lemma collectWins_consumes:
  "recs \<noteq> [] \<Longrightarrow> recPrefix (hd recs) = p \<Longrightarrow> collectWins p recs = (ws, rest) \<Longrightarrow> length rest < length recs"
  by (subst (asm) collectWins.simps)
    (fastforce split: list.splits prod.splits dest!: lastOfGroup_shorter collectWins_shorter)

text \<open>One prefix per round: base entries that no delta overrides, then the winning deltas.\<close>

function mergeLoop :: "base_run option \<Rightarrow> bytes \<Rightarrow> bytes list \<Rightarrow> fold_error + bytes list" where
  "mergeLoop run rest recs =
     (if run = None \<and> recs = [] then Inr []
      else
        let p = minPrefix run recs; (wins, recs') = collectWins p recs in
        case run of
          Some (q, es) \<Rightarrow>
            if q = p then
              (case nextRun rest of
                 Inl err \<Rightarrow> Inl err
               | Inr (run', rest') \<Rightarrow>
                   map_sum id (\<lambda>out. filter (\<lambda>be. \<forall>dw \<in> set wins. take 32 be \<noteq> take 32 dw) es @ wins @ out)
                     (mergeLoop run' rest' recs'))
            else map_sum id (\<lambda>out. wins @ out) (mergeLoop run rest recs')
        | None \<Rightarrow> map_sum id (\<lambda>out. wins @ out) (mergeLoop None rest recs'))"
  by pat_completeness auto
termination
proof (relation "measure (\<lambda>(run, rest, recs). length recs + (if run = None then 0 else 1) + length rest)",
    goal_cases)
  case (2 run rest recs p x wins recs')
  then show ?case
    using collectWins_consumes [of recs p wins recs'] by (auto simp: minPrefix_def)
next
  case (3 run rest recs p x wins recs' r q es b run' rest')
  then show ?case
    using collectWins_shorter [of p recs wins recs'] nextRun_shorter [of rest run' rest'] by auto
next
  case (4 run rest recs p x wins recs' r q es)
  then show ?case
    using collectWins_consumes [of recs p wins recs'] by (auto simp: minPrefix_def split: if_splits)
qed simp

declare mergeLoop.simps [simp del]

text \<open>A pass rewrites the base file; on an error the old file stays.\<close>

definition mergePass :: "bytes \<Rightarrow> bytes list \<Rightarrow> fold_error + bytes" where
  "mergePass base slab =
     (case nextRun base of
        Inl err \<Rightarrow> Inl err
      | Inr (run, rest) \<Rightarrow> map_sum id concat (mergeLoop run rest (sortSlab slab)))"

record fold_state =
  fs_base :: bytes
  fs_bloom :: BloomFilter
  fs_slab :: "bytes list"
  fs_seq :: u64
  fs_total :: nat

definition flushPass :: "fold_state \<Rightarrow> fold_error + fold_state" where
  "flushPass st =
     (if fs_slab st = [] then Inr st
      else case mergePass (fs_base st) (fs_slab st) of
             Inl err \<Rightarrow> Inl err
           | Inr base \<Rightarrow> Inr (st\<lparr> fs_base := base, fs_slab := [] \<rparr>))"

definition foldRecord :: "DeltaEntry \<Rightarrow> u64 \<Rightarrow> bytes" where
  "foldRecord e seq =
     encodeEntry \<lparr> StrongHash = de_StrongHash e, PackNumber = de_PackNumber e,
                   StoreOffset = de_StoreOffset e, ChunkLength = de_ChunkLength e \<rparr> @ put64 seq"

definition foldOne :: "int \<Rightarrow> fold_state \<Rightarrow> DeltaEntry \<Rightarrow> fold_error + fold_state" where
  "foldOne budget st e =
     (case bf_Add (fs_bloom st) (de_WeakHash e) of
        None \<Rightarrow> Inl FoldPanicBloom
      | Some bloom \<Rightarrow>
          let st1 = st\<lparr> fs_bloom := bloom \<rparr>;
              rec = foldRecord e (fs_seq st)
          in case (if int (length (fs_slab st) * foldRecSize) + int foldRecSize > budget
                   then flushPass st1 else Inr st1) of
               Inl err \<Rightarrow> Inl err
             | Inr st2 \<Rightarrow>
                 Inr (st2\<lparr> fs_slab := fs_slab st2 @ [rec], fs_seq := fs_seq st2 + 1,
                           fs_total := fs_total st2 + 1 \<rparr>))"

fun foldEntries :: "int \<Rightarrow> fold_state \<Rightarrow> DeltaEntry list \<Rightarrow> fold_error + fold_state" where
  "foldEntries budget st [] = Inr st"
| "foldEntries budget st (e # es) =
     (case foldOne budget st e of Inl err \<Rightarrow> Inl err | Inr st' \<Rightarrow> foldEntries budget st' es)"

fun foldFiles :: "int \<Rightarrow> fold_state \<Rightarrow> bytes list \<Rightarrow> fold_error + fold_state" where
  "foldFiles budget st [] = Inr st"
| "foldFiles budget st (f # fs) =
     (let (es, err) = streamDeltaRecords f in
      case foldEntries budget st es of
        Inl e \<Rightarrow> Inl e
      | Inr st' \<Rightarrow> (case err of Some e \<Rightarrow> Inl (FoldDelta e) | None \<Rightarrow> foldFiles budget st' fs))"

definition DefaultFoldBatchBudget :: int where
  "DefaultFoldBatchBudget = 32 * 1024 * 1024"

text \<open>
  The fold of the staged delta files, given in the order of their names, into the index
  directory: the base file (empty when there is none yet) and the bloom file.  The result
  is the new base, the saved bloom and the number of entries.
\<close>

definition FoldDeltasStreamedWithBudget :: "(bytes \<Rightarrow> bytes) \<Rightarrow> (u64 \<Rightarrow> u64) \<Rightarrow> bytes list \<Rightarrow> bytes
    \<Rightarrow> bytes option \<Rightarrow> u64 \<Rightarrow> int \<Rightarrow> fold_error + bytes \<times> bytes \<times> nat" where
  "FoldDeltasStreamedWithBudget sha est deltaFiles base bloomFile expectedChunks batchBudget =
     (case (case bloomFile of Some b \<Rightarrow> map_sum FoldBloom id (LoadBloomFilter b)
            | None \<Rightarrow> Inr (NewBloomFilter est expectedChunks)) of
        Inl err \<Rightarrow> Inl err
      | Inr bloom \<Rightarrow>
          (case List.find (\<lambda>f. ValidateDeltaFile sha f \<noteq> None) deltaFiles of
             Some f \<Rightarrow> Inl (FoldDelta (the (ValidateDeltaFile sha f)))
           | None \<Rightarrow>
               let budget = (if batchBudget \<le> 0 then DefaultFoldBatchBudget else batchBudget);
                   st = \<lparr> fs_base = base, fs_bloom = bloom, fs_slab = [], fs_seq = 0, fs_total = 0 \<rparr>
               in case foldFiles budget st deltaFiles of
                    Inl err \<Rightarrow> Inl err
                  | Inr st' \<Rightarrow>
                      (case flushPass st' of
                         Inl err \<Rightarrow> Inl err
                       | Inr st'' \<Rightarrow> Inr (fs_base st'', bf_Save (fs_bloom st''), fs_total st''))))"

definition FoldDeltasStreamed :: "(bytes \<Rightarrow> bytes) \<Rightarrow> (u64 \<Rightarrow> u64) \<Rightarrow> bytes list \<Rightarrow> bytes
    \<Rightarrow> bytes option \<Rightarrow> u64 \<Rightarrow> fold_error + bytes \<times> bytes \<times> nat" where
  "FoldDeltasStreamed sha est deltaFiles base bloomFile expectedChunks =
     FoldDeltasStreamedWithBudget sha est deltaFiles base bloomFile expectedChunks DefaultFoldBatchBudget"

text \<open>The garbage collector's filter by pack number; a trailing fragment is an error.\<close>

function FilterSortedIndex :: "(u32 \<Rightarrow> bool) \<Rightarrow> bytes \<Rightarrow> fold_error + bytes" where
  "FilterSortedIndex keep src =
     (if src = [] then Inr []
      else if length src < EntrySize then Inl FoldTruncatedBase
      else map_sum id
             (\<lambda>out. if keep (get32 (bslice 32 36 (take EntrySize src))) then take EntrySize src @ out else out)
             (FilterSortedIndex keep (drop EntrySize src)))"
  by pat_completeness auto
termination
  by (relation "measure (\<lambda>(keep, src). length src)") (auto simp: EntrySize_def)

declare FilterSortedIndex.simps [simp del]

end
