(* ===== verification/Fold_Correct.thy ===== *)
theory Fold_Correct
  imports Fold_Stream
begin

text \<open>
  Correctness of the streaming fold: one merge pass applies a slab to the sorted base, and
  the passes together apply every delta in order, whatever the budget.
\<close>

section \<open>Hash order and prefix order\<close>

lemma le_dec_snoc: "le_dec (xs @ [b]) = le_dec xs + 256 ^ length xs * unat b"
  by (induction xs) (simp_all add: algebra_simps)

lemma be_dec_Cons: "be_dec (b # bs) = 256 ^ length bs * unat b + be_dec bs"
  by (simp add: be_dec_def le_dec_snoc)

lemma lex_be_dec: "length xs = length ys \<Longrightarrow> xs \<le> ys \<Longrightarrow> be_dec xs \<le> be_dec ys"
proof (induction xs ys rule: list_induct2)
  case (Cons x xs y ys)
  show ?case
  proof (cases "x = y")
    case False
    with Cons.prems have "unat x < unat y" by (simp add: word_less_nat_alt)
    then have "256 ^ length xs * (unat x + 1) \<le> 256 ^ length xs * unat y" by (intro mult_le_mono2) simp
    moreover have "be_dec xs < 256 ^ length xs" by (rule be_dec_bound)
    ultimately show ?thesis using Cons.hyps by (simp add: be_dec_Cons)
  qed (use Cons in \<open>simp add: be_dec_Cons\<close>)
qed simp

lemma lex_take: "(xs :: bytes) \<le> ys \<Longrightarrow> take n xs \<le> take n ys"
proof (induction n arbitrary: xs ys)
  case (Suc n)
  then show ?case by (cases xs; cases ys) auto
qed simp

lemma recPrefix_take: "8 \<le> n \<Longrightarrow> recPrefix (take n a) = recPrefix a"
  by (simp add: recPrefix_def min_def)

lemma same_hash_prefix: "take 32 a = take 32 b \<Longrightarrow> recPrefix a = recPrefix b"
  using recPrefix_take [of 32 a] recPrefix_take [of 32 b] by simp

lemma hash_le_prefix:
  assumes "32 \<le> length a" "32 \<le> length b" "take 32 a \<le> take 32 b"
  shows "recPrefix a \<le> recPrefix b"
proof -
  have "take 8 a \<le> take 8 b" using lex_take [OF assms(3), of 8] by simp
  then have "be_dec (take 8 a) \<le> be_dec (take 8 b)" using assms(1,2) by (intro lex_be_dec) simp_all
  then show ?thesis using assms(1,2) by (simp add: recPrefix_def word_le_nat_alt unat_getBE64)
qed

lemma sorted_prefixes:
  assumes "\<forall>r \<in> set recs. 32 \<le> length r" "sorted (map (take 32) recs)"
  shows "sorted (map recPrefix recs)"
  using assms by (induction recs) (auto intro: hash_le_prefix)

section \<open>Winners\<close>

fun lasts :: "bytes list \<Rightarrow> bytes list" where
  "lasts [] = []"
| "lasts [r] = [r]"
| "lasts (r # r' # rs) = (if take 32 r' = take 32 r then lasts (r' # rs) else r # lasts (r' # rs))"

lemma lasts_subset: "set (lasts rs) \<subseteq> set rs"
  by (induction rs rule: lasts.induct) auto

lemma lasts_hashes: "take 32 ` set (lasts rs) = take 32 ` set rs"
  by (induction rs rule: lasts.induct) auto

lemma lasts_distinct: "sorted (map (take 32) rs) \<Longrightarrow> distinct (map (take 32) (lasts rs))"
proof (induction rs rule: lasts.induct)
  case (3 r r' rs)
  have "take 32 r \<notin> take 32 ` set (r' # rs)" if "take 32 r' \<noteq> take 32 r"
    using "3.prems" that by auto
  with 3 show ?case by (auto simp: lasts_hashes)
qed simp_all

lemma lasts_append:
  "rs \<noteq> [] \<Longrightarrow> rs' \<noteq> [] \<Longrightarrow> take 32 (last rs) \<noteq> take 32 (hd rs') \<Longrightarrow> lasts (rs @ rs') = lasts rs @ lasts rs'"
proof (induction rs rule: lasts.induct)
  case (2 r)
  then show ?case by (cases rs') auto
qed auto

lemma lasts_mem:
  assumes "sorted (map (take 32) rs)"
  shows "r \<in> set (lasts rs) \<longleftrightarrow>
    filter (\<lambda>x. take 32 x = take 32 r) rs \<noteq> [] \<and> r = last (filter (\<lambda>x. take 32 x = take 32 r) rs)"
  using assms
proof (induction rs rule: lasts.induct)
  case (3 a b rs)
  let ?F = "filter (\<lambda>x. take 32 x = take 32 r)"
  show ?case
  proof (cases "take 32 b = take 32 a")
    case True
    then have "?F (a # b # rs) \<noteq> [] \<longleftrightarrow> ?F (b # rs) \<noteq> []" by auto
    moreover have "last (?F (a # b # rs)) = last (?F (b # rs))" if "?F (b # rs) \<noteq> []" using that by auto
    moreover have "sorted (map (take 32) (b # rs))" using "3.prems" by simp
    ultimately show ?thesis using "3.IH"(1) [OF True] True by auto
  next
    case False
    have no: "take 32 x \<noteq> take 32 a" if "x \<in> set (b # rs)" for x
      using "3.prems" False that by auto
    show ?thesis
    proof (cases "take 32 a = take 32 r")
      case True
      then have "?F (b # rs) = []" using no by (auto simp: filter_empty_conv)
      then have "?F (a # b # rs) = [a]" using True by simp
      moreover have "r \<notin> set (lasts (b # rs))"
        using no [of r] lasts_subset [of "b # rs"] True by auto
      ultimately show ?thesis using False by simp
    next
      case hr: False
      then have "?F (a # b # rs) = ?F (b # rs)" by simp
      moreover have "r \<noteq> a" using hr by auto
      moreover have "sorted (map (take 32) (b # rs))" using "3.prems" by simp
      ultimately show ?thesis using "3.IH"(2) [OF False] False by simp
    qed
  qed
qed auto

lemma lastOfGroup_spec:
  "lastOfGroup start cur rs = (w, rest) \<Longrightarrow> take 32 cur = take 32 start \<Longrightarrow>
     lasts (cur # rs) = w # lasts rest \<and> take 32 w = take 32 start \<and>
     (\<exists>pre. cur # rs = pre @ rest \<and> pre \<noteq> [] \<and> (\<forall>x \<in> set pre. take 32 x = take 32 start))"
proof (induction rs arbitrary: cur)
  case Nil
  then show ?case by auto
next
  case (Cons r rs)
  show ?case
  proof (cases "take 32 r = take 32 start")
    case True
    with Cons.prems have "lastOfGroup start r rs = (w, rest)" by simp
    from Cons.IH [OF this True] obtain pre where pre:
      "lasts (r # rs) = w # lasts rest" "take 32 w = take 32 start" "r # rs = pre @ rest"
      "\<forall>x \<in> set pre. take 32 x = take 32 start" by blast
    have "lasts (cur # r # rs) = lasts (r # rs)" using True Cons.prems(2) by simp
    with pre Cons.prems(2) show ?thesis by (intro conjI exI [of _ "cur # pre"]) simp_all
  next
    case False
    with Cons.prems show ?thesis by (auto intro!: exI [of _ "[cur]"])
  qed
qed

lemma collectWins_spec:
  "collectWins p recs = (ws, rest) \<Longrightarrow>
     \<exists>pre. recs = pre @ rest \<and> (\<forall>x \<in> set pre. recPrefix x = p) \<and> (rest = [] \<or> recPrefix (hd rest) \<noteq> p) \<and>
       ws @ map (take 48) (lasts rest) = map (take 48) (lasts recs) \<and>
       take 32 ` set ws = take 32 ` set pre"
proof (induction p recs arbitrary: ws rest rule: collectWins.induct)
  case (1 p recs)
  show ?case
  proof (cases recs)
    case Nil
    with "1.prems" show ?thesis by (simp add: collectWins.simps [of p "[]"])
  next
    case (Cons r rs)
    show ?thesis
    proof (cases "recPrefix r = p")
      case False
      with Cons "1.prems" have "ws = []" "rest = recs" by (simp_all add: collectWins.simps [of p "r # rs"])
      with Cons False show ?thesis by simp
    next
      case True
      obtain w r1 where g: "lastOfGroup r r rs = (w, r1)" by fastforce
      obtain ws1 r2 where c: "collectWins p r1 = (ws1, r2)" by fastforce
      have out: "ws = take 48 w # ws1" "rest = r2"
        using "1.prems" Cons True g c by (simp_all add: collectWins.simps [of p "r # rs"] EntrySize_def)
      obtain pre1 where G: "lasts recs = w # lasts r1" "take 32 w = take 32 r" "recs = pre1 @ r1" "pre1 \<noteq> []"
        "\<forall>x \<in> set pre1. take 32 x = take 32 r"
        using lastOfGroup_spec [OF g refl] Cons by auto
      obtain pre2 where C: "r1 = pre2 @ r2" "\<forall>x \<in> set pre2. recPrefix x = p" "r2 = [] \<or> recPrefix (hd r2) \<noteq> p"
        "ws1 @ map (take 48) (lasts r2) = map (take 48) (lasts r1)" "take 32 ` set ws1 = take 32 ` set pre2"
        using "1.IH" [OF Cons True g [symmetric] refl c] by blast
      have "\<forall>x \<in> set pre1. recPrefix x = p" using G(5) True same_hash_prefix by blast
      moreover have "take 32 ` set pre1 = {take 32 r}" using G(4,5) by (cases pre1) auto
      ultimately show ?thesis
        using G C out by (intro exI [of _ "pre1 @ pre2"]) (auto simp: image_Un)
    qed
  qed
qed

section \<open>Runs of the base file\<close>

fun runEntries :: "base_run option \<Rightarrow> bytes list" where
  "runEntries None = []"
| "runEntries (Some (q, es)) = es"

lemma runLoop_spec:
  "48 dvd length rest \<Longrightarrow> \<exists>es r. runLoop p rest = Inr (es, r) \<and> records 48 rest = es @ records 48 r \<and>
     48 dvd length r \<and> (\<forall>e \<in> set es. recPrefix e = p) \<and> (r = [] \<or> recPrefix (take 48 r) \<noteq> p)"
proof (induction p rest rule: runLoop.induct)
  case (1 p rest)
  show ?case
  proof (cases "rest = [] \<or> recPrefix (take 48 rest) \<noteq> p")
    case True
    then show ?thesis
      using "1.prems" by (subst runLoop.simps) (auto simp: EntrySize_def dest: dvd_imp_le)
  next
    case False
    then have len: "\<not> length rest < 48" using "1.prems" by (auto dest: dvd_imp_le)
    then have "48 dvd length (drop 48 rest)" using "1.prems" by simp
    then obtain es r where "runLoop p (drop 48 rest) = Inr (es, r)" "records 48 (drop 48 rest) = es @ records 48 r"
      "48 dvd length r" "\<forall>e \<in> set es. recPrefix e = p" "r = [] \<or> recPrefix (take 48 r) \<noteq> p"
      using "1.IH" False len by (auto simp: EntrySize_def)
    moreover have "records 48 rest = take 48 rest # records 48 (drop 48 rest)"
      using len by (subst records.simps) simp
    ultimately show ?thesis
      using False len by (subst runLoop.simps) (auto simp: EntrySize_def)
  qed
qed

definition state_ok :: "base_run option \<Rightarrow> bytes \<Rightarrow> bool" where
  "state_ok run rest \<longleftrightarrow>
     48 dvd length rest \<and> sorted (map recPrefix (records 48 rest)) \<and>
     (case run of
        None \<Rightarrow> rest = []
      | Some (q, es) \<Rightarrow> (\<forall>e \<in> set es. recPrefix e = q \<and> length e = 48) \<and>
          (\<forall>b \<in> set (records 48 rest). q < recPrefix b))"

lemma nextRun_spec:
  assumes "48 dvd length rest" "sorted (map recPrefix (records 48 rest))"
  shows "\<exists>run r. nextRun rest = Inr (run, r) \<and> records 48 rest = runEntries run @ records 48 r \<and>
    state_ok run r \<and> (run = None \<longrightarrow> records 48 rest = [])"
proof (cases "rest = []")
  case True
  then show ?thesis by (simp add: nextRun_def state_ok_def)
next
  case False
  then have len: "\<not> length rest < 48" using assms(1) by (auto dest: dvd_imp_le)
  let ?p = "recPrefix (take 48 rest)"
  have rec: "records 48 rest = take 48 rest # records 48 (drop 48 rest)"
    using len by (subst records.simps) simp
  have "48 dvd length (drop 48 rest)" using assms(1) len by simp
  then obtain es r where R: "runLoop ?p (drop 48 rest) = Inr (es, r)"
    "records 48 (drop 48 rest) = es @ records 48 r" "48 dvd length r"
    "\<forall>e \<in> set es. recPrefix e = ?p" "r = [] \<or> recPrefix (take 48 r) \<noteq> ?p"
    using runLoop_spec [of "drop 48 rest" ?p] by blast
  have srt: "sorted (map recPrefix (records 48 r))" "\<forall>b \<in> set (records 48 r). ?p \<le> recPrefix b"
    using assms(2) R(2) rec by (auto simp: sorted_append)
  have "?p < recPrefix b" if "b \<in> set (records 48 r)" for b
  proof -
    have "r \<noteq> []" using that by auto
    then have "\<not> length r < 48" using R(3) by (auto dest: dvd_imp_le)
    then have rr: "records 48 r = take 48 r # records 48 (drop 48 r)" by (subst records.simps) simp
    then have "?p < recPrefix (take 48 r)" using srt(2) R(5) \<open>r \<noteq> []\<close> by (simp add: order.strict_iff_order)
    moreover have "recPrefix (take 48 r) \<le> recPrefix b" using srt(1) rr that by auto
    ultimately show ?thesis by (rule less_le_trans)
  qed
  moreover have "\<forall>e \<in> set es. length e = 48"
    using R(2) records_lengths [of _ 48 "drop 48 rest"] by (metis in_set_conv_decomp_first Un_iff set_append)
  ultimately have "state_ok (Some (?p, take 48 rest # es)) r"
    using R(3,4) srt(1) len by (simp add: state_ok_def)
  moreover have "nextRun rest = Inr (Some (?p, take 48 rest # es), r)"
    using False len R(1) by (simp add: nextRun_def Let_def EntrySize_def)
  ultimately show ?thesis using R(2) rec by auto
qed

section \<open>One merge pass\<close>

definition merged :: "bytes list \<Rightarrow> bytes list \<Rightarrow> bytes list \<Rightarrow> bool" where
  "merged B recs out \<longleftrightarrow>
     set out = {b \<in> set B. take 32 b \<notin> take 32 ` set recs} \<union> take 48 ` set (lasts recs) \<and>
     sorted (map recPrefix out) \<and> (distinct (map (take 32) B) \<longrightarrow> distinct (map (take 32) out)) \<and>
     (\<forall>x \<in> set out. length x = 48)"

definition above :: "u64 \<Rightarrow> bytes list \<Rightarrow> bool" where
  "above p xs \<longleftrightarrow> (\<forall>x \<in> set xs. p < recPrefix x)"

lemma merged_above:
  assumes "merged B recs out" "above p B" "above p recs"
  shows "above p out"
proof -
  have "p < recPrefix (take 48 r)" if "r \<in> set (lasts recs)" for r
    using that assms(3) lasts_subset [of recs] by (auto simp: above_def recPrefix_take)
  moreover have "set out = {b \<in> set B. take 32 b \<notin> take 32 ` set recs} \<union> take 48 ` set (lasts recs)"
    using assms(1) unfolding merged_def by (rule conjunct1)
  ultimately show ?thesis using assms(2) unfolding above_def by blast
qed

lemma sorted_const_map: "\<forall>x \<in> set xs. f x = p \<Longrightarrow> sorted (map f xs)"
  by (induction xs) auto

lemma merged_round:
  assumes rest: "merged B' recs' out'" "above p B'" "above p recs'"
    and E: "\<forall>e \<in> set E. recPrefix e = p \<and> length e = 48"
    and pre: "\<forall>x \<in> set pre. recPrefix x = p" "\<forall>x \<in> set pre. length x = 56"
    and wins: "wins @ map (take 48) (lasts recs') = map (take 48) (lasts (pre @ recs'))"
      "take 32 ` set wins = take 32 ` set pre"
    and srt: "sorted (map (take 32) (pre @ recs'))"
  shows "merged (E @ B') (pre @ recs')
    (filter (\<lambda>be. \<forall>dw \<in> set wins. take 32 be \<noteq> take 32 dw) E @ wins @ out')"
proof -
  let ?A = "filter (\<lambda>be. \<forall>dw \<in> set wins. take 32 be \<noteq> take 32 dw) E"
  have wp: "recPrefix w = p" if "w \<in> set wins" for w
  proof -
    have "take 32 w \<in> take 32 ` set pre" using that wins(2) by blast
    then obtain x where "x \<in> set pre" "take 32 w = take 32 x" by blast
    then show ?thesis using pre(1) same_hash_prefix by metis
  qed
  have A: "?A = filter (\<lambda>be. take 32 be \<notin> take 32 ` set pre) E"
    using wins(2) by (intro filter_cong) (auto simp: image_iff)
  have out': "above p out'" by (rule merged_above [OF rest])
  have hp: "take 32 a \<noteq> take 32 b" if "recPrefix a = p" "p < recPrefix b" for a b
    using that same_hash_prefix [of a b] by auto
  have winlen: "\<forall>w \<in> set wins. length w = 48"
  proof
    fix w assume "w \<in> set wins"
    then have "w \<in> take 48 ` set (lasts (pre @ recs'))"
      using arg_cong [OF wins(1), of set] by auto
    then obtain x where x: "x \<in> set (pre @ recs')" "w = take 48 x" using lasts_subset by blast
    show "length w = 48"
    proof (cases "x \<in> set pre")
      case False
      then have "p < recPrefix x" using x(1) rest(3) by (simp add: above_def)
      moreover have "recPrefix w = recPrefix x" using x(2) by (simp add: recPrefix_take)
      ultimately show ?thesis using wp [OF \<open>w \<in> set wins\<close>] by simp
    qed (use x pre(2) in simp)
  qed
  have wd: "distinct (map (take 32) wins)"
  proof -
    have "distinct (map (take 32) (map (take 48) (lasts (pre @ recs'))))"
      using lasts_distinct [OF srt] by (simp add: o_def)
    then show ?thesis unfolding wins(1) [symmetric] by simp
  qed
  have lastsS: "take 48 ` set (lasts (pre @ recs')) = set wins \<union> take 48 ` set (lasts recs')"
    using arg_cong [OF wins(1), of set] by auto
  have "set (?A @ wins @ out') =
      {b \<in> set (E @ B'). take 32 b \<notin> take 32 ` set (pre @ recs')} \<union> take 48 ` set (lasts (pre @ recs'))"
  proof -
    have "take 32 b \<notin> take 32 ` set recs'" if "b \<in> set E" for b
      using hp E that rest(3) unfolding above_def by blast
    then have "{b \<in> set E. take 32 b \<notin> take 32 ` set (pre @ recs')} = set ?A"
      unfolding A by auto
    moreover have "take 32 b \<notin> take 32 ` set pre" if "b \<in> set B'" for b
    proof
      assume "take 32 b \<in> take 32 ` set pre"
      then obtain x where "x \<in> set pre" "take 32 x = take 32 b" by auto
      with hp [of x b] pre(1) rest(2) that show False by (simp add: above_def)
    qed
    then have "{b \<in> set B'. take 32 b \<notin> take 32 ` set (pre @ recs')}
        = {b \<in> set B'. take 32 b \<notin> take 32 ` set recs'}" by auto
    moreover have "{b \<in> set (E @ B'). Q b} = {b \<in> set E. Q b} \<union> {b \<in> set B'. Q b}" for Q by auto
    ultimately show ?thesis
      using rest(1) lastsS by (simp only: merged_def set_append) blast
  qed
  moreover have "sorted (map recPrefix (?A @ wins @ out'))"
  proof -
    have c: "\<forall>x \<in> set (?A @ wins). recPrefix x = p" using E wp by auto
    then have "sorted (map recPrefix (?A @ wins))" by (rule sorted_const_map)
    moreover have "sorted (map recPrefix out')" using rest(1) by (simp add: merged_def)
    moreover have "\<forall>x \<in> set (map recPrefix (?A @ wins)). \<forall>y \<in> set (map recPrefix out'). x \<le> y"
      using c out' by (auto simp: above_def less_imp_le)
    ultimately have "sorted (map recPrefix (?A @ wins) @ map recPrefix out')"
      by (simp only: sorted_append)
    then show ?thesis by simp
  qed
  moreover have "distinct (map (take 32) (?A @ wins @ out'))" if d: "distinct (map (take 32) (E @ B'))"
  proof -
    have "distinct (map (take 32) ?A)" using d by (simp add: distinct_map_filter)
    moreover have "distinct (map (take 32) B')" using d by simp
    then have "distinct (map (take 32) out')" using rest(1) unfolding merged_def by blast
    moreover have "take 32 ` set ?A \<inter> take 32 ` set wins = {}" by auto
    moreover have "take 32 x \<noteq> take 32 y" if "x \<in> set (?A @ wins)" "y \<in> set out'" for x y
      using that E wp out' hp [of x y] by (auto simp: above_def)
    then have "take 32 ` set (?A @ wins) \<inter> take 32 ` set out' = {}" by blast
    ultimately show ?thesis using wd by (simp only: map_append distinct_append set_append set_map image_Un) blast
  qed
  moreover have "\<forall>x \<in> set (?A @ wins @ out'). length x = 48"
  proof -
    have "\<forall>x \<in> set out'. length x = 48" using rest(1) unfolding merged_def by blast
    then show ?thesis using E winlen by auto
  qed
  ultimately show ?thesis unfolding merged_def by blast
qed

lemma above_tail:
  assumes "sorted (map recPrefix (pre @ recs'))" "pre @ recs' \<noteq> [] \<longrightarrow> p \<le> recPrefix (hd (pre @ recs'))"
    "recs' = [] \<or> recPrefix (hd recs') \<noteq> p"
  shows "above p recs'"
proof (cases recs')
  case (Cons r rs)
  have le: "p \<le> recPrefix x" if "x \<in> set (pre @ recs')" for x
  proof -
    have "pre @ recs' \<noteq> []" using that by auto
    then obtain y ys where "pre @ recs' = y # ys" by (cases "pre @ recs'") auto
    with assms(1,2) that have "p \<le> recPrefix y" "recPrefix y \<le> recPrefix x" by auto
    then show ?thesis by (rule order_trans)
  qed
  then have "p < recPrefix r" using assms(3) Cons by (simp add: order.strict_iff_order)
  moreover have "\<forall>x \<in> set rs. recPrefix r \<le> recPrefix x" using assms(1) Cons by (simp add: sorted_append)
  ultimately show ?thesis using Cons by (auto simp: above_def intro: less_le_trans)
qed (simp add: above_def)

lemma merged_round_deltas:
  assumes "merged B recs' out'" "above p B" "above p recs'"
    "\<forall>x \<in> set pre. recPrefix x = p" "\<forall>x \<in> set pre. length x = 56"
    "wins @ map (take 48) (lasts recs') = map (take 48) (lasts (pre @ recs'))"
    "take 32 ` set wins = take 32 ` set pre" "sorted (map (take 32) (pre @ recs'))"
  shows "merged B (pre @ recs') (wins @ out')"
  using merged_round [OF assms(1-3) _ assms(4-8), of "[]"] by simp

lemma mergeLoop_spec:
  "state_ok run rest \<Longrightarrow> \<forall>r \<in> set recs. length r = 56 \<Longrightarrow> sorted (map (take 32) recs) \<Longrightarrow>
    \<exists>out. mergeLoop run rest recs = Inr out \<and> merged (runEntries run @ records 48 rest) recs out"
proof (induction run rest recs rule: mergeLoop.induct)
  case (1 run rest recs)
  show ?case
  proof (cases "run = None \<and> recs = []")
    case True
    with "1.prems"(1) show ?thesis
      by (subst mergeLoop.simps) (simp add: state_ok_def merged_def)
  next
    case ne: False
    define p where p: "p = minPrefix run recs"
    obtain wins recs' where c: "collectWins p recs = (wins, recs')" by fastforce
    obtain pre where pre: "recs = pre @ recs'" "\<forall>x \<in> set pre. recPrefix x = p"
      "recs' = [] \<or> recPrefix (hd recs') \<noteq> p"
      "wins @ map (take 48) (lasts recs') = map (take 48) (lasts (pre @ recs'))"
      "take 32 ` set wins = take 32 ` set pre"
      using collectWins_spec [OF c] by auto
    have len: "\<forall>x \<in> set pre. length x = 56" "\<forall>x \<in> set recs'. length x = 56"
      using "1.prems"(2) pre(1) by auto
    have srt: "sorted (map (take 32) (pre @ recs'))" "sorted (map (take 32) recs')"
      using "1.prems"(3) pre(1) by (simp_all add: sorted_append)
    have "p \<le> recPrefix (hd recs)" if "recs \<noteq> []"
      using that by (auto simp: p minPrefix_def split: option.splits)
    moreover have "sorted (map recPrefix (pre @ recs'))"
      using srt(1) "1.prems"(2) pre(1) by (intro sorted_prefixes) auto
    ultimately have up: "above p recs'" using pre(1,3) by (intro above_tail [of pre]) auto
    note round = merged_round [OF _ _ up _ pre(2) len(1) pre(4,5) srt(1)]
    note round' = merged_round_deltas [OF _ _ up pre(2) len(1) pre(4,5) srt(1)]
    note unf = mergeLoop.simps [of run rest recs]
    show ?thesis
    proof (cases run)
      case None
      then have rest: "rest = []" using "1.prems"(1) by (simp add: state_ok_def)
      obtain out where out: "mergeLoop None rest recs' = Inr out" "merged (runEntries None @ records 48 rest) recs' out"
        using "1.IH"(1) [OF ne p c [symmetric] refl None] "1.prems"(1) len(2) srt(2) None by auto
      have "merged [] (pre @ recs') (wins @ out)"
        using out(2) rest by (intro round') (simp_all add: above_def)
      moreover have "mergeLoop run rest recs = Inr (wins @ out)"
        by (subst unf) (use ne None out(1) c [unfolded p] in \<open>simp add: Let_def\<close>)
      ultimately show ?thesis unfolding None rest pre(1) by simp
    next
      case (Some a)
      then obtain q es where run: "run = Some (q, es)" by (cases a) auto
      have ok: "\<forall>e \<in> set es. recPrefix e = q \<and> length e = 48" "\<forall>b \<in> set (records 48 rest). q < recPrefix b"
        "48 dvd length rest" "sorted (map recPrefix (records 48 rest))"
        using "1.prems"(1) run by (auto simp: state_ok_def)
      show ?thesis
      proof (cases "q = p")
        case True
        obtain run' rest' where N: "nextRun rest = Inr (run', rest')"
          "records 48 rest = runEntries run' @ records 48 rest'" "state_ok run' rest'"
          using nextRun_spec [OF ok(3,4)] by auto
        obtain out where out: "mergeLoop run' rest' recs' = Inr out"
          "merged (runEntries run' @ records 48 rest') recs' out"
          using "1.IH"(2) [OF ne p c [symmetric] refl run refl True N(1) refl] N(3) len(2) srt(2) by auto
        have "merged (es @ records 48 rest) (pre @ recs')
            (filter (\<lambda>be. \<forall>dw \<in> set wins. take 32 be \<noteq> take 32 dw) es @ wins @ out)"
          using out(2) N(2) ok(1,2) True by (intro round) (simp_all add: above_def)
        moreover have "mergeLoop run rest recs =
            Inr (filter (\<lambda>be. \<forall>dw \<in> set wins. take 32 be \<noteq> take 32 dw) es @ wins @ out)"
          by (subst unf) (use ne run out(1) N(1) c [unfolded p] True [unfolded p, symmetric] in \<open>simp add: Let_def\<close>)
        ultimately show ?thesis unfolding run pre(1) by simp
      next
        case False
        then have "p < q" using run p by (auto simp: minPrefix_def split: if_splits)
        moreover from this have "p < recPrefix b" if "b \<in> set (records 48 rest)" for b
          using ok(2) that less_trans by blast
        ultimately have ab: "above p (es @ records 48 rest)" using ok(1) by (auto simp: above_def)
        obtain out where out: "mergeLoop run rest recs' = Inr out"
          "merged (runEntries run @ records 48 rest) recs' out"
          using "1.IH"(3) [OF ne p c [symmetric] refl run refl False] "1.prems"(1) len(2) srt(2) by auto
        have "merged (es @ records 48 rest) (pre @ recs') (wins @ out)"
          using out(2) run ab by (intro round') simp_all
        moreover have "mergeLoop run rest recs = Inr (wins @ out)"
          by (subst unf) (use ne run out(1) c [unfolded p] False [unfolded p] in \<open>simp add: Let_def\<close>)
        ultimately show ?thesis unfolding run pre(1) by simp
      qed
    qed
  qed
qed

lemma entry_map_Cons: "entry_map (e # es) = (entry_map es)(StrongHash e \<mapsto> e)"
  by (simp add: entry_map_def)

lemma entry_map_rev_last:
  "entry_map (rev (map d xs)) h =
     (let f = filter (\<lambda>r. StrongHash (d r) = h) xs in if f = [] then None else Some (d (last f)))"
proof (induction xs rule: rev_induct)
  case (snoc x xs)
  then show ?case by (simp add: entry_map_Cons Let_def)
qed (simp add: entry_map_def)

lemma sortSlab_hashes: "sorted (map (take 32) (sortSlab slab))"
proof -
  have "sorted (map foldKey (sortSlab slab))" by (simp add: sortSlab_def)
  then have "sorted (map fst (map foldKey (sortSlab slab)))"
    unfolding sorted_map [of fst] by (rule sorted_wrt_mono_rel [rotated]) (auto simp: less_eq_prod_def)
  then show ?thesis by (simp add: foldKey_def o_def)
qed

lemma sortSlab_filter:
  assumes "sorted (map (\<lambda>r. get64 (drop 48 r)) slab)"
  shows "filter (\<lambda>r. take 32 r = h) (sortSlab slab) = filter (\<lambda>r. take 32 r = h) slab"
proof -
  let ?F = "filter (\<lambda>r. take 32 r = h) slab"
  have "sorted_wrt (\<lambda>x y. get64 (drop 48 x) \<le> get64 (drop 48 y)) ?F"
    using sorted_filter [OF assms] by (simp add: sorted_map)
  then have "sorted (map foldKey ?F)"
    unfolding sorted_map by (rule sorted_wrt_mono_rel [rotated]) (simp add: foldKey_def EntrySize_def less_eq_prod_def)
  then show ?thesis by (simp add: sortSlab_def filter_sort sort_key_id_if_sorted)
qed

definition slab_ok :: "bytes list \<Rightarrow> bool" where
  "slab_ok slab \<longleftrightarrow> (\<forall>r \<in> set slab. length r = 56 \<and> take 32 r \<noteq> zeroHash) \<and>
     sorted (map (\<lambda>r. get64 (drop 48 r)) slab)"

lemma decodeEntry_take48: "decodeEntry (take 48 r) = decodeEntry r"
  by (simp add: decodeEntry_def bslice_def drop_take)

lemma merged_map:
  assumes "merged (records 48 base) (sortSlab slab) out" "slab_ok slab"
    "distinct (map StrongHash (sorted_entries base))"
  shows "entry_map (map decodeEntry out) = entry_map (sorted_entries base) ++ entry_map (rev (map decodeEntry slab))"
proof (rule ext, rule option_eqI)
  fix h e
  let ?F = "filter (\<lambda>r. take 32 r = h) slab" and ?recs = "sortSlab slab" and ?B = "records 48 base"
  have F: "filter (\<lambda>r. take 32 r = h) ?recs = ?F"
    using assms(2) by (intro sortSlab_filter) (simp add: slab_ok_def)
  have dist: "distinct (map StrongHash (map decodeEntry out))"
  proof -
    have "distinct (map (take 32) ?B)" using assms(3) by (simp add: sorted_entries_def EntrySize_def o_def)
    then have "distinct (map (take 32) out)" using assms(1) unfolding merged_def by blast
    then show ?thesis by (simp add: o_def)
  qed
  have outS: "set out = {b \<in> set ?B. take 32 b \<notin> take 32 ` set ?recs} \<union> take 48 ` set (lasts ?recs)"
    using assms(1) unfolding merged_def by (rule conjunct1)
  have mem: "r \<in> set (lasts ?recs) \<longleftrightarrow> ?F \<noteq> [] \<and> r = last ?F" if "take 32 r = h" for r
    using lasts_mem [OF sortSlab_hashes, of r slab] that F by simp
  have L: "entry_map (map decodeEntry out) h = Some e \<longleftrightarrow> (\<exists>b \<in> set out. decodeEntry b = e \<and> take 32 b = h)"
    by (subst entry_map_Some_iff [OF dist]) auto
  have B: "entry_map (sorted_entries base) h = Some e \<longleftrightarrow> (\<exists>b \<in> set ?B. decodeEntry b = e \<and> take 32 b = h)"
    by (subst entry_map_Some_iff [OF assms(3)]) (auto simp: sorted_entries_def EntrySize_def)
  show "entry_map (map decodeEntry out) h = Some e \<longleftrightarrow>
      (entry_map (sorted_entries base) ++ entry_map (rev (map decodeEntry slab))) h = Some e"
  proof (cases "?F = []")
    case True
    then have "h \<notin> take 32 ` set ?recs" using F by (auto simp: filter_empty_conv)
    moreover have "\<forall>r \<in> set (lasts ?recs). take 32 r \<noteq> h" using mem True by blast
    ultimately have "(\<exists>b \<in> set out. decodeEntry b = e \<and> take 32 b = h)
        \<longleftrightarrow> (\<exists>b \<in> set ?B. decodeEntry b = e \<and> take 32 b = h)"
      unfolding outS by auto
    then show ?thesis
      using L B True by (simp add: map_add_def entry_map_rev_last Let_def)
  next
    case False
    then have "last ?F \<in> set ?F" by (rule last_in_set)
    then have lh: "take 32 (last ?F) = h" "h \<in> take 32 ` set slab"
      by (simp, intro image_eqI [of _ _ "last ?F"]) simp_all
    then have hr: "h \<in> take 32 ` set ?recs" by (simp add: sortSlab_def)
    have "(\<exists>b \<in> set out. decodeEntry b = e \<and> take 32 b = h) \<longleftrightarrow>
        (\<exists>b \<in> take 48 ` set (lasts ?recs). decodeEntry b = e \<and> take 32 b = h)"
      unfolding outS using hr by blast
    also have "\<dots> \<longleftrightarrow> (\<exists>r \<in> set (lasts ?recs). decodeEntry r = e \<and> take 32 r = h)"
      by (simp add: decodeEntry_take48)
    also have "\<dots> \<longleftrightarrow> decodeEntry (last ?F) = e" using mem lh(1) False by auto
    finally show ?thesis
      using L False by (simp add: map_add_def entry_map_rev_last Let_def)
  qed
qed

lemma prefixKey_decode: "prefixKey (decodeEntry b) = unat (recPrefix b)"
  by (simp add: prefixKey_def recPrefix_def hashPrefix8_def decodeEntry_def bslice_def)

lemma sorted_file_records:
  "sorted_file f \<longleftrightarrow> 48 dvd length f \<and> sorted (map recPrefix (records 48 f)) \<and>
     distinct (map (take 32) (records 48 f)) \<and> (\<forall>r \<in> set (records 48 f). take 32 r \<noteq> zeroHash)"
proof -
  have "sorted (map prefixKey (sorted_entries f)) \<longleftrightarrow> sorted (map recPrefix (records 48 f))"
    by (simp add: sorted_entries_def EntrySize_def o_def prefixKey_decode sorted_map word_le_nat_alt)
  then show ?thesis
    unfolding sorted_file_def by (auto simp: sorted_entries_def EntrySize_def o_def image_iff)
qed

lemma mergePass_spec:
  assumes "sorted_file base" "slab_ok slab"
  shows "\<exists>f. mergePass base slab = Inr f \<and> sorted_file f \<and>
    entry_map (sorted_entries f) = entry_map (sorted_entries base) ++ entry_map (rev (map decodeEntry slab))"
proof -
  have base: "48 dvd length base" "sorted (map recPrefix (records 48 base))"
    "distinct (map (take 32) (records 48 base))" "\<forall>r \<in> set (records 48 base). take 32 r \<noteq> zeroHash"
    using assms(1) by (simp_all add: sorted_file_records)
  obtain run r where N: "nextRun base = Inr (run, r)" "records 48 base = runEntries run @ records 48 r"
    "state_ok run r" using nextRun_spec [OF base(1,2)] by blast
  have "\<forall>x \<in> set (sortSlab slab). length x = 56" using assms(2) by (simp add: slab_ok_def sortSlab_def)
  from mergeLoop_spec [OF N(3) this sortSlab_hashes] N(2) obtain out where out:
    "mergeLoop run r (sortSlab slab) = Inr out" "merged (records 48 base) (sortSlab slab) out" by auto
  have o: "set out \<subseteq> set (records 48 base) \<union> take 48 ` set slab" "sorted (map recPrefix out)"
    "distinct (map (take 32) out)" "\<forall>x \<in> set out. length x = 48"
  proof -
    have "set out = {b \<in> set (records 48 base). take 32 b \<notin> take 32 ` set (sortSlab slab)}
        \<union> take 48 ` set (lasts (sortSlab slab))" using out(2) unfolding merged_def by (rule conjunct1)
    moreover have "set (lasts (sortSlab slab)) \<subseteq> set slab"
      using lasts_subset [of "sortSlab slab"] by (simp add: sortSlab_def)
    ultimately show "set out \<subseteq> set (records 48 base) \<union> take 48 ` set slab" by auto
    show "sorted (map recPrefix out)" "\<forall>x \<in> set out. length x = 48"
      using out(2) unfolding merged_def by blast+
    show "distinct (map (take 32) out)" using out(2) base(3) unfolding merged_def by blast
  qed
  have rec: "records 48 (concat out) = out" using o(4) by (intro records_concat_exact) auto
  have "take 32 x \<noteq> zeroHash" if "x \<in> set out" for x
    using that o(1) base(4) assms(2) by (auto simp: slab_ok_def)
  moreover have "48 dvd length (concat out)"
    using o(4) by (simp add: length_concat_const [of out 48])
  ultimately have "sorted_file (concat out)"
    unfolding sorted_file_records rec using o(2,3) by simp
  moreover have "entry_map (sorted_entries (concat out)) =
      entry_map (sorted_entries base) ++ entry_map (rev (map decodeEntry slab))"
    using merged_map [OF out(2) assms(2)] base(3) rec
    by (simp add: sorted_entries_def EntrySize_def o_def)
  ultimately show ?thesis using N(1) out(1) by (auto simp: mergePass_def)
qed

section \<open>All passes\<close>

definition locEntry :: "DeltaEntry \<Rightarrow> IndexEntry" where
  "locEntry e = \<lparr> StrongHash = de_StrongHash e, PackNumber = de_PackNumber e,
     StoreOffset = de_StoreOffset e, ChunkLength = de_ChunkLength e \<rparr>"

definition good_delta :: "DeltaEntry \<Rightarrow> bool" where
  "good_delta e \<longleftrightarrow> wf_delta_entry e \<and> de_StrongHash e \<noteq> zeroHash"

lemma foldRecord_simps:
  assumes "good_delta e"
  shows "length (foldRecord e q) = 56" "take 32 (foldRecord e q) = de_StrongHash e"
    "get64 (drop 48 (foldRecord e q)) = q" "decodeEntry (foldRecord e q) = locEntry e"
proof -
  have h: "length (de_StrongHash e) = 32" using assms by (simp add: good_delta_def wf_delta_entry_def)
  then show "length (foldRecord e q) = 56" "take 32 (foldRecord e q) = de_StrongHash e"
    "get64 (drop 48 (foldRecord e q)) = q" by (simp_all add: foldRecord_def encodeEntry_def)
  show "decodeEntry (foldRecord e q) = locEntry e"
    using h by (simp add: foldRecord_def encodeEntry_def decodeEntry_def locEntry_def bslice_def)
qed

definition fold_abs :: "fold_state \<Rightarrow> bytes \<Rightarrow> IndexEntry option" where
  "fold_abs st = entry_map (sorted_entries (fs_base st)) ++ entry_map (rev (map decodeEntry (fs_slab st)))"

definition fold_ok :: "fold_state \<Rightarrow> bool" where
  "fold_ok st \<longleftrightarrow> sorted_file (fs_base st) \<and> slab_ok (fs_slab st) \<and> bf_wf (fs_bloom st) \<and>
     (\<forall>r \<in> set (fs_slab st). get64 (drop 48 r) < fs_seq st)"

lemma flushPass_spec:
  assumes "fold_ok st"
  shows "\<exists>st'. flushPass st = Inr st' \<and> fold_ok st' \<and> fs_slab st' = [] \<and> fold_abs st' = fold_abs st \<and>
    fs_bloom st' = fs_bloom st \<and> fs_seq st' = fs_seq st \<and> fs_total st' = fs_total st"
proof (cases "fs_slab st = []")
  case True
  then show ?thesis using assms by (simp add: flushPass_def)
next
  case False
  obtain f where "mergePass (fs_base st) (fs_slab st) = Inr f" "sorted_file f"
    "entry_map (sorted_entries f) = fold_abs st"
    using mergePass_spec [of "fs_base st" "fs_slab st"] assms by (auto simp: fold_ok_def fold_abs_def)
  with False assms show ?thesis
    by (auto simp: flushPass_def fold_ok_def slab_ok_def fold_abs_def entry_map_def)
qed

lemma slab_ok_snoc:
  assumes "slab_ok slab" "\<forall>r \<in> set slab. get64 (drop 48 r) < q" "good_delta e"
  shows "slab_ok (slab @ [foldRecord e q])"
  using assms foldRecord_simps [OF assms(3), of q]
  by (auto simp: slab_ok_def sorted_append less_imp_le good_delta_def)

lemma foldOne_spec:
  assumes "fold_ok st" "good_delta e" "unat (fs_seq st) + 1 < 2 ^ 64"
  shows "\<exists>st'. foldOne budget st e = Inr st' \<and> fold_ok st' \<and>
    fold_abs st' = (fold_abs st)(de_StrongHash e \<mapsto> locEntry e) \<and>
    bf_MayContain (fs_bloom st') (de_WeakHash e) = Some True \<and>
    (\<forall>v. bf_MayContain (fs_bloom st) v = Some True \<longrightarrow> bf_MayContain (fs_bloom st') v = Some True) \<and>
    unat (fs_seq st') = unat (fs_seq st) + 1 \<and> fs_total st' = fs_total st + 1"
proof -
  obtain b where b: "bf_Add (fs_bloom st) (de_WeakHash e) = Some b" "bf_wf b"
    "bf_MayContain b (de_WeakHash e) = Some True"
    "\<forall>v. bf_MayContain (fs_bloom st) v = Some True \<longrightarrow> bf_MayContain b v = Some True"
    using bloom.add_ok [of "fs_bloom st" "de_WeakHash e"] assms(1) by (auto simp: fold_ok_def)
  let ?st1 = "st\<lparr> fs_bloom := b \<rparr>" and ?r = "foldRecord e (fs_seq st)"
  have ok1: "fold_ok ?st1" "fold_abs ?st1 = fold_abs st" using assms(1) b(2) by (simp_all add: fold_ok_def fold_abs_def)
  obtain st2 where st2: "(if int (length (fs_slab st) * foldRecSize) + int foldRecSize > budget
      then flushPass ?st1 else Inr ?st1) = Inr st2" "fold_ok st2" "fold_abs st2 = fold_abs st"
      "fs_bloom st2 = b" "fs_seq st2 = fs_seq st" "fs_total st2 = fs_total st"
    using flushPass_spec [OF ok1(1)] ok1 by (cases "int (length (fs_slab st) * foldRecSize) + int foldRecSize > budget") auto
  let ?st' = "st2\<lparr> fs_slab := fs_slab st2 @ [?r], fs_seq := fs_seq st2 + 1, fs_total := fs_total st2 + 1 \<rparr>"
  have run: "foldOne budget st e = Inr ?st'"
    using b(1) st2(1) by (simp add: foldOne_def Let_def)
  have seq: "unat (fs_seq st + 1) = unat (fs_seq st) + 1"
    using assms(3) by (simp add: unat_word_ariths)
  then have lt: "fs_seq st < fs_seq st + 1" by (simp add: word_less_nat_alt)
  have "slab_ok (fs_slab st2 @ [?r])"
    using st2(2,5) assms(2) by (intro slab_ok_snoc) (auto simp: fold_ok_def)
  moreover have "\<forall>r \<in> set (fs_slab st2 @ [?r]). get64 (drop 48 r) < fs_seq st + 1"
    using st2(2,5) lt foldRecord_simps(3) [OF assms(2)] by (auto simp: fold_ok_def)
  ultimately have "fold_ok ?st'" using st2(2,5) by (simp add: fold_ok_def)
  moreover have "fold_abs ?st' = (fold_abs st)(de_StrongHash e \<mapsto> locEntry e)"
    using st2(3) foldRecord_simps(4) [OF assms(2)]
    by (simp add: fold_abs_def entry_map_Cons locEntry_def)
  ultimately show ?thesis using run b(3,4) st2(4-6) seq by auto
qed

lemma foldEntries_spec:
  "fold_ok st \<Longrightarrow> \<forall>e \<in> set es. good_delta e \<Longrightarrow> unat (fs_seq st) + length es < 2 ^ 64 \<Longrightarrow>
    \<exists>st'. foldEntries budget st es = Inr st' \<and> fold_ok st' \<and>
    fold_abs st' = fold_abs st ++ entry_map (rev (map locEntry es)) \<and>
    (\<forall>e \<in> set es. bf_MayContain (fs_bloom st') (de_WeakHash e) = Some True) \<and>
    (\<forall>v. bf_MayContain (fs_bloom st) v = Some True \<longrightarrow> bf_MayContain (fs_bloom st') v = Some True) \<and>
    unat (fs_seq st') = unat (fs_seq st) + length es \<and> fs_total st' = fs_total st + length es"
proof (induction es arbitrary: st)
  case Nil
  then show ?case by (simp add: entry_map_def)
next
  case (Cons e es)
  obtain st1 where st1: "foldOne budget st e = Inr st1" "fold_ok st1"
    "fold_abs st1 = (fold_abs st)(de_StrongHash e \<mapsto> locEntry e)"
    "bf_MayContain (fs_bloom st1) (de_WeakHash e) = Some True"
    "\<forall>v. bf_MayContain (fs_bloom st) v = Some True \<longrightarrow> bf_MayContain (fs_bloom st1) v = Some True"
    "unat (fs_seq st1) = unat (fs_seq st) + 1" "fs_total st1 = fs_total st + 1"
    using foldOne_spec [of st e budget] Cons.prems by auto
  obtain st2 where st2: "foldEntries budget st1 es = Inr st2" "fold_ok st2"
    "fold_abs st2 = fold_abs st1 ++ entry_map (rev (map locEntry es))"
    "\<forall>e \<in> set es. bf_MayContain (fs_bloom st2) (de_WeakHash e) = Some True"
    "\<forall>v. bf_MayContain (fs_bloom st1) v = Some True \<longrightarrow> bf_MayContain (fs_bloom st2) v = Some True"
    "unat (fs_seq st2) = unat (fs_seq st1) + length es" "fs_total st2 = fs_total st1 + length es"
    using Cons.IH [OF st1(2)] Cons.prems st1(6) by auto
  have "fold_abs st2 = fold_abs st ++ entry_map (rev (map locEntry (e # es)))"
    using st1(3) st2(3) by (simp add: entry_map_append entry_map_single locEntry_def map_add_upd_left)
  then show ?case using st1 st2 by auto
qed

lemma Marshal_stream:
  assumes "\<And>d. length (sha d) = 32" "\<forall>e \<in> set es. wf_delta_entry e" "length es < 2 ^ 64"
  shows "ValidateDeltaFile sha (Marshal sha es) = None" "streamDeltaRecords (Marshal sha es) = (es, None)"
proof -
  let ?p = "concat (map EncodeDeltaEntry es)" and ?c = "of_nat (length es) :: u64"
  have len: "length ?p = length es * 56" by (rule payload_length [OF assms(2)])
  have "of_nat (length ?p) = ?c * (56 :: u64)" by (simp add: len)
  then show "ValidateDeltaFile sha (Marshal sha es) = None"
    unfolding Marshal_header by (intro deltaFileHeader_header(2)) (simp_all add: assms(1))
  have "streamLoop ?p (length es) = (es, None)"
    using streamLoop_all [OF len] payload_records [OF assms(2)] by simp
  then show "streamDeltaRecords (Marshal sha es) = (es, None)"
    unfolding Marshal_header using streamDelta_header [of "sha ?p" ?c ?p] assms(1,3)
    by (simp add: unat_of_nat)
qed

lemma foldFiles_concat:
  "\<forall>f \<in> set fs. snd (streamDeltaRecords f) = None \<Longrightarrow>
     foldFiles budget st fs = foldEntries budget st (concat (map (fst \<circ> streamDeltaRecords) fs))"
proof (induction fs arbitrary: st)
  case (Cons f fs)
  have app: "foldEntries budget st (xs @ ys) =
      (case foldEntries budget st xs of Inl err \<Rightarrow> Inl err | Inr st' \<Rightarrow> foldEntries budget st' ys)" for st xs ys
    by (induction xs arbitrary: st) (auto split: sum.splits)
  from Cons show ?case by (auto simp: app split: sum.splits prod.splits)
qed simp

lemma foldFiles_marshalled:
  assumes "\<And>d. length (sha d) = 32" "\<forall>e \<in> set (concat ess). good_delta e" "length (concat ess) < 2 ^ 64"
  shows "List.find (\<lambda>f. ValidateDeltaFile sha f \<noteq> None) (map (Marshal sha) ess) = None"
    and "foldFiles budget st (map (Marshal sha) ess) = foldEntries budget st (concat ess)"
proof -
  have "length es \<le> length (concat ess)" if "es \<in> set ess" for es
    using that by (induction ess) auto
  then have "length es < 2 ^ 64" if "es \<in> set ess" for es using that assms(3) le_less_trans by blast
  then have *: "ValidateDeltaFile sha (Marshal sha es) = None" "streamDeltaRecords (Marshal sha es) = (es, None)"
    if "es \<in> set ess" for es
    using that assms(2) Marshal_stream [of sha es, OF assms(1)] by (auto simp: good_delta_def)
  then show "List.find (\<lambda>f. ValidateDeltaFile sha f \<noteq> None) (map (Marshal sha) ess) = None"
    by (auto simp: find_None_iff)
  have "map (fst \<circ> streamDeltaRecords) (map (Marshal sha) ess) = ess"
    using * by (auto intro: map_idI)
  then show "foldFiles budget st (map (Marshal sha) ess) = foldEntries budget st (concat ess)"
    using foldFiles_concat [of "map (Marshal sha) ess" budget st] * by auto
qed

lemma flushPass_bloom: "flushPass st = Inr st' \<Longrightarrow> fs_bloom st' = fs_bloom st"
  by (auto simp: flushPass_def split: if_splits sum.splits)

lemma foldEntries_bloom:
  "foldEntries budget st es = Inr st' \<Longrightarrow> add_all bf_Add (fs_bloom st) (map de_WeakHash es) = Some (fs_bloom st')"
proof (induction es arbitrary: st)
  case (Cons e es)
  then obtain st1 where st1: "foldOne budget st e = Inr st1" "foldEntries budget st1 es = Inr st'"
    by (auto split: sum.splits)
  then have "bf_Add (fs_bloom st) (de_WeakHash e) = Some (fs_bloom st1)"
    by (auto simp: foldOne_def Let_def dest!: flushPass_bloom split: option.splits sum.splits if_splits)
  with Cons.IH [OF st1(2)] show ?case by simp
qed simp

lemma FoldDeltas_spec:
  assumes sha: "\<And>d. length (sha d) = 32" and base: "sorted_file base"
    and bloom: "(case bloomFile of None \<Rightarrow> Inr (NewBloomFilter est n) | Some b \<Rightarrow> LoadBloomFilter b) = Inr bf"
    and es: "\<forall>e \<in> set (concat ess). good_delta e" "length (concat ess) < 2 ^ 64"
  shows "\<exists>f bl bf'.
    FoldDeltasStreamedWithBudget sha est (map (Marshal sha) ess) base bloomFile n budget
      = Inr (f, bl, length (concat ess)) \<and>
    sorted_file f \<and>
    entry_map (sorted_entries f) = entry_map (sorted_entries base) ++ entry_map (rev (map locEntry (concat ess))) \<and>
    LoadBloomFilter bl = Inr bf' \<and> add_all bf_Add bf (map de_WeakHash (concat ess)) = Some bf' \<and>
    (\<forall>e \<in> set (concat ess). bf_MayContain bf' (de_WeakHash e) = Some True) \<and>
    (\<forall>v. bf_MayContain bf v = Some True \<longrightarrow> bf_MayContain bf' v = Some True)"
proof -
  define st where "st = \<lparr> fs_base = base, fs_bloom = bf, fs_slab = [], fs_seq = 0, fs_total = 0 \<rparr>"
  define bud where "bud = (if budget \<le> 0 then DefaultFoldBatchBudget else budget)"
  have "bf_wf bf" using bloom NewBloomFilter_wf LoadBloomFilter_wf by (auto split: option.splits)
  then have "fold_ok st" using base by (simp add: st_def fold_ok_def slab_ok_def)
  moreover have "unat (fs_seq st) + length (concat ess) < 2 ^ 64" using es(2) by (simp add: st_def)
  ultimately obtain st1 where st1: "foldEntries bud st (concat ess) = Inr st1" "fold_ok st1"
    "fold_abs st1 = fold_abs st ++ entry_map (rev (map locEntry (concat ess)))"
    "\<forall>e \<in> set (concat ess). bf_MayContain (fs_bloom st1) (de_WeakHash e) = Some True"
    "\<forall>v. bf_MayContain (fs_bloom st) v = Some True \<longrightarrow> bf_MayContain (fs_bloom st1) v = Some True"
    "fs_total st1 = fs_total st + length (concat ess)"
    using foldEntries_spec [of st "concat ess" bud] es(1) by blast
  obtain st2 where st2: "flushPass st1 = Inr st2" "fold_ok st2" "fs_slab st2 = []" "fold_abs st2 = fold_abs st1"
    "fs_bloom st2 = fs_bloom st1" "fs_total st2 = fs_total st1"
    using flushPass_spec [OF st1(2)] by blast
  have "FoldDeltasStreamedWithBudget sha est (map (Marshal sha) ess) base bloomFile n budget
      = Inr (fs_base st2, bf_Save (fs_bloom st2), fs_total st2)"
    using bloom foldFiles_marshalled(1) [of sha ess, OF sha es] foldFiles_marshalled(2) [of sha ess bud st, OF sha es] st1(1) st2(1)
    by (auto simp: FoldDeltasStreamedWithBudget_def Let_def bud_def st_def split: option.splits)
  moreover have "LoadBloomFilter (bf_Save (fs_bloom st2)) = Inr (fs_bloom st2)"
    using st2(2) by (intro Load_Save) (simp add: fold_ok_def)
  moreover have "entry_map (sorted_entries (fs_base st2)) =
      entry_map (sorted_entries base) ++ entry_map (rev (map locEntry (concat ess)))"
    using st1(3) st2(3,4) by (simp add: fold_abs_def st_def entry_map_def)
  moreover have "add_all bf_Add bf (map de_WeakHash (concat ess)) = Some (fs_bloom st2)"
    using foldEntries_bloom [OF st1(1)] st2(5) by (simp add: st_def)
  ultimately show ?thesis
    using st1(4-6) st2(2,5,6) by (intro exI conjI) (auto simp: fold_ok_def st_def)
qed

section \<open>Filtering the sorted file\<close>

lemma FilterSortedIndex_records:
  "48 dvd length f \<Longrightarrow>
     FilterSortedIndex keep f = Inr (concat (filter (\<lambda>r. keep (PackNumber (decodeEntry r))) (records 48 f)))"
proof (induction keep f rule: FilterSortedIndex.induct)
  case (1 keep f)
  show ?case
  proof (cases "f = []")
    case False
    then have len: "\<not> length f < 48" using "1.prems" by (auto dest: dvd_imp_le)
    moreover have "48 dvd length (drop 48 f)" using "1.prems" len by simp
    moreover have "records 48 f = take 48 f # records 48 (drop 48 f)" using len by (subst records.simps) simp
    ultimately show ?thesis
      using 1 False by (subst FilterSortedIndex.simps) (simp add: EntrySize_def decodeEntry_def)
  qed (simp add: FilterSortedIndex.simps)
qed

lemma FilterSortedIndex_fragment:
  "\<not> 48 dvd length f \<Longrightarrow> FilterSortedIndex keep f = Inl FoldTruncatedBase"
proof (induction keep f rule: FilterSortedIndex.induct)
  case (1 keep f)
  then have "f \<noteq> []" by auto
  moreover have "\<not> 48 dvd length (drop 48 f)" if "\<not> length f < 48"
    using "1.prems" that by (simp add: dvd_minus_self)
  ultimately show ?case
    using "1.IH" by (subst FilterSortedIndex.simps) (simp add: EntrySize_def)
qed

lemma sorted_file_filter:
  assumes "sorted_file f" "g = concat (filter P (records 48 f))"
  shows "sorted_file g" "records 48 g = filter P (records 48 f)"
proof -
  have len: "\<forall>r \<in> set (filter P (records 48 f)). length r = 48" by (auto dest: records_lengths)
  then show rec: "records 48 g = filter P (records 48 f)"
    unfolding assms(2) by (intro records_concat_exact) auto
  have "48 dvd length g" unfolding assms(2) using len by (simp add: length_concat_const [of _ 48])
  then show "sorted_file g"
    using assms(1) unfolding sorted_file_records rec by (simp add: sorted_filter distinct_map_filter)
qed

section \<open>Properties\<close>



text \<open>
  C39: The garbage collector's filter of the sorted index keeps exactly the entries whose
  pack is kept, in order, so the result is again a sorted index; a file that is not a whole
  number of entries is refused.
\<close>

theorem filter_keeps_packs:
  "(sorted_file f \<longrightarrow> (\<exists>g. FilterSortedIndex keep f = Inr g \<and> sorted_file g \<and>
      sorted_entries g = filter (\<lambda>e. keep (PackNumber e)) (sorted_entries f))) \<and>
   (\<not> 48 dvd length f \<longrightarrow> FilterSortedIndex keep f = Inl FoldTruncatedBase)"
proof (intro conjI impI)
  assume f: "sorted_file f"
  let ?g = "concat (filter (\<lambda>r. keep (PackNumber (decodeEntry r))) (records 48 f))"
  have "FilterSortedIndex keep f = Inr ?g"
    using f by (intro FilterSortedIndex_records) (simp add: sorted_file_def)
  moreover have "sorted_entries ?g = filter (\<lambda>e. keep (PackNumber e)) (sorted_entries f)"
    using sorted_file_filter(2) [OF f refl] by (simp add: sorted_entries_def EntrySize_def filter_map o_def)
  ultimately show "\<exists>g. FilterSortedIndex keep f = Inr g \<and> sorted_file g \<and>
      sorted_entries g = filter (\<lambda>e. keep (PackNumber e)) (sorted_entries f)"
    using sorted_file_filter(1) [OF f refl] by blast
qed (rule FilterSortedIndex_fragment)

theorem filter_keeps_packs_witness:
  "\<exists>g. FilterSortedIndex (\<lambda>p. p \<noteq> 1) (encodeEntry sample_entry) = Inr g \<and>
     sorted_entries g = filter (\<lambda>e. PackNumber e \<noteq> 1) [sample_entry]"
  using filter_keeps_packs [of "encodeEntry sample_entry" "\<lambda>p. p \<noteq> 1"] sorted_file_sample
  by (auto simp: sorted_entries_sample)

end
