(* ===== verification/Dedup.thy ===== *)
theory Dedup
  imports Fold_Correct "HOL-Library.Char_ord"
begin

text \<open>
  The two-tier dedup index of \<^verbatim>\<open>core/index/dedup.go\<close>, with the merge of pending deltas at
  open (\<^verbatim>\<open>deltaapply.go\<close>) and the capture journal (\<^verbatim>\<open>deltacapture.go\<close>).  The index directory
  is a record of file contents; an operation returns its error, if any, and the directory
  it leaves.  The nonces of the encrypted files are arguments.
\<close>

section \<open>Model\<close>

text \<open>
  \<open>dir_deltas\<close> are the files of the \<^verbatim>\<open>deltas\<close> subdirectory; \<open>dir_journal\<close> is the capture
  journal, whose path the caller chooses.
\<close>

record IndexDir =
  dir_bloom :: "bytes option"
  dir_bloomEnc :: "bytes option"
  dir_index :: "bytes option"
  dir_indexEnc :: "bytes option"
  dir_deltas :: "(string \<times> bytes) list"
  dir_journal :: "bytes option"
  dir_journalEnc :: "bytes option"

datatype dx_error =
    DxEncryptedNoKey
  | DxCrypto crypto_error
  | DxBloomFile bloom_error
  | DxIndex hi_error
  | DxDelta delta_error
  | DxDeltaNoKey
  | DxArmed
  | DxJournalIncomplete
  | DxPanicBloom

record DedupIndex =
  dx_bloom :: BloomFilter
  dx_index :: HashIndex
  dx_key :: "MasterKey option"
  dx_bloomMissing :: bool
  dx_delta :: "deltaCapture option"

record DedupResult =
  IsNew :: bool
  Entry :: "IndexEntry option"
  BloomHit :: bool
  BloomMiss :: bool

definition refuseEncryptedWithoutKey :: "IndexDir \<Rightarrow> dx_error option" where
  "refuseEncryptedWithoutKey dir =
     (if dir_indexEnc dir \<noteq> None then Some DxEncryptedNoKey
      else if dir_bloomEnc dir \<noteq> None then Some DxEncryptedNoKey
      else None)"

text \<open>The plaintext working copies of an encrypted index.\<close>

definition decryptBloom :: "prims \<Rightarrow> MasterKey \<Rightarrow> IndexDir \<Rightarrow> dx_error option \<times> IndexDir" where
  "decryptBloom P mk dir =
     (case dir_bloomEnc dir of
        None \<Rightarrow> (None, dir)
      | Some c \<Rightarrow>
          (case DecryptFile P mk c of
             Inl err \<Rightarrow> (Some (DxCrypto err), dir)
           | Inr plain \<Rightarrow> (None, dir\<lparr> dir_bloom := Some plain \<rparr>)))"

definition decryptIndex :: "prims \<Rightarrow> MasterKey \<Rightarrow> IndexDir \<Rightarrow> dx_error option \<times> IndexDir" where
  "decryptIndex P mk dir =
     (case dir_indexEnc dir of
        None \<Rightarrow> (None, dir)
      | Some c \<Rightarrow>
          (case DecryptFile P mk c of
             Inl err \<Rightarrow> (Some (DxCrypto err), dir)
           | Inr plain \<Rightarrow> (None, dir\<lparr> dir_index := Some plain \<rparr>)))"

definition workingCopies :: "prims \<Rightarrow> MasterKey option \<Rightarrow> IndexDir \<Rightarrow> dx_error option \<times> IndexDir" where
  "workingCopies P key dir =
     (case key of
        None \<Rightarrow> (refuseEncryptedWithoutKey dir, dir)
      | Some mk \<Rightarrow>
          (case decryptBloom P mk dir of
             (Some err, dir1) \<Rightarrow> (Some err, dir1)
           | (None, dir1) \<Rightarrow> decryptIndex P mk dir1))"

definition openBloom :: "(u64 \<Rightarrow> u64) \<Rightarrow> u64 \<Rightarrow> MasterKey option \<Rightarrow> IndexDir
    \<Rightarrow> (dx_error + BloomFilter \<times> bool) \<times> IndexDir" where
  "openBloom est expectedChunks key dir =
     (case dir_bloom dir of
        Some data \<Rightarrow>
          (case LoadBloomFilter data of
             Inl err \<Rightarrow> (Inl (DxBloomFile err), dir)
           | Inr bf \<Rightarrow> (Inr (bf, False), if key = None then dir else dir\<lparr> dir_bloom := None \<rparr>))
      | None \<Rightarrow> (Inr (NewBloomFilter est expectedChunks, True), dir))"

definition insertNoCapture :: "DedupIndex \<Rightarrow> ChunkID \<Rightarrow> u32 \<Rightarrow> u64 \<Rightarrow> u32 \<Rightarrow> dx_error + DedupIndex" where
  "insertNoCapture d cid packNumber storeOffset chunkLength =
     (case bf_Add (dx_bloom d) (WeakHash cid) of
        None \<Rightarrow> Inl DxPanicBloom
      | Some bf \<Rightarrow>
          Inr (d\<lparr> dx_bloom := bf,
                  dx_index := hi_Insert (dx_index d) (StrongHash_id cid) packNumber storeOffset chunkLength \<rparr>))"

fun ApplyTo :: "DeltaEntry list \<Rightarrow> DedupIndex \<Rightarrow> dx_error + DedupIndex" where
  "ApplyTo [] d = Inr d"
| "ApplyTo (e # es) d =
     (case insertNoCapture d \<lparr> WeakHash = de_WeakHash e, StrongHash_id = de_StrongHash e \<rparr>
             (de_PackNumber e) (de_StoreOffset e) (de_ChunkLength e) of
        Inl err \<Rightarrow> Inl err
      | Inr d' \<Rightarrow> ApplyTo es d')"

definition HasSuffix :: "string \<Rightarrow> string \<Rightarrow> bool" where
  "HasSuffix s suf \<longleftrightarrow> length suf \<le> length s \<and> drop (length s - length suf) s = suf"

definition deltaSuffix :: string where
  "deltaSuffix = ''.delta''"

definition deltaEncSuffix :: string where
  "deltaEncSuffix = ''.delta.enc''"

definition deltaObjectNames :: "(string \<times> bytes) list \<Rightarrow> string list" where
  "deltaObjectNames files =
     sort (filter (\<lambda>n. HasSuffix n deltaSuffix \<or> HasSuffix n deltaEncSuffix) (map fst files))"

definition readDeltaObject :: "prims \<Rightarrow> MasterKey option \<Rightarrow> string \<Rightarrow> bytes \<Rightarrow> dx_error + bytes" where
  "readDeltaObject P key path content =
     (if \<not> HasSuffix path deltaEncSuffix then Inr content
      else case key of
             None \<Rightarrow> Inl DxDeltaNoKey
           | Some mk \<Rightarrow> map_sum DxCrypto id (DecryptFile P mk content))"

fun applyDeltaFiles :: "prims \<Rightarrow> (string \<times> bytes) list \<Rightarrow> string list \<Rightarrow> DedupIndex \<Rightarrow> nat
    \<Rightarrow> dx_error + nat \<times> DedupIndex" where
  "applyDeltaFiles P files [] d cnt = Inr (cnt, d)"
| "applyDeltaFiles P files (n # ns) d cnt =
     (case readDeltaObject P (dx_key d) n (the (map_of files n)) of
        Inl err \<Rightarrow> Inl err
      | Inr blob \<Rightarrow>
          (case ParseDelta (sha256 P) blob of
             Inl err \<Rightarrow> Inl (DxDelta err)
           | Inr es \<Rightarrow>
               (case ApplyTo es d of
                  Inl err \<Rightarrow> Inl err
                | Inr d' \<Rightarrow> applyDeltaFiles P files ns d' (cnt + length es))))"

definition applyPendingDeltas :: "prims \<Rightarrow> IndexDir \<Rightarrow> bool \<Rightarrow> DedupIndex \<Rightarrow> dx_error + nat \<times> DedupIndex" where
  "applyPendingDeltas P dir baseWasEmpty d =
     (case applyDeltaFiles P (dir_deltas dir) (deltaObjectNames (dir_deltas dir)) d 0 of
        Inl err \<Rightarrow> Inl err
      | Inr (cnt, d') \<Rightarrow>
          Inr (cnt, if cnt > 0 \<and> baseWasEmpty then d'\<lparr> dx_bloomMissing := False \<rparr> else d'))"

text \<open>
  Both ways to open: \<open>readOnly\<close> skips the hash table and forgets that the bloom file was
  missing.  Opening creates an empty \<^verbatim>\<open>hash-index.db\<close> when there is none.
\<close>

definition openDedup :: "prims \<Rightarrow> (nat list \<Rightarrow> nat list) \<Rightarrow> (u64 \<Rightarrow> u64) \<Rightarrow> bool \<Rightarrow> IndexDir \<Rightarrow> u64
    \<Rightarrow> MasterKey option \<Rightarrow> (dx_error + DedupIndex) \<times> IndexDir" where
  "openDedup P sperm est readOnly dir expectedChunks key =
     (case workingCopies P key dir of
        (Some err, dir1) \<Rightarrow> (Inl err, dir1)
      | (None, dir1) \<Rightarrow>
          (case openBloom est expectedChunks key dir1 of
             (Inl err, dir2) \<Rightarrow> (Inl err, dir2)
           | (Inr (bf, missing), dir2) \<Rightarrow>
               let disk = (case dir_index dir2 of None \<Rightarrow> [] | Some f \<Rightarrow> f);
                   dir3 = dir2\<lparr> dir_index := Some disk \<rparr>
               in case NewHashIndex sperm disk readOnly of
                    Inl err \<Rightarrow> (Inl (DxIndex err), dir3)
                  | Inr idx \<Rightarrow>
                      let d = \<lparr> dx_bloom = bf, dx_index = idx, dx_key = key,
                                dx_bloomMissing = (missing \<and> \<not> readOnly), dx_delta = None \<rparr>
                      in case applyPendingDeltas P dir3 (hi_diskSize idx = 0) d of
                           Inl err \<Rightarrow> (Inl err, dir3)
                         | Inr (cnt, d') \<Rightarrow> (Inr d', dir3)))"

definition NewDedupIndex :: "prims \<Rightarrow> (nat list \<Rightarrow> nat list) \<Rightarrow> (u64 \<Rightarrow> u64) \<Rightarrow> IndexDir \<Rightarrow> u64
    \<Rightarrow> MasterKey option \<Rightarrow> (dx_error + DedupIndex) \<times> IndexDir" where
  "NewDedupIndex P sperm est dir expectedChunks key = openDedup P sperm est False dir expectedChunks key"

definition NewDedupIndexReadOnly :: "prims \<Rightarrow> (nat list \<Rightarrow> nat list) \<Rightarrow> (u64 \<Rightarrow> u64) \<Rightarrow> IndexDir \<Rightarrow> u64
    \<Rightarrow> MasterKey option \<Rightarrow> (dx_error + DedupIndex) \<times> IndexDir" where
  "NewDedupIndexReadOnly P sperm est dir expectedChunks key = openDedup P sperm est True dir expectedChunks key"

definition BloomSuspect :: "DedupIndex \<Rightarrow> bool" where
  "BloomSuspect d \<longleftrightarrow> dx_bloomMissing d \<and> hi_Count (dx_index d) > 0"

definition Check :: "DedupIndex \<Rightarrow> ChunkID \<Rightarrow> dx_error + DedupResult" where
  "Check d cid =
     (case bf_MayContain (dx_bloom d) (WeakHash cid) of
        None \<Rightarrow> Inl DxPanicBloom
      | Some False \<Rightarrow> Inr \<lparr> IsNew = True, Entry = None, BloomHit = False, BloomMiss = True \<rparr>
      | Some True \<Rightarrow>
          (case hi_Lookup (dx_index d) (StrongHash_id cid) of
             Inl err \<Rightarrow> Inl (DxIndex err)
           | Inr (Some e) \<Rightarrow> Inr \<lparr> IsNew = False, Entry = Some e, BloomHit = True, BloomMiss = False \<rparr>
           | Inr None \<Rightarrow> Inr \<lparr> IsNew = True, Entry = None, BloomHit = True, BloomMiss = False \<rparr>))"

section \<open>The capture journal\<close>

definition CaptureDelta :: "DedupIndex \<Rightarrow> IndexDir \<Rightarrow> dx_error option \<times> DedupIndex \<times> IndexDir" where
  "CaptureDelta d dir =
     (case dx_delta d of
        Some c \<Rightarrow> (Some DxArmed, d, dir)
      | None \<Rightarrow> (None, d\<lparr> dx_delta := Some newCapture \<rparr>, dir\<lparr> dir_journal := Some (captureFile newCapture) \<rparr>))"

definition dx_DeltaEntryCount :: "DedupIndex \<Rightarrow> u64" where
  "dx_DeltaEntryCount d = (case dx_delta d of None \<Rightarrow> 0 | Some c \<Rightarrow> dc_count c)"

definition captureInsert :: "DedupIndex \<Rightarrow> ChunkID \<Rightarrow> u32 \<Rightarrow> u64 \<Rightarrow> u32 \<Rightarrow> DedupIndex" where
  "captureInsert d cid packNumber storeOffset chunkLength =
     (case dx_delta d of
        None \<Rightarrow> d
      | Some c \<Rightarrow>
          d\<lparr> dx_delta := Some (captureAppend c
               \<lparr> de_StrongHash = StrongHash_id cid, de_WeakHash = WeakHash cid, de_PackNumber = packNumber,
                 de_StoreOffset = storeOffset, de_ChunkLength = chunkLength \<rparr>) \<rparr>)"

definition dx_Insert :: "DedupIndex \<Rightarrow> ChunkID \<Rightarrow> u32 \<Rightarrow> u64 \<Rightarrow> u32 \<Rightarrow> dx_error + DedupIndex" where
  "dx_Insert d cid packNumber storeOffset chunkLength =
     map_sum id (\<lambda>d'. captureInsert d' cid packNumber storeOffset chunkLength)
       (insertNoCapture d cid packNumber storeOffset chunkLength)"

definition encryptCapturedDelta :: "prims \<Rightarrow> bytes \<Rightarrow> MasterKey option \<Rightarrow> IndexDir \<Rightarrow> dx_error option \<times> IndexDir" where
  "encryptCapturedDelta P nonce key dir =
     (case key of
        None \<Rightarrow> (None, dir)
      | Some mk \<Rightarrow>
          (case EncryptFile P mk nonce (the (dir_journal dir)) of
             Inl err \<Rightarrow> (Some (DxCrypto err), dir)
           | Inr c \<Rightarrow> (None, dir\<lparr> dir_journalEnc := Some c \<rparr>)))"

definition WriteDeltaObject :: "prims \<Rightarrow> bytes \<Rightarrow> DedupIndex \<Rightarrow> IndexDir
    \<Rightarrow> dx_error option \<times> DedupIndex \<times> IndexDir" where
  "WriteDeltaObject P nonce d dir =
     (case dx_delta d of
        None \<Rightarrow> (None, d, dir)
      | Some c \<Rightarrow>
          (case stampHeader (sha256 P) c of
             None \<Rightarrow> (Some DxJournalIncomplete, d, dir)
           | Some c' \<Rightarrow>
               let d' = d\<lparr> dx_delta := Some c' \<rparr>;
                   dir' = dir\<lparr> dir_journal := Some (captureFile c') \<rparr>
               in if dc_count c' = 0 then (None, d', dir')
                  else let (err, dir'') = encryptCapturedDelta P nonce (dx_key d) dir' in (err, d', dir'')))"

definition closeDelta :: "prims \<Rightarrow> bytes \<Rightarrow> bool \<Rightarrow> DedupIndex \<Rightarrow> IndexDir
    \<Rightarrow> dx_error option \<times> DedupIndex \<times> IndexDir" where
  "closeDelta P nonce discard d dir =
     (case dx_delta d of
        None \<Rightarrow> (None, d, dir)
      | Some c \<Rightarrow>
          let d' = d\<lparr> dx_delta := None \<rparr> in
          if discard then (None, d', dir\<lparr> dir_journal := None, dir_journalEnc := None \<rparr>)
          else let (err, _, dir1) = WriteDeltaObject P nonce d dir in
               if err = None \<and> dc_count c = 0 then (None, d', dir1\<lparr> dir_journal := None \<rparr>)
               else if err = None \<and> dx_key d \<noteq> None then (err, d', dir1\<lparr> dir_journal := None \<rparr>)
               else (err, d', dir1))"

section \<open>Flushing and closing\<close>

text \<open>The random nonces of the files a close may encrypt: bloom, index, and the journal twice.\<close>

type_synonym nonces = "nat \<Rightarrow> bytes"

definition flushEncrypt :: "prims \<Rightarrow> nonces \<Rightarrow> MasterKey \<Rightarrow> IndexDir \<Rightarrow> dx_error option \<times> IndexDir" where
  "flushEncrypt P ns mk dir =
     (case EncryptFile P mk (ns 0) (the (dir_bloom dir)) of
        Inl err \<Rightarrow> (Some (DxCrypto err), dir)
      | Inr c \<Rightarrow>
          let dir1 = dir\<lparr> dir_bloomEnc := Some c, dir_bloom := None \<rparr> in
          (case EncryptFile P mk (ns 1) (the (dir_index dir1)) of
             Inl err \<Rightarrow> (Some (DxCrypto err), dir1)
           | Inr c' \<Rightarrow> (None, dir1\<lparr> dir_indexEnc := Some c' \<rparr>)))"

definition dx_Flush :: "prims \<Rightarrow> (nat list \<Rightarrow> nat list) \<Rightarrow> nonces \<Rightarrow> DedupIndex \<Rightarrow> IndexDir
    \<Rightarrow> dx_error option \<times> DedupIndex \<times> IndexDir" where
  "dx_Flush P sperm ns d dir =
     (let dir1 = dir\<lparr> dir_bloom := Some (bf_Save (dx_bloom d)) \<rparr>;
          (err, idx) = hi_Flush sperm (dx_index d);
          d1 = d\<lparr> dx_index := idx \<rparr>;
          dir2 = dir1\<lparr> dir_index := Some (hi_disk idx) \<rparr>
      in case err of
           Some e \<Rightarrow> (Some (DxIndex e), d1, dir2)
         | None \<Rightarrow>
             (case (case dx_key d of None \<Rightarrow> (None, dir2) | Some mk \<Rightarrow> flushEncrypt P ns mk dir2) of
                (Some e, dir3) \<Rightarrow> (Some e, d1, dir3)
              | (None, dir3) \<Rightarrow> WriteDeltaObject P (ns 2) d1 dir3))"

definition dx_CloseDiscard :: "prims \<Rightarrow> DedupIndex \<Rightarrow> IndexDir \<Rightarrow> DedupIndex \<times> IndexDir" where
  "dx_CloseDiscard P d dir =
     (let (_, d1, dir1) = closeDelta P [] True d dir;
          d2 = d1\<lparr> dx_index := hi_CloseDiscard (dx_index d1) \<rparr>
      in (d2, if dx_key d = None then dir1 else dir1\<lparr> dir_bloom := None, dir_index := None \<rparr>))"

definition closeIndex :: "(nat list \<Rightarrow> nat list) \<Rightarrow> DedupIndex \<Rightarrow> IndexDir \<Rightarrow> hi_error option \<times> DedupIndex \<times> IndexDir" where
  "closeIndex sperm d dir =
     (let (err, idx) = hi_Close sperm (dx_index d)
      in (err, d\<lparr> dx_index := idx \<rparr>, dir\<lparr> dir_index := Some (hi_disk idx) \<rparr>))"

definition dx_Close :: "prims \<Rightarrow> (nat list \<Rightarrow> nat list) \<Rightarrow> nonces \<Rightarrow> DedupIndex \<Rightarrow> IndexDir
    \<Rightarrow> dx_error option \<times> DedupIndex \<times> IndexDir" where
  "dx_Close P sperm ns d dir =
     (case dx_Flush P sperm ns d dir of
        (Some err, d1, dir1) \<Rightarrow>
          let (_, d2, dir2) = closeDelta P (ns 3) True d1 dir1;
              (_, d3, dir3) = closeIndex sperm d2 dir2
          in (Some err, d3, dir3)
      | (None, d1, dir1) \<Rightarrow>
          (case closeDelta P (ns 3) False d1 dir1 of
             (Some err, d2, dir2) \<Rightarrow> let (_, d3, dir3) = closeIndex sperm d2 dir2 in (Some err, d3, dir3)
           | (None, d2, dir2) \<Rightarrow>
               let (err, d3, dir3) = closeIndex sperm d2 dir2
               in (map_option DxIndex err, d3,
                   if dx_key d = None then dir3 else dir3\<lparr> dir_index := None \<rparr>)))"

definition FlushHashIndex :: "DedupIndex \<Rightarrow> dx_error + DedupIndex" where
  "FlushHashIndex d = map_sum DxIndex (\<lambda>idx. d\<lparr> dx_index := idx \<rparr>) (FlushDelta (dx_index d))"

definition LookupDirect :: "DedupIndex \<Rightarrow> bytes \<Rightarrow> dx_error + IndexEntry option" where
  "LookupDirect d strongHash = map_sum DxIndex id (hi_Lookup (dx_index d) strongHash)"

definition ReadAllEntries :: "(nat list \<Rightarrow> nat list) \<Rightarrow> DedupIndex \<Rightarrow> (dx_error + IndexEntry list) \<times> DedupIndex" where
  "ReadAllEntries sperm d =
     (let (err, idx) = hi_Flush sperm (dx_index d); d' = d\<lparr> dx_index := idx \<rparr>
      in case err of
           Some e \<Rightarrow> (Inl (DxIndex e), d')
         | None \<Rightarrow> (map_sum DxIndex id (hi_ReadAll idx), d'))"

record Stats =
  TotalChunks :: u64
  st_BloomSizeBytes :: u64
  BloomItems :: u64
  IndexEntries :: u64

definition dx_Stats :: "DedupIndex \<Rightarrow> Stats" where
  "dx_Stats d =
     \<lparr> TotalChunks = hi_Count (dx_index d), st_BloomSizeBytes = bf_SizeBytes (dx_bloom d),
       BloomItems = bf_Count (dx_bloom d), IndexEntries = hi_Count (dx_index d) \<rparr>"

end
