(* ===== verification/Dedup_Correct.thy ===== *)
theory Dedup_Correct
  imports Dedup
begin

text \<open>
  Correctness of the dedup index: what the two tiers answer after any session, what a
  closed index leaves on disk, and that merging pending deltas at open is the same as
  folding them first.
\<close>

section \<open>One index in memory\<close>

definition dx_wf :: "DedupIndex \<Rightarrow> bool" where
  "dx_wf d \<longleftrightarrow> hi_wf (dx_index d) \<and> bf_wf (dx_bloom d)"

definition good_id :: "ChunkID \<Rightarrow> bool" where
  "good_id cid \<longleftrightarrow> length (StrongHash_id cid) = 32 \<and> StrongHash_id cid \<noteq> zeroHash"

definition chunk_delta :: "ChunkID \<Rightarrow> u32 \<Rightarrow> u64 \<Rightarrow> u32 \<Rightarrow> DeltaEntry" where
  "chunk_delta cid p off len = \<lparr> de_StrongHash = StrongHash_id cid, de_WeakHash = WeakHash cid,
     de_PackNumber = p, de_StoreOffset = off, de_ChunkLength = len \<rparr>"

lemma good_chunk_delta: "good_delta (chunk_delta cid p off len) \<longleftrightarrow> good_id cid"
  by (simp add: good_delta_def wf_delta_entry_def chunk_delta_def good_id_def)

text \<open>What one insert, captured or not, does to both tiers.\<close>

definition tier_step :: "DedupIndex \<Rightarrow> DeltaEntry list \<Rightarrow> DedupIndex \<Rightarrow> bool" where
  "tier_step d es d' \<longleftrightarrow>
     dx_wf d' \<and> hi_abs (dx_index d') = hi_abs (dx_index d) ++ entry_map (rev (map locEntry es)) \<and>
     add_all bf_Add (dx_bloom d) (map de_WeakHash es) = Some (dx_bloom d') \<and>
     hi_total (dx_index d') \<le> hi_total (dx_index d) + length es \<and>
     hi_noHtab (dx_index d') = hi_noHtab (dx_index d) \<and> dx_key d' = dx_key d \<and>
     dx_bloomMissing d' = dx_bloomMissing d"

lemma insertNoCapture_ok:
  assumes "dx_wf d" "good_id cid"
  shows "\<exists>d'. insertNoCapture d cid p off len = Inr d' \<and> tier_step d [chunk_delta cid p off len] d'"
proof -
  obtain bf where bf: "bf_Add (dx_bloom d) (WeakHash cid) = Some bf" "bf_wf bf"
    using assms(1) bloom.add_ok [of "dx_bloom d" "WeakHash cid"] by (auto simp: dx_wf_def)
  moreover have "hi_wf (hi_Insert (dx_index d) (StrongHash_id cid) p off len)"
    "hi_abs (hi_Insert (dx_index d) (StrongHash_id cid) p off len) =
      (hi_abs (dx_index d))(StrongHash_id cid \<mapsto> locEntry (chunk_delta cid p off len))"
    using assms hi_Insert_abs [of "dx_index d" "StrongHash_id cid" p off len]
    by (simp_all add: dx_wf_def good_id_def locEntry_def chunk_delta_def)
  ultimately show ?thesis
    using insert_total [of "dx_index d" "StrongHash_id cid" p off len]
    by (simp add: insertNoCapture_def tier_step_def dx_wf_def entry_map_single locEntry_def chunk_delta_def hi_Insert_def)
qed

lemma add_all_append:
  "add_all add f (xs @ ys) = (case add_all add f xs of None \<Rightarrow> None | Some f' \<Rightarrow> add_all add f' ys)"
  by (induction xs arbitrary: f) (auto split: option.splits)

lemma tier_step_trans: "tier_step d es d' \<Longrightarrow> tier_step d' es' d'' \<Longrightarrow> tier_step d (es @ es') d''"
  by (simp add: tier_step_def entry_map_append map_add_assoc add_all_append)

lemma tier_step_Nil: "dx_wf d \<Longrightarrow> tier_step d [] d"
  by (simp add: tier_step_def entry_map_def)

lemma ApplyTo_ok:
  "dx_wf d \<Longrightarrow> \<forall>e \<in> set es. good_delta e \<Longrightarrow> \<exists>d'. ApplyTo es d = Inr d' \<and> tier_step d es d'"
proof (induction es arbitrary: d)
  case Nil
  then show ?case by (simp add: tier_step_Nil)
next
  case (Cons e es)
  let ?cid = "\<lparr> WeakHash = de_WeakHash e, StrongHash_id = de_StrongHash e \<rparr>"
  have e: "chunk_delta ?cid (de_PackNumber e) (de_StoreOffset e) (de_ChunkLength e) = e"
    by (simp add: chunk_delta_def)
  have "good_id ?cid" using Cons.prems(2) by (simp add: good_id_def good_delta_def wf_delta_entry_def)
  from insertNoCapture_ok [OF Cons.prems(1) this, of "de_PackNumber e" "de_StoreOffset e" "de_ChunkLength e"]
  obtain d1 where d1: "insertNoCapture d ?cid (de_PackNumber e) (de_StoreOffset e) (de_ChunkLength e) = Inr d1"
    "tier_step d [e] d1" unfolding e by auto
  then have "dx_wf d1" by (simp add: tier_step_def)
  with Cons obtain d2 where d2: "ApplyTo es d1 = Inr d2" "tier_step d1 es d2" by auto
  then show ?case using d1(1) tier_step_trans [OF d1(2) d2(2)] by simp
qed

lemma tier_bloom:
  assumes "tier_step d es d'" "bf_wf (dx_bloom d)"
  shows "\<forall>e \<in> set es. bf_MayContain (dx_bloom d') (de_WeakHash e) = Some True"
    "\<forall>v. bf_MayContain (dx_bloom d) v = Some True \<longrightarrow> bf_MayContain (dx_bloom d') v = Some True"
  using bloom.add_all_ok [OF assms(2), of "map de_WeakHash es"] assms(1) by (auto simp: tier_step_def)

lemma Check_abs:
  assumes "dx_wf d"
  shows "\<exists>b. bf_MayContain (dx_bloom d) (WeakHash cid) = Some b \<and>
    Check d cid = Inr (if \<not> b then \<lparr> IsNew = True, Entry = None, BloomHit = False, BloomMiss = True \<rparr>
      else \<lparr> IsNew = (hi_abs (dx_index d) (StrongHash_id cid) = None), Entry = hi_abs (dx_index d) (StrongHash_id cid),
             BloomHit = True, BloomMiss = False \<rparr>)"
proof -
  obtain b where b: "bf_MayContain (dx_bloom d) (WeakHash cid) = Some b"
    using assms bloom.may_total [of "dx_bloom d" "WeakHash cid"] by (auto simp: dx_wf_def)
  have L: "hi_Lookup (dx_index d) (StrongHash_id cid) = Inr (hi_abs (dx_index d) (StrongHash_id cid))"
    using assms by (simp add: dx_wf_def hi_Lookup_abs)
  show ?thesis
    by (rule exI [of _ b], cases b; cases "hi_abs (dx_index d) (StrongHash_id cid)")
      (simp_all add: Check_def b L)
qed

lemma Check_cong:
  assumes "dx_wf d" "dx_wf d'" "dx_bloom d' = dx_bloom d" "hi_abs (dx_index d') = hi_abs (dx_index d)"
  shows "Check d' cid = Check d cid" "LookupDirect d' h = LookupDirect d h"
proof -
  have L: "hi_Lookup (dx_index d') = hi_Lookup (dx_index d)"
    using assms by (intro ext) (simp add: dx_wf_def hi_Lookup_abs)
  show "Check d' cid = Check d cid" "LookupDirect d' h = LookupDirect d h"
    unfolding Check_def LookupDirect_def assms(3) L by simp_all
qed

section \<open>Pending deltas\<close>

definition delta_reads :: "prims \<Rightarrow> MasterKey option \<Rightarrow> (string \<times> bytes) list \<Rightarrow> string \<Rightarrow> DeltaEntry list \<Rightarrow> bool" where
  "delta_reads P key files n es \<longleftrightarrow>
     (\<exists>blob. readDeltaObject P key n (the (map_of files n)) = Inr blob \<and> ParseDelta (sha256 P) blob = Inr es) \<and>
     (\<forall>e \<in> set es. good_delta e)"

lemma applyDeltaFiles_ok:
  "dx_wf d \<Longrightarrow> list_all2 (delta_reads P (dx_key d) files) ns ess \<Longrightarrow>
     \<exists>d'. applyDeltaFiles P files ns d k = Inr (k + length (concat ess), d') \<and> tier_step d (concat ess) d'"
proof (induction ns arbitrary: ess d k)
  case Nil
  then show ?case by (simp add: tier_step_Nil)
next
  case (Cons n ns)
  then obtain es ess' where ess: "ess = es # ess'" "delta_reads P (dx_key d) files n es"
    "list_all2 (delta_reads P (dx_key d) files) ns ess'"
    by (auto simp: list_all2_Cons1)
  then obtain blob where blob: "readDeltaObject P (dx_key d) n (the (map_of files n)) = Inr blob"
    "ParseDelta (sha256 P) blob = Inr es" "\<forall>e \<in> set es. good_delta e"
    by (auto simp: delta_reads_def)
  obtain d1 where d1: "ApplyTo es d = Inr d1" "tier_step d es d1"
    using ApplyTo_ok [OF Cons.prems(1) blob(3)] by blast
  then have "dx_wf d1" "dx_key d1 = dx_key d" by (simp_all add: tier_step_def)
  with Cons.IH [of d1 ess' "k + length es"] ess(3) obtain d2 where
    "applyDeltaFiles P files ns d1 (k + length es) = Inr (k + length es + length (concat ess'), d2)"
    and d2: "tier_step d1 (concat ess') d2" by auto
  moreover have "tier_step d (concat ess) d2" using tier_step_trans [OF d1(2) d2] ess(1) by simp
  ultimately show ?case using blob(1,2) d1(1) ess(1) by (simp add: add.assoc)
qed

lemma insertNoCapture_delta: "insertNoCapture d cid p off len = Inr d' \<Longrightarrow> dx_delta d' = dx_delta d"
  by (auto simp: insertNoCapture_def split: option.splits)

lemma ApplyTo_delta: "ApplyTo es d = Inr d' \<Longrightarrow> dx_delta d' = dx_delta d"
  by (induction es arbitrary: d) (auto split: sum.splits dest: insertNoCapture_delta)

lemma applyDeltaFiles_delta: "applyDeltaFiles P files ns d k = Inr (m, d') \<Longrightarrow> dx_delta d' = dx_delta d"
  by (induction ns arbitrary: d k) (auto split: sum.splits dest!: ApplyTo_delta)

section \<open>Opening\<close>

lemma openBloom_wf: "openBloom est n key dir = (Inr (bf, m), dir') \<Longrightarrow> bf_wf bf"
  by (auto simp: openBloom_def NewBloomFilter_wf LoadBloomFilter_wf split: option.splits sum.splits)

lemma openDedup_ok:
  assumes "workingCopies P key dir = (None, dir1)" "openBloom est n key dir1 = (Inr (bf, missing), dir2)"
    and f: "f = (case dir_index dir2 of None \<Rightarrow> [] | Some f \<Rightarrow> f)" "sorted_file f" "length f \<le> 48 * 2 ^ 36"
    and sperm: "slice_sort sperm"
    and deltas: "list_all2 (delta_reads P key (dir_deltas dir2)) (deltaObjectNames (dir_deltas dir2)) ess"
  shows "\<exists>d. openDedup P sperm est ro dir n key = (Inr d, dir2\<lparr> dir_index := Some f \<rparr>) \<and> dx_wf d \<and>
    hi_abs (dx_index d) = entry_map (sorted_entries f) ++ entry_map (rev (map locEntry (concat ess))) \<and>
    add_all bf_Add bf (map de_WeakHash (concat ess)) = Some (dx_bloom d) \<and>
    hi_total (dx_index d) \<le> length f div 48 + length (concat ess) \<and>
    hi_noHtab (dx_index d) = ro \<and> dx_key d = key \<and> dx_delta d = None \<and>
    (dx_bloomMissing d \<longleftrightarrow> missing \<and> \<not> ro \<and> \<not> (concat ess \<noteq> [] \<and> f = []))"
proof -
  obtain idx where idx: "NewHashIndex sperm f ro = Inr idx" "hi_wf idx"
    "hi_abs idx = entry_map (sorted_entries f)" "hi_noHtab idx = ro" "hi_total idx = length f div 48"
    "hi_disk idx = f"
    using NewHashIndex_ok [OF f(2,3) sperm, of ro] by blast
  let ?d = "\<lparr> dx_bloom = bf, dx_index = idx, dx_key = key, dx_bloomMissing = (missing \<and> \<not> ro), dx_delta = None \<rparr>"
  have wf: "dx_wf ?d" using idx(2) openBloom_wf [OF assms(2)] by (simp add: dx_wf_def)
  obtain d' where d': "applyDeltaFiles P (dir_deltas dir2) (deltaObjectNames (dir_deltas dir2)) ?d 0
      = Inr (length (concat ess), d')" "tier_step ?d (concat ess) d'"
    using applyDeltaFiles_ok [OF wf, of P "dir_deltas dir2" "deltaObjectNames (dir_deltas dir2)" ess 0] deltas by auto
  let ?d2 = "if length (concat ess) > 0 \<and> hi_diskSize idx = 0 then d'\<lparr> dx_bloomMissing := False \<rparr> else d'"
  have "hi_diskSize idx = length f" using idx(2,6) by (simp add: hi_wf_def)
  moreover have "applyPendingDeltas P (dir2\<lparr> dir_index := Some f \<rparr>) (hi_diskSize idx = 0) ?d
      = Inr (length (concat ess), ?d2)"
    unfolding applyPendingDeltas_def using d'(1) by simp
  moreover have "openDedup P sperm est ro dir n key = (Inr ?d2, dir2\<lparr> dir_index := Some f \<rparr>)"
    unfolding openDedup_def assms(1) prod.case option.case assms(2) sum.case Let_def f(1) [symmetric] idx(1)
    using calculation(2) by (simp del: length_concat)
  moreover have "dx_delta d' = None" using applyDeltaFiles_delta [OF d'(1)] by simp
  ultimately show ?thesis
    using d'(2) idx by (auto simp: tier_step_def dx_wf_def)
qed

section \<open>What is stored\<close>

definition stored :: "prims \<Rightarrow> MasterKey option \<Rightarrow> IndexDir \<Rightarrow> bytes \<Rightarrow> bytes \<Rightarrow> bool" where
  "stored P key dir bl f \<longleftrightarrow>
     (case key of
        None \<Rightarrow> dir_bloomEnc dir = None \<and> dir_indexEnc dir = None \<and> dir_bloom dir = Some bl \<and> dir_index dir = Some f
      | Some mk \<Rightarrow> (\<exists>cb ci. dir_bloomEnc dir = Some cb \<and> DecryptFile P mk cb = Inr bl \<and>
                      dir_indexEnc dir = Some ci \<and> DecryptFile P mk ci = Inr f))"

lemma stored_opens:
  assumes "stored P key dir bl f" "LoadBloomFilter bl = Inr bf"
  shows "\<exists>dir1 dir2. workingCopies P key dir = (None, dir1) \<and> openBloom est n key dir1 = (Inr (bf, False), dir2) \<and>
    dir_index dir2 = Some f \<and> dir_deltas dir2 = dir_deltas dir"
proof (cases key)
  case None
  then show ?thesis
    using assms by (simp add: stored_def workingCopies_def refuseEncryptedWithoutKey_def openBloom_def)
next
  case (Some mk)
  with assms obtain cb ci where "dir_bloomEnc dir = Some cb" "DecryptFile P mk cb = Inr bl"
    "dir_indexEnc dir = Some ci" "DecryptFile P mk ci = Inr f" by (auto simp: stored_def)
  with Some assms(2) show ?thesis
    by (simp add: workingCopies_def decryptBloom_def decryptIndex_def openBloom_def)
qed

lemma stored_refuses:
  assumes "stored P (Some mk) dir bl f"
  shows "fst (openDedup P sperm est ro dir n None) = Inl DxEncryptedNoKey"
  using assms by (auto simp: stored_def openDedup_def workingCopies_def refuseEncryptedWithoutKey_def)

lemma EncryptFile_ok:
  assumes "aead_ok P" "length mk = 32" "length nonce = 12"
  shows "\<exists>c. EncryptFile P mk nonce p = Inr c \<and> DecryptFile P mk c = Inr p"
  using assms aesKeyOk_32 [OF assms(2)] openGCM_seal [of P mk nonce p AADIndex]
  by (auto simp: EncryptFile_def DecryptFile_def EncryptWithAAD_def DecryptWithAAD_def sealGCM_def crypto_sizes aead_ok_def)

section \<open>The journal\<close>

definition captures :: "DedupIndex \<Rightarrow> DeltaEntry list \<Rightarrow> bool" where
  "captures d es \<longleftrightarrow>
     (\<exists>c. dx_delta d = Some c \<and> dc_payload c = concat (map EncodeDeltaEntry es) \<and>
        dc_count c = of_nat (length es) \<and> \<not> dc_err c)"

definition journal_fine :: "DedupIndex \<Rightarrow> bool" where
  "journal_fine d \<longleftrightarrow> (\<forall>c. dx_delta d = Some c \<longrightarrow> \<not> dc_err c)"

definition key_fine :: "prims \<Rightarrow> MasterKey option \<Rightarrow> bool" where
  "key_fine P key \<longleftrightarrow> aead_ok P \<and> (\<forall>mk. key = Some mk \<longrightarrow> length mk = 32)"

definition same_index_files :: "IndexDir \<Rightarrow> IndexDir \<Rightarrow> bool" where
  "same_index_files dir dir' \<longleftrightarrow>
     dir_bloom dir' = dir_bloom dir \<and> dir_bloomEnc dir' = dir_bloomEnc dir \<and> dir_index dir' = dir_index dir \<and>
     dir_indexEnc dir' = dir_indexEnc dir \<and> dir_deltas dir' = dir_deltas dir"

lemma stored_same: "same_index_files dir dir' \<Longrightarrow> stored P key dir' bl f = stored P key dir bl f"
  by (cases key) (simp_all add: same_index_files_def stored_def)

lemma WriteDeltaObject_ok:
  assumes "journal_fine d" "key_fine P (dx_key d)" "length nonce = 12"
  shows "\<exists>d' dir'. WriteDeltaObject P nonce d dir = (None, d', dir') \<and> journal_fine d' \<and>
    dx_bloom d' = dx_bloom d \<and> dx_index d' = dx_index d \<and> dx_key d' = dx_key d \<and>
    dx_bloomMissing d' = dx_bloomMissing d \<and> same_index_files dir dir'"
proof (cases "dx_delta d")
  case None
  then show ?thesis using assms(1) by (simp add: WriteDeltaObject_def same_index_files_def)
next
  case (Some c)
  obtain c' where c': "stampHeader (sha256 P) c = Some c'" "\<not> dc_err c'"
    using assms(1) Some by (auto simp: journal_fine_def stampHeader_def)
  show ?thesis
  proof (cases "dx_key d")
    case None
    with Some c' show ?thesis
      by (simp add: WriteDeltaObject_def same_index_files_def encryptCapturedDelta_def journal_fine_def Let_def)
  next
    case (Some mk)
    with assms EncryptFile_ok [of P mk nonce "captureFile c'"] obtain e where
      "EncryptFile P mk nonce (captureFile c') = Inr e" by (auto simp: key_fine_def)
    with Some \<open>dx_delta d = Some c\<close> c' show ?thesis
      by (simp add: WriteDeltaObject_def same_index_files_def encryptCapturedDelta_def journal_fine_def Let_def)
  qed
qed

lemma captures_stamp:
  assumes "captures d es"
  shows "\<exists>c c'. dx_delta d = Some c \<and> stampHeader sha c = Some c' \<and> captureFile c' = Marshal sha es \<and>
    dc_count c' = of_nat (length es) \<and> dc_count c = of_nat (length es) \<and> captures (d\<lparr> dx_delta := Some c' \<rparr>) es"
  using assms by (auto simp: captures_def stampHeader_def captureFile_def Marshal_header)

lemma Write_captures:
  assumes "captures d es" "WriteDeltaObject P nonce d dir = (None, d', dir')"
  shows "captures d' es"
  using captures_stamp [OF assms(1), of "sha256 P"] assms(2)
  by (auto simp: WriteDeltaObject_def Let_def split: if_splits prod.splits)

definition journal_left :: "prims \<Rightarrow> MasterKey option \<Rightarrow> DeltaEntry list \<Rightarrow> IndexDir \<Rightarrow> bool" where
  "journal_left P key es dir \<longleftrightarrow>
     (if es = [] then dir_journal dir = None
      else case key of
             None \<Rightarrow> dir_journal dir = Some (Marshal (sha256 P) es)
           | Some mk \<Rightarrow> dir_journal dir = None \<and>
               (\<exists>c. dir_journalEnc dir = Some c \<and> DecryptFile P mk c = Inr (Marshal (sha256 P) es)))"

lemma closeDelta_ok:
  assumes "journal_fine d" "key_fine P (dx_key d)" "length nonce = 12"
  shows "\<exists>d' dir'. closeDelta P nonce False d dir = (None, d', dir') \<and> dx_delta d' = None \<and>
    dx_bloom d' = dx_bloom d \<and> dx_index d' = dx_index d \<and> dx_key d' = dx_key d \<and> same_index_files dir dir' \<and>
    (\<forall>es. captures d es \<and> length es < 2 ^ 64 \<longrightarrow> journal_left P (dx_key d) es dir')"
proof (cases "dx_delta d")
  case None
  then show ?thesis by (simp add: closeDelta_def same_index_files_def captures_def)
next
  case (Some c)
  obtain d1 dir1 where w: "WriteDeltaObject P nonce d dir = (None, d1, dir1)" "same_index_files dir dir1"
    using WriteDeltaObject_ok [OF assms] by blast
  let ?dir' = "if dc_count c = 0 \<or> dx_key d \<noteq> None then dir1\<lparr> dir_journal := None \<rparr> else dir1"
  have cl: "closeDelta P nonce False d dir = (None, d\<lparr> dx_delta := None \<rparr>, ?dir')"
    using Some w(1) by (simp add: closeDelta_def Let_def)
  have "journal_left P (dx_key d) es ?dir'" if es: "captures d es" "length es < 2 ^ 64" for es
  proof -
    obtain c' where c': "stampHeader (sha256 P) c = Some c'" "captureFile c' = Marshal (sha256 P) es"
      "dc_count c' = of_nat (length es)" "dc_count c = of_nat (length es)"
      using captures_stamp [OF es(1), of "sha256 P"] Some by auto
    have z: "(of_nat (length es) :: u64) = 0 \<longleftrightarrow> es = []"
      using es(2) nat_dvd_not_less [of "length es" "2 ^ 64"] by (auto simp: word_of_nat_eq_0_iff)
    show ?thesis
    proof (cases "dx_key d")
      case None
      with w(1) Some c' z show ?thesis
        by (auto simp: journal_left_def WriteDeltaObject_def encryptCapturedDelta_def Let_def split: if_splits)
    next
      case (Some mk)
      obtain e where "EncryptFile P mk nonce (Marshal (sha256 P) es) = Inr e"
        "DecryptFile P mk e = Inr (Marshal (sha256 P) es)"
        using EncryptFile_ok [of P mk nonce] assms(2,3) Some by (auto simp: key_fine_def)
      with w(1) Some \<open>dx_delta d = Some c\<close> c' z show ?thesis
        by (auto simp: journal_left_def WriteDeltaObject_def encryptCapturedDelta_def Let_def split: if_splits)
    qed
  qed
  with cl w(2) show ?thesis by (auto simp: same_index_files_def)
qed

section \<open>Flushing and closing\<close>

definition plain_dir :: "MasterKey option \<Rightarrow> IndexDir \<Rightarrow> bool" where
  "plain_dir key dir \<longleftrightarrow> (key = None \<longrightarrow> dir_bloomEnc dir = None \<and> dir_indexEnc dir = None)"

lemma flushEncrypt_ok:
  assumes "key_fine P (Some mk)" "\<forall>i. length (ns i) = 12" "dir_bloom dir = Some bl" "dir_index dir = Some f"
  shows "\<exists>dir'. flushEncrypt P ns mk dir = (None, dir') \<and> stored P (Some mk) dir' bl f \<and>
    dir_bloom dir' = None \<and> dir_index dir' = Some f \<and> dir_deltas dir' = dir_deltas dir"
proof -
  obtain cb ci where "EncryptFile P mk (ns 0) bl = Inr cb" "DecryptFile P mk cb = Inr bl"
    "EncryptFile P mk (ns 1) f = Inr ci" "DecryptFile P mk ci = Inr f"
    using EncryptFile_ok [of P mk "ns 0" bl] EncryptFile_ok [of P mk "ns 1" f] assms(1,2) by (auto simp: key_fine_def)
  with assms(3,4) show ?thesis by (simp add: flushEncrypt_def Let_def stored_def)
qed

lemma dx_Flush_ok:
  assumes wf: "dx_wf d" and sperm: "slice_sort sperm" and small: "hi_total (dx_index d) \<le> 2 ^ 36"
    and j: "journal_fine d" and key: "key_fine P (dx_key d)" and ns: "\<forall>i. length (ns i) = 12"
    and plain: "plain_dir (dx_key d) dir"
  shows "\<exists>d' dir'. dx_Flush P sperm ns d dir = (None, d', dir') \<and> tier_step d [] d' \<and>
    journal_fine d' \<and> (\<forall>es. captures d es \<longrightarrow> captures d' es) \<and> plain_dir (dx_key d') dir' \<and>
    stored P (dx_key d) dir' (bf_Save (dx_bloom d)) (hi_disk (dx_index d')) \<and> dir_deltas dir' = dir_deltas dir \<and>
    (dx_key d \<noteq> None \<longrightarrow> dir_bloom dir' = None) \<and>
    disk_map (dx_index d') = hi_abs (dx_index d) \<and> \<not> hi_dirty (dx_index d') \<and> hi_entries (dx_index d') = []"
proof -
  obtain idx where idx: "hi_Flush sperm (dx_index d) = (None, idx)" "hi_wf idx" "hi_abs idx = hi_abs (dx_index d)"
    "disk_map idx = hi_abs (dx_index d)" "hi_entries idx = []" "\<not> hi_dirty idx" "hi_noHtab idx = hi_noHtab (dx_index d)"
    using hi_Flush_ok [OF _ sperm small] wf by (auto simp: dx_wf_def)
  have tot: "hi_total idx \<le> hi_total (dx_index d)"
    using flushed_total [of "dx_index d" idx] wf idx by (simp add: dx_wf_def)
  let ?d1 = "d\<lparr> dx_index := idx \<rparr>" and ?bl = "bf_Save (dx_bloom d)"
  let ?dir2 = "dir\<lparr> dir_bloom := Some ?bl, dir_index := Some (hi_disk idx) \<rparr>"
  obtain dir3 where dir3: "(case dx_key d of None \<Rightarrow> (None, ?dir2) | Some mk \<Rightarrow> flushEncrypt P ns mk ?dir2) = (None, dir3)"
    "stored P (dx_key d) dir3 ?bl (hi_disk idx)" "dir_deltas dir3 = dir_deltas dir" "dx_key d \<noteq> None \<longrightarrow> dir_bloom dir3 = None"
  proof (cases "dx_key d")
    case None
    with plain show thesis by (intro that [of ?dir2]) (simp_all add: stored_def plain_dir_def)
  next
    case (Some mk)
    with flushEncrypt_ok [of P mk ns ?dir2 ?bl "hi_disk idx"] key ns show thesis by (auto intro: that)
  qed
  obtain d' dir' where w: "WriteDeltaObject P (ns 2) ?d1 dir3 = (None, d', dir')" "journal_fine d'"
    "dx_bloom d' = dx_bloom d" "dx_index d' = idx" "dx_key d' = dx_key d" "dx_bloomMissing d' = dx_bloomMissing d"
    "same_index_files dir3 dir'"
    using WriteDeltaObject_ok [of ?d1 P "ns 2" dir3] j key ns by (auto simp: journal_fine_def)
  have "dx_Flush P sperm ns d dir = (None, d', dir')"
    using dir3(1) w(1) by (simp add: dx_Flush_def idx(1) Let_def)
  moreover have "captures d' es" if "captures d es" for es
    using Write_captures [OF _ w(1), of es] that by (simp add: captures_def)
  moreover have "stored P (dx_key d) dir' ?bl (hi_disk idx)" using dir3(2) stored_same [OF w(7)] by simp
  moreover from this have "plain_dir (dx_key d') dir'" using w(5) by (auto simp: plain_dir_def stored_def)
  moreover have "tier_step d [] d'"
    using wf idx w(3-6) tot by (simp add: tier_step_def dx_wf_def entry_map_def)
  ultimately show ?thesis
    using w(2,4,7) idx(4-6) dir3(3,4) by (auto simp: same_index_files_def)
qed

lemma dx_Close_ok:
  assumes wf: "dx_wf d" and sperm: "slice_sort sperm" and small: "hi_total (dx_index d) \<le> 2 ^ 36"
    and j: "journal_fine d" and key: "key_fine P (dx_key d)" and ns: "\<forall>i. length (ns i) = 12"
    and plain: "plain_dir (dx_key d) dir"
  shows "\<exists>d' dir' f. dx_Close P sperm ns d dir = (None, d', dir') \<and>
    stored P (dx_key d) dir' (bf_Save (dx_bloom d)) f \<and> sorted_file f \<and> length f div 48 \<le> hi_total (dx_index d) \<and>
    entry_map (sorted_entries f) = hi_abs (dx_index d) \<and> dir_deltas dir' = dir_deltas dir \<and>
    (dx_key d \<noteq> None \<longrightarrow> dir_bloom dir' = None \<and> dir_index dir' = None) \<and>
    (\<forall>es. captures d es \<and> length es < 2 ^ 64 \<longrightarrow> journal_left P (dx_key d) es dir')"
proof -
  obtain d1 dir1 where f1: "dx_Flush P sperm ns d dir = (None, d1, dir1)" "tier_step d [] d1" "journal_fine d1"
    "\<forall>es. captures d es \<longrightarrow> captures d1 es"
    "stored P (dx_key d) dir1 (bf_Save (dx_bloom d)) (hi_disk (dx_index d1))" "dir_deltas dir1 = dir_deltas dir"
    "dx_key d \<noteq> None \<longrightarrow> dir_bloom dir1 = None"
    "disk_map (dx_index d1) = hi_abs (dx_index d)" "\<not> hi_dirty (dx_index d1)" "hi_entries (dx_index d1) = []"
    using dx_Flush_ok [OF assms] by blast
  let ?f = "hi_disk (dx_index d1)"
  have k1: "dx_key d1 = dx_key d" and wf1: "hi_wf (dx_index d1)" and t1: "hi_total (dx_index d1) \<le> hi_total (dx_index d)"
    using f1(2) by (simp_all add: tier_step_def dx_wf_def)
  obtain d2 dir2 where c: "closeDelta P (ns 3) False d1 dir1 = (None, d2, dir2)" "dx_index d2 = dx_index d1"
    "same_index_files dir1 dir2" "\<forall>es. captures d1 es \<and> length es < 2 ^ 64 \<longrightarrow> journal_left P (dx_key d1) es dir2"
    using closeDelta_ok [OF f1(3), of P "ns 3" dir1] key ns k1 by auto
  let ?dir3 = "dir2\<lparr> dir_index := Some ?f \<rparr>"
  let ?dir' = "if dx_key d = None then ?dir3 else ?dir3\<lparr> dir_index := None \<rparr>"
  have "hi_Flush sperm (dx_index d1) = (None, dx_index d1)" using f1(9,10) by (simp add: hi_Flush_def)
  then obtain d3 where cl: "dx_Close P sperm ns d dir = (None, d3, ?dir')"
    using f1(1) c(1,2) by (simp add: dx_Close_def closeIndex_def hi_Close_def Let_def)
  have "stored P (dx_key d) ?dir' (bf_Save (dx_bloom d)) ?f"
    using f1(5) c(3) by (auto simp: stored_def same_index_files_def split: option.splits)
  moreover have srt: "sorted_file ?f" using wf1 by (simp add: hi_wf_def)
  moreover have "length ?f div 48 = hi_total (dx_index d1)"
    using disk_total [of "dx_index d1\<lparr> hi_htab := None \<rparr>"] srt base_total [OF wf1] f1(8,10) f1(2)
    by (simp add: disk_map_def tier_step_def hi_abs_def entry_map_def)
  moreover have "journal_left P (dx_key d) es ?dir'" if "captures d es" "length es < 2 ^ 64" for es
    using that f1(4) c(4) k1 by (auto simp: journal_left_def split: option.splits if_splits)
  ultimately show ?thesis
    using t1 f1(6,7,8) c(3) cl by (intro exI [of _ d3] exI [of _ ?dir'] exI [of _ ?f])
      (auto simp: same_index_files_def disk_map_def)
qed

section \<open>Sessions\<close>

datatype dx_op = DxInsert ChunkID u32 u64 u32 | DxFlushHashIndex | DxFlush nonces

fun dx_step :: "prims \<Rightarrow> (nat list \<Rightarrow> nat list) \<Rightarrow> dx_op \<Rightarrow> DedupIndex \<Rightarrow> IndexDir
    \<Rightarrow> dx_error + DedupIndex \<times> IndexDir" where
  "dx_step P sperm (DxInsert cid p off len) d dir = map_sum id (\<lambda>d'. (d', dir)) (dx_Insert d cid p off len)"
| "dx_step P sperm DxFlushHashIndex d dir = map_sum id (\<lambda>d'. (d', dir)) (FlushHashIndex d)"
| "dx_step P sperm (DxFlush ns) d dir =
     (case dx_Flush P sperm ns d dir of (None, d', dir') \<Rightarrow> Inr (d', dir') | (Some err, _) \<Rightarrow> Inl err)"

fun dx_run :: "prims \<Rightarrow> (nat list \<Rightarrow> nat list) \<Rightarrow> dx_op list \<Rightarrow> DedupIndex \<Rightarrow> IndexDir
    \<Rightarrow> dx_error + DedupIndex \<times> IndexDir" where
  "dx_run P sperm [] d dir = Inr (d, dir)"
| "dx_run P sperm (a # as) d dir =
     (case dx_step P sperm a d dir of Inl err \<Rightarrow> Inl err | Inr (d', dir') \<Rightarrow> dx_run P sperm as d' dir')"

fun op_delta :: "dx_op \<Rightarrow> DeltaEntry list" where
  "op_delta (DxInsert cid p off len) = [chunk_delta cid p off len]"
| "op_delta _ = []"

fun op_fine :: "dx_op \<Rightarrow> bool" where
  "op_fine (DxInsert cid p off len) \<longleftrightarrow> good_id cid"
| "op_fine DxFlushHashIndex \<longleftrightarrow> True"
| "op_fine (DxFlush ns) \<longleftrightarrow> (\<forall>i. length (ns i) = 12)"

definition op_deltas :: "dx_op list \<Rightarrow> DeltaEntry list" where
  "op_deltas as = concat (map op_delta as)"

definition session_ok :: "prims \<Rightarrow> DedupIndex \<Rightarrow> IndexDir \<Rightarrow> bool" where
  "session_ok P d dir \<longleftrightarrow> dx_wf d \<and> \<not> hi_noHtab (dx_index d) \<and> journal_fine d \<and> key_fine P (dx_key d) \<and>
     plain_dir (dx_key d) dir"

lemma captureInsert_simps [simp]:
  "dx_bloom (captureInsert d cid p off len) = dx_bloom d" "dx_index (captureInsert d cid p off len) = dx_index d"
  "dx_key (captureInsert d cid p off len) = dx_key d"
  "dx_bloomMissing (captureInsert d cid p off len) = dx_bloomMissing d"
  by (simp_all add: captureInsert_def split: option.splits)

lemma captureInsert_journal:
  assumes "dx_delta d' = dx_delta d"
  shows "journal_fine d \<Longrightarrow> journal_fine (captureInsert d' cid p off len)"
    and "captures d es \<Longrightarrow> captures (captureInsert d' cid p off len) (es @ [chunk_delta cid p off len])"
  using assms by (auto simp: journal_fine_def captures_def captureInsert_def captureAppend_def chunk_delta_def
      split: option.splits)

lemma dx_step_ok:
  assumes ok: "session_ok P d dir" and sperm: "slice_sort sperm" and a: "op_fine a"
    and small: "hi_total (dx_index d) + length (op_delta a) \<le> 2 ^ 36"
  shows "\<exists>d' dir'. dx_step P sperm a d dir = Inr (d', dir') \<and> session_ok P d' dir' \<and> tier_step d (op_delta a) d' \<and>
    dir_deltas dir' = dir_deltas dir \<and> (\<forall>es. captures d es \<longrightarrow> captures d' (es @ op_delta a))"
proof (cases a)
  case (DxInsert cid p off len)
  obtain d' where d': "insertNoCapture d cid p off len = Inr d'" "tier_step d [chunk_delta cid p off len] d'"
    using insertNoCapture_ok [of d cid p off len] ok a DxInsert by (auto simp: session_ok_def)
  note j = captureInsert_journal [OF insertNoCapture_delta [OF d'(1)]]
  show ?thesis
    using DxInsert d' ok j by (auto simp: dx_Insert_def session_ok_def tier_step_def dx_wf_def)
next
  case DxFlushHashIndex
  have wf: "hi_wf (dx_index d)" using ok by (simp add: session_ok_def dx_wf_def)
  obtain idx where idx: "FlushDelta (dx_index d) = Inr idx" "hi_wf idx" "\<not> hi_noHtab idx"
    "hi_total idx \<le> hi_total (dx_index d)" "hi_abs idx = hi_abs (dx_index d)"
    using hi_step_abs [OF wf sperm, of OpFlushDelta] ok small DxFlushHashIndex
    by (auto simp: session_ok_def entry_map_def)
  then show ?thesis
    using DxFlushHashIndex ok
    by (auto simp: FlushHashIndex_def session_ok_def tier_step_def dx_wf_def journal_fine_def captures_def entry_map_def)
next
  case (DxFlush ns)
  have "\<exists>d' dir'. dx_Flush P sperm ns d dir = (None, d', dir') \<and> tier_step d [] d' \<and> journal_fine d' \<and>
    (\<forall>es. captures d es \<longrightarrow> captures d' es) \<and> plain_dir (dx_key d') dir' \<and> dir_deltas dir' = dir_deltas dir"
    using dx_Flush_ok [of d sperm P ns dir] sperm ok small a DxFlush by (auto simp: session_ok_def)
  then show ?thesis
    using DxFlush ok by (auto simp: session_ok_def tier_step_def)
qed

lemma dx_run_ok:
  assumes "slice_sort sperm" "session_ok P d dir" "\<forall>a \<in> set as. op_fine a"
    and "hi_total (dx_index d) + length (op_deltas as) \<le> 2 ^ 36"
  shows "\<exists>d' dir'. dx_run P sperm as d dir = Inr (d', dir') \<and> session_ok P d' dir' \<and> tier_step d (op_deltas as) d' \<and>
    dir_deltas dir' = dir_deltas dir \<and> (\<forall>es. captures d es \<longrightarrow> captures d' (es @ op_deltas as))"
  using assms(2-)
proof (induction as arbitrary: d dir)
  case Nil
  then show ?case by (simp add: op_deltas_def session_ok_def tier_step_Nil)
next
  case (Cons a as)
  have split: "op_deltas (a # as) = op_delta a @ op_deltas as" by (simp add: op_deltas_def)
  obtain d1 dir1 where d1: "dx_step P sperm a d dir = Inr (d1, dir1)" "session_ok P d1 dir1"
    "tier_step d (op_delta a) d1" "dir_deltas dir1 = dir_deltas dir"
    "\<forall>es. captures d es \<longrightarrow> captures d1 (es @ op_delta a)"
    using dx_step_ok [OF Cons.prems(1) assms(1), of a] Cons.prems split by auto
  have "hi_total (dx_index d1) + length (op_deltas as) \<le> 2 ^ 36"
    using d1(3) Cons.prems(3) split by (simp add: tier_step_def)
  with Cons.IH [OF d1(2)] Cons.prems(2) obtain d2 dir2 where d2: "dx_run P sperm as d1 dir1 = Inr (d2, dir2)"
    "session_ok P d2 dir2" "tier_step d1 (op_deltas as) d2" "dir_deltas dir2 = dir_deltas dir1"
    "\<forall>es. captures d1 es \<longrightarrow> captures d2 (es @ op_deltas as)" by auto
  then have "tier_step d (op_deltas (a # as)) d2" using tier_step_trans [OF d1(3)] split by simp
  moreover have "captures d2 (es @ op_deltas (a # as))" if "captures d es" for es
    using d1(5) d2(5) that split by fastforce
  ultimately show ?case using d1(1,4) d2(1,2,4) by simp
qed

lemma open_stored:
  assumes "slice_sort sperm" "stored P key dir bl f" "LoadBloomFilter bl = Inr bf" "sorted_file f"
    "length f div 48 + length (concat ess) \<le> 2 ^ 36"
    "list_all2 (delta_reads P key (dir_deltas dir)) (deltaObjectNames (dir_deltas dir)) ess"
  shows "\<exists>d dir'. openDedup P sperm est ro dir n key = (Inr d, dir') \<and> dx_wf d \<and>
    hi_abs (dx_index d) = entry_map (sorted_entries f) ++ entry_map (rev (map locEntry (concat ess))) \<and>
    add_all bf_Add bf (map de_WeakHash (concat ess)) = Some (dx_bloom d) \<and>
    hi_total (dx_index d) \<le> length f div 48 + length (concat ess) \<and>
    hi_noHtab (dx_index d) = ro \<and> dx_key d = key \<and> dx_delta d = None \<and> \<not> dx_bloomMissing d"
proof -
  obtain dir1 dir2 where o: "workingCopies P key dir = (None, dir1)"
    "openBloom est n key dir1 = (Inr (bf, False), dir2)" "dir_index dir2 = Some f" "dir_deltas dir2 = dir_deltas dir"
    using stored_opens [OF assms(2,3)] by blast
  have "length f div 48 \<le> 2 ^ 36" using assms(5) by linarith
  then have "length f \<le> 48 * 2 ^ 36" using assms(4) by (auto simp: sorted_file_def elim!: dvdE)
  from openDedup_ok [OF o(1,2) _ assms(4) this assms(1), of ess ro] o(3,4) assms(6) show ?thesis by auto
qed

lemma open_plain:
  assumes "openDedup P sperm est ro dir n key = (Inr d, dir')" "plain_dir key dir"
  shows "plain_dir key dir'"
  using assms by (auto simp: openDedup_def workingCopies_def openBloom_def plain_dir_def Let_def
      split: option.splits sum.splits prod.splits)

lemma stored_plain: "stored P key dir bl f \<Longrightarrow> plain_dir key dir"
  by (auto simp: stored_def plain_dir_def)

lemma card_distinct_hashes:
  "distinct (map StrongHash (sorted_entries f)) \<Longrightarrow> card (StrongHash ` set (sorted_entries f)) = length f div 48"
  using distinct_card [of "map StrongHash (sorted_entries f)"] by (simp add: length_sorted_entries)

lemma card_dom_total:
  assumes "hi_wf idx"
  shows "card (dom (hi_abs idx)) \<le> hi_total idx"
proof -
  have "dom (hi_abs idx) = dom (base_map idx) \<union> fst ` set (hi_entries idx)"
    by (simp add: hi_abs_def dom_map_of_conv_image_fst Un_commute)
  then have "card (dom (hi_abs idx)) \<le> card (dom (base_map idx)) + card (fst ` set (hi_entries idx))"
    by (simp add: card_Un_le)
  moreover have "card (fst ` set (hi_entries idx)) \<le> length (hi_entries idx)"
    by (metis card_length length_map set_map)
  ultimately show ?thesis using base_total [OF assms] by linarith
qed

text \<open>Plaintext delta objects, staged under sorted names.\<close>

lemma plain_suffix:
  assumes "HasSuffix n deltaSuffix"
  shows "\<not> HasSuffix n deltaEncSuffix"
proof
  have last: "last n = last suf" if "HasSuffix n suf" "suf \<noteq> []" for suf
  proof -
    have "drop (length n - length suf) n = suf" using that(1) by (simp add: HasSuffix_def)
    moreover from this have "length n - length suf < length n" using that(2) by (metis drop_all leI)
    ultimately show ?thesis using last_drop by metis
  qed
  assume "HasSuffix n deltaEncSuffix"
  from last [OF this] last [OF assms] show False by (simp add: deltaSuffix_def deltaEncSuffix_def)
qed

lemma pending_reads:
  assumes "kdf_ok P" "sorted names" "distinct names" "length names = length ess"
    "\<forall>n \<in> set names. HasSuffix n deltaSuffix" "\<forall>es \<in> set ess. length es \<le> 2 ^ 42"
    "\<forall>e \<in> set (concat ess). good_delta e"
    and files: "files = zip names (map (Marshal (sha256 P)) ess)"
  shows "deltaObjectNames files = names" "list_all2 (delta_reads P None files) names ess"
proof -
  have fst: "map fst files = names" using files assms(4) by simp
  have "filter (\<lambda>n. HasSuffix n deltaSuffix \<or> HasSuffix n deltaEncSuffix) names = names"
    using assms(5) by (auto intro: filter_True)
  then show "deltaObjectNames files = names"
    unfolding deltaObjectNames_def fst using assms(2) by (simp add: sort_key_id_if_sorted)
  show "list_all2 (delta_reads P None files) names ess"
  proof (rule list_all2_all_nthI [OF assms(4)])
    fix i assume i: "i < length names"
    let ?es = "ess ! i"
    have m: "map_of files (names ! i) = Some (Marshal (sha256 P) ?es)"
      using map_of_zip_nth [of names "map (Marshal (sha256 P)) ess" i] assms(3,4) i files by simp
    have es: "?es \<in> set ess" using i assms(4) by simp
    then have wf: "\<forall>e \<in> set ?es. good_delta e" using assms(7) by auto
    have "ParseDelta (sha256 P) (Marshal (sha256 P) ?es) = Inr ?es"
      using Marshal_reads [of "sha256 P" ?es] assms(1,6) es wf by (auto simp: kdf_ok_def good_delta_def)
    moreover have "\<not> HasSuffix (names ! i) deltaEncSuffix" using plain_suffix assms(5) i by auto
    ultimately show "delta_reads P None files (names ! i) ?es"
      using m wf by (simp add: delta_reads_def readDeltaObject_def)
  qed
qed

section \<open>Properties\<close>

text \<open>
  C1: A backup session on the dedup index never forgets a chunk.  Opened on stored index
  files, encrypted or not, with any pending deltas, and driven through any inserts and
  flushes, no operation fails; every chunk that a delta or an insert brought in is answered
  as a duplicate with its latest location, and a hash the index does not know is answered
  as new.
\<close>

theorem dedup_session_finds:
  assumes sperm: "slice_sort sperm" and key: "key_fine P key"
    and files: "stored P key dir bl f" "LoadBloomFilter bl = Inr bf" "sorted_file f"
    and deltas: "list_all2 (delta_reads P key (dir_deltas dir)) (deltaObjectNames (dir_deltas dir)) ess"
    and ops: "\<forall>a \<in> set as. op_fine a"
    and small: "length f div 48 + length (concat ess) + length (op_deltas as) \<le> 2 ^ 36"
  shows "\<exists>d dir1 d' dir' M. NewDedupIndex P sperm est dir n key = (Inr d, dir1) \<and>
    dx_run P sperm as d dir1 = Inr (d', dir') \<and>
    M = entry_map (sorted_entries f) ++ entry_map (rev (map locEntry (concat ess @ op_deltas as))) \<and>
    (\<forall>h. LookupDirect d' h = Inr (M h)) \<and>
    (\<forall>e \<in> set (concat ess @ op_deltas as).
       Check d' \<lparr> WeakHash = de_WeakHash e, StrongHash_id = de_StrongHash e \<rparr> =
         Inr \<lparr> IsNew = False, Entry = M (de_StrongHash e), BloomHit = True, BloomMiss = False \<rparr>) \<and>
    (\<forall>cid. M (StrongHash_id cid) = None \<longrightarrow> (\<exists>r. Check d' cid = Inr r \<and> IsNew r))"
proof -
  obtain d dir1 where d: "openDedup P sperm est False dir n key = (Inr d, dir1)" "dx_wf d"
    "hi_abs (dx_index d) = entry_map (sorted_entries f) ++ entry_map (rev (map locEntry (concat ess)))"
    "add_all bf_Add bf (map de_WeakHash (concat ess)) = Some (dx_bloom d)"
    "hi_total (dx_index d) \<le> length f div 48 + length (concat ess)" "\<not> hi_noHtab (dx_index d)" "dx_key d = key"
    "dx_delta d = None"
    using open_stored [OF sperm files _ deltas, of est False n] small by auto
  have "session_ok P d dir1"
    using d key open_plain [OF d(1) stored_plain [OF files(1)]] by (simp add: session_ok_def journal_fine_def)
  from dx_run_ok [OF sperm this ops] d(5) small obtain d' dir' where r:
    "dx_run P sperm as d dir1 = Inr (d', dir')" "session_ok P d' dir'" "tier_step d (op_deltas as) d'" by auto
  define M where "M = hi_abs (dx_index d')"
  have M: "M = entry_map (sorted_entries f) ++ entry_map (rev (map locEntry (concat ess @ op_deltas as)))"
    using r(3) d(3) by (simp add: M_def tier_step_def entry_map_append map_add_assoc)
  have wf': "dx_wf d'" using r(2) by (simp add: session_ok_def)
  have L: "LookupDirect d' h = Inr (M h)" for h
    using wf' by (simp add: LookupDirect_def M_def dx_wf_def hi_Lookup_abs)
  have may: "bf_MayContain (dx_bloom d') (de_WeakHash e) = Some True" if "e \<in> set (concat ess @ op_deltas as)" for e
  proof -
    have "bf_wf bf" by (rule LoadBloomFilter_wf [OF files(2)])
    then show ?thesis
      using bloom.add_all_ok [of bf "map de_WeakHash (concat ess @ op_deltas as)"] d(4) r(3) that
      by (auto simp: tier_step_def add_all_append)
  qed
  have dom: "M (de_StrongHash e) \<noteq> None" if "e \<in> set (concat ess @ op_deltas as)" for e
  proof -
    have "de_StrongHash e \<in> dom (entry_map (rev (map locEntry (concat ess @ op_deltas as))))"
      unfolding dom_entry_map using that by (force simp: locEntry_def image_iff)
    then show ?thesis unfolding M by (auto simp: map_add_def dom_def split: option.splits)
  qed
  have "Check d' \<lparr> WeakHash = de_WeakHash e, StrongHash_id = de_StrongHash e \<rparr> =
      Inr \<lparr> IsNew = False, Entry = M (de_StrongHash e), BloomHit = True, BloomMiss = False \<rparr>"
    if "e \<in> set (concat ess @ op_deltas as)" for e
    using Check_abs [OF wf', of "\<lparr> WeakHash = de_WeakHash e, StrongHash_id = de_StrongHash e \<rparr>"] may [OF that] dom [OF that]
    by (auto simp: M_def)
  moreover have "\<exists>r. Check d' cid = Inr r \<and> IsNew r" if "M (StrongHash_id cid) = None" for cid
    using Check_abs [OF wf', of cid] that by (auto simp: M_def)
  ultimately show ?thesis
    using d(1) r(1) M L unfolding NewDedupIndex_def by blast
qed

definition sample_dir :: IndexDir where
  "sample_dir = \<lparr> dir_bloom = Some (bf_Save (NewBloomFilter (\<lambda>n. n * 10) 2)), dir_bloomEnc = None,
     dir_index = Some (encodeEntry sample_entry), dir_indexEnc = None, dir_deltas = [],
     dir_journal = None, dir_journalEnc = None \<rparr>"

definition sample_id :: ChunkID where
  "sample_id = \<lparr> WeakHash = 77, StrongHash_id = replicate 32 9 \<rparr>"

lemma sample_dir_stored:
  "stored P None sample_dir (bf_Save (NewBloomFilter (\<lambda>n. n * 10) 2)) (encodeEntry sample_entry)"
  "LoadBloomFilter (bf_Save (NewBloomFilter (\<lambda>n. n * 10) 2)) = Inr (NewBloomFilter (\<lambda>n. n * 10) 2)"
  "length (encodeEntry sample_entry) = 48" "good_id sample_id" "deltaObjectNames (dir_deltas sample_dir) = []"
  "key_fine toy_prims None"
  by (simp_all add: stored_def sample_dir_def Load_Save NewBloomFilter_wf encodeEntry_def sample_entry_def
      good_id_def sample_id_def zeroHash_def deltaObjectNames_def key_fine_def toy_ok)

theorem dedup_session_finds_witness:
  "\<exists>d dir1 d' dir'. NewDedupIndex toy_prims stable_perm (\<lambda>n. n * 10) sample_dir 2 None = (Inr d, dir1) \<and>
     dx_run toy_prims stable_perm [DxInsert sample_id 4 0 10, DxFlushHashIndex, DxFlush (\<lambda>i. replicate 12 0)] d dir1
       = Inr (d', dir') \<and>
     Check d' sample_id = Inr \<lparr> IsNew = False, Entry = Some (locEntry (chunk_delta sample_id 4 0 10)),
       BloomHit = True, BloomMiss = False \<rparr>"
proof -
  let ?as = "[DxInsert sample_id 4 0 10, DxFlushHashIndex, DxFlush (\<lambda>i. replicate 12 0)]"
  have ops: "op_deltas ?as = [chunk_delta sample_id 4 0 10]" "\<forall>a \<in> set ?as. op_fine a"
    using sample_dir_stored(4) by (simp_all add: op_deltas_def)
  let ?e = "chunk_delta sample_id 4 0 10"
  obtain d dir1 d' dir' M where w:
    "NewDedupIndex toy_prims stable_perm (\<lambda>n. n * 10) sample_dir 2 None = (Inr d, dir1)"
    "dx_run toy_prims stable_perm ?as d dir1 = Inr (d', dir')"
    "M = entry_map (sorted_entries (encodeEntry sample_entry)) ++ entry_map (rev (map locEntry [?e]))"
    "Check d' \<lparr> WeakHash = de_WeakHash ?e, StrongHash_id = de_StrongHash ?e \<rparr> =
       Inr \<lparr> IsNew = False, Entry = M (de_StrongHash ?e), BloomHit = True, BloomMiss = False \<rparr>"
    using dedup_session_finds [OF slice_sort_stable sample_dir_stored(6,1,2) sorted_file_sample, of "[]" ?as
        "\<lambda>n. n * 10" 2] ops sample_dir_stored(3,5) by (auto simp del: dx_run.simps)
  have "M (de_StrongHash ?e) = Some (locEntry ?e)" unfolding w(3) by (simp add: entry_map_Cons locEntry_def)
  with w show ?thesis by (simp add: chunk_delta_def sample_id_def del: dx_run.simps)
qed



end
