(* ===== verification/Chunk_Store.thy ===== *)
theory Chunk_Store
  imports Crypto "HOL-Library.AList"
begin

text \<open>
  The pack files of \<^verbatim>\<open>core/store/store.go\<close> and \<^verbatim>\<open>sparse.go\<close>.  The chunks directory maps file
  names to contents.  The zstd codec is a parameter; so are the hooks a caller may install:
  \<open>h_sealed\<close> says whether the callback for a sealed pack succeeds, \<open>h_missing\<close> gives the
  directory after a whole-pack download, \<open>h_fetch\<close> the frame of one chunk.  Offsets and
  sizes are file sizes and stay below \<open>2 ^ 63\<close>, so they are plain integers.
\<close>

section \<open>Model\<close>

datatype EncoderLevel = SpeedFastest | SpeedDefault | SpeedBetterCompression | SpeedBestCompression

definition CompressionPreset :: "int \<Rightarrow> EncoderLevel" where
  "CompressionPreset level =
     (if level \<le> 1 then SpeedFastest
      else if level \<le> 3 then SpeedDefault
      else if level \<le> 6 then SpeedBetterCompression
      else SpeedBestCompression)"

record zstd =
  z_enc :: "EncoderLevel \<Rightarrow> bytes \<Rightarrow> bytes"
  z_dec :: "bytes \<Rightarrow> bytes option"

definition zstd_ok :: "zstd \<Rightarrow> bool" where
  "zstd_ok Z \<longleftrightarrow> (\<forall>l d. z_dec Z (z_enc Z l d) = Some d)"

type_synonym chunk_files = "(string \<times> bytes) list"
type_synonym frameKey = "u32 \<times> int"

datatype hook_error = HookDecline | HookAbsent | HookFail

record hooks =
  h_sealed :: "(u32 \<Rightarrow> int \<Rightarrow> bool) option"
  h_missing :: "(u32 \<Rightarrow> chunk_files \<Rightarrow> hook_error + chunk_files) option"
  h_fetch :: "(u32 \<Rightarrow> int \<Rightarrow> hook_error + bytes) option"

datatype store_error =
    StoreCrypto crypto_error
  | StoreClosedPack
  | StoreSealHook
  | StoreNoPack
  | StoreHeader
  | StoreTooLong
  | StoreData
  | StoreDecode
  | StoreFrameShort
  | StoreFrameLength
  | StoreFetch
  | StoreAbsent
  | StoreOverlap

text \<open>The handle of the current pack: not opened yet, open, or closed by a failed rotation.\<close>

datatype pack_handle = NoHandle | OpenHandle | ClosedHandle

record ChunkStore =
  cs_files :: chunk_files
  cs_maxPackSize :: int
  cs_level :: int
  cs_handle :: pack_handle
  cs_packNum :: u32
  cs_offset :: int
  cs_key :: "MasterKey option"
  cs_cache :: "(frameKey \<times> bytes) list"
  cs_cacheBytes :: int
  cs_order :: "frameKey list"

definition maxChunkFrameLen :: nat where
  "maxChunkFrameLen = 64 * 1024 * 1024"

definition FrameCacheMaxBytes :: int where
  "FrameCacheMaxBytes = 64 * 1024 * 1024"

subsection \<open>Pack names\<close>

definition digit :: "nat \<Rightarrow> char" where
  "digit n = char_of (48 + n)"

fun decimal :: "nat \<Rightarrow> string" where
  "decimal n = (if n < 10 then [digit n] else decimal (n div 10) @ [digit (n mod 10)])"

declare decimal.simps [simp del]

definition packName :: "u32 \<Rightarrow> string" where
  "packName num = (let s = decimal (unat num) in replicate (4 - length s) (digit 0) @ s @ ''.pack'')"

definition isDigit :: "char \<Rightarrow> bool" where
  "isDigit c \<longleftrightarrow> 48 \<le> (of_char c :: nat) \<and> (of_char c :: nat) \<le> 57"

definition parseUint32 :: "string \<Rightarrow> u32 option" where
  "parseUint32 s =
     (if s = [] \<or> \<not> list_all isDigit s then None
      else let n = foldl (\<lambda>acc c. acc * 10 + (of_char c - 48)) 0 s :: nat
           in if n < 2 ^ 32 then Some (of_nat n) else None)"

definition CutSuffix :: "string \<Rightarrow> string \<Rightarrow> string option" where
  "CutSuffix s suf =
     (if length suf \<le> length s \<and> drop (length s - length suf) s = suf
      then Some (take (length s - length suf) s) else None)"

definition parsePackFileName :: "string \<Rightarrow> u32 option" where
  "parsePackFileName name =
     (case CutSuffix name ''.pack'' of
        None \<Rightarrow> None
      | Some numStr \<Rightarrow> if numStr = [] then None else parseUint32 numStr)"

fun maxPack :: "(u32 \<times> bool) \<Rightarrow> string list \<Rightarrow> u32 \<times> bool" where
  "maxPack (mx, found) [] = (mx, found)"
| "maxPack (mx, found) (name # names) =
     (case parsePackFileName name of
        None \<Rightarrow> maxPack (mx, found) names
      | Some n \<Rightarrow> maxPack (if \<not> found \<or> n > mx then n else mx, True) names)"

definition MaxPackNum :: "chunk_files \<Rightarrow> u32 \<times> bool" where
  "MaxPackNum files = maxPack (0, False) (map fst files)"

definition DeletePacksAbove :: "chunk_files \<Rightarrow> u32 \<Rightarrow> chunk_files" where
  "DeletePacksAbove files keepMax =
     filter (\<lambda>(name, _). case parsePackFileName name of None \<Rightarrow> True | Some n \<Rightarrow> n \<le> keepMax) files"

definition findLatestPack :: "chunk_files \<Rightarrow> u32" where
  "findLatestPack files =
     foldl (\<lambda>mx name. case parsePackFileName name of None \<Rightarrow> mx | Some n \<Rightarrow> if n \<ge> mx then n else mx)
       0 (map fst files)"

subsection \<open>Opening and rotating\<close>

definition newChunkStore :: "chunk_files \<Rightarrow> int \<Rightarrow> int \<Rightarrow> u32 \<Rightarrow> MasterKey option \<Rightarrow> ChunkStore" where
  "newChunkStore files maxPackSize compressionLevel startPack key =
     \<lparr> cs_files = files, cs_maxPackSize = maxPackSize, cs_level = compressionLevel, cs_handle = NoHandle,
       cs_packNum = startPack, cs_offset = 0, cs_key = key, cs_cache = [], cs_cacheBytes = 0, cs_order = [] \<rparr>"

definition NewChunkStore :: "chunk_files \<Rightarrow> int \<Rightarrow> int \<Rightarrow> MasterKey option \<Rightarrow> ChunkStore" where
  "NewChunkStore files maxPackSize compressionLevel key =
     newChunkStore files maxPackSize compressionLevel (findLatestPack files) key"

definition NewChunkStoreAt :: "chunk_files \<Rightarrow> int \<Rightarrow> int \<Rightarrow> u32 \<Rightarrow> MasterKey option \<Rightarrow> ChunkStore" where
  "NewChunkStoreAt files maxPackSize compressionLevel startPack key =
     newChunkStore files maxPackSize compressionLevel startPack key"

definition packFile :: "ChunkStore \<Rightarrow> u32 \<Rightarrow> bytes option" where
  "packFile cs num = map_of (cs_files cs) (packName num)"

definition openCurrentPack :: "ChunkStore \<Rightarrow> ChunkStore" where
  "openCurrentPack cs =
     (case packFile cs (cs_packNum cs) of
        Some f \<Rightarrow> cs\<lparr> cs_handle := OpenHandle, cs_offset := int (length f) \<rparr>
      | None \<Rightarrow> cs\<lparr> cs_files := AList.update (packName (cs_packNum cs)) [] (cs_files cs),
                    cs_handle := OpenHandle, cs_offset := 0 \<rparr>)"

definition ensureCurrentPack :: "ChunkStore \<Rightarrow> ChunkStore" where
  "ensureCurrentPack cs = (if cs_handle cs = NoHandle then openCurrentPack cs else cs)"

definition rotatePack :: "hooks \<Rightarrow> ChunkStore \<Rightarrow> store_error option \<times> ChunkStore" where
  "rotatePack H cs =
     (if cs_handle cs \<noteq> OpenHandle then (Some StoreClosedPack, cs)
      else let cs1 = cs\<lparr> cs_handle := ClosedHandle \<rparr> in
           if (case h_sealed H of None \<Rightarrow> False | Some f \<Rightarrow> \<not> f (cs_packNum cs) (cs_offset cs))
           then (Some StoreSealHook, cs1)
           else (None, openCurrentPack (cs1\<lparr> cs_packNum := cs_packNum cs + 1 \<rparr>)))"

text \<open>Writing at the handle's position, which is the end of the pack.\<close>

definition packWrite :: "bytes \<Rightarrow> ChunkStore \<Rightarrow> store_error option \<times> ChunkStore" where
  "packWrite data cs =
     (if cs_handle cs \<noteq> OpenHandle then (Some StoreClosedPack, cs)
      else let f = (case packFile cs (cs_packNum cs) of None \<Rightarrow> [] | Some f \<Rightarrow> f)
           in (None, cs\<lparr> cs_files := AList.update (packName (cs_packNum cs))
                                       (pwrite f (nat (cs_offset cs)) data) (cs_files cs) \<rparr>))"

definition needsRotate :: "ChunkStore \<Rightarrow> int \<Rightarrow> bool" where
  "needsRotate cs totalSize \<longleftrightarrow> cs_offset cs + totalSize > cs_maxPackSize cs \<and> cs_offset cs > 0"

text \<open>The common tail of storing: rotate, write the frame, advance.\<close>

definition appendFrame :: "hooks \<Rightarrow> bytes \<Rightarrow> ChunkStore \<Rightarrow> (store_error + u32 \<times> int \<times> int) \<times> ChunkStore" where
  "appendFrame H frame cs =
     (let totalSize = int (length frame) in
      case (if needsRotate cs totalSize then rotatePack H cs else (None, cs)) of
        (Some err, cs1) \<Rightarrow> (Inl err, cs1)
      | (None, cs1) \<Rightarrow>
          (case packWrite frame cs1 of
             (Some err, cs2) \<Rightarrow> (Inl err, cs2)
           | (None, cs2) \<Rightarrow>
               (Inr (cs_packNum cs1, cs_offset cs1, totalSize - 8),
                cs2\<lparr> cs_offset := cs_offset cs1 + totalSize \<rparr>)))"

definition encodePayload :: "prims \<Rightarrow> zstd \<Rightarrow> MasterKey option \<Rightarrow> int \<Rightarrow> bytes \<Rightarrow> bytes \<Rightarrow> crypto_error + bytes" where
  "encodePayload P Z key level nonce data =
     (let compressed = z_enc Z (CompressionPreset level) data in
      case key of None \<Rightarrow> Inr compressed | Some mk \<Rightarrow> EncryptWithAAD P mk nonce compressed AADChunk)"

definition cs_Store :: "prims \<Rightarrow> zstd \<Rightarrow> hooks \<Rightarrow> bytes \<Rightarrow> bytes \<Rightarrow> ChunkStore
    \<Rightarrow> (store_error + u32 \<times> int \<times> int) \<times> ChunkStore" where
  "cs_Store P Z H nonce data cs =
     (let cs1 = ensureCurrentPack cs in
      case encodePayload P Z (cs_key cs) (cs_level cs) nonce data of
        Inl err \<Rightarrow> (Inl (StoreCrypto err), cs1)
      | Inr payload \<Rightarrow>
          appendFrame H (put32 (of_nat (length payload)) @ put32 (of_nat (length data)) @ payload) cs1)"

definition StoreRaw :: "hooks \<Rightarrow> bytes \<Rightarrow> ChunkStore \<Rightarrow> (store_error + u32 \<times> int \<times> int) \<times> ChunkStore" where
  "StoreRaw H frame cs = appendFrame H frame (ensureCurrentPack cs)"

subsection \<open>Reading\<close>

definition decodePayload :: "prims \<Rightarrow> zstd \<Rightarrow> MasterKey option \<Rightarrow> bytes \<Rightarrow> store_error + bytes" where
  "decodePayload P Z key payload =
     (case (case key of None \<Rightarrow> Inr payload | Some mk \<Rightarrow> DecryptWithAAD P mk payload AADChunk) of
        Inl err \<Rightarrow> Inl (StoreCrypto err)
      | Inr compressed \<Rightarrow> (case z_dec Z compressed of None \<Rightarrow> Inl StoreDecode | Some d \<Rightarrow> Inr d))"

definition RetrieveFromFrame :: "prims \<Rightarrow> zstd \<Rightarrow> MasterKey option \<Rightarrow> bytes \<Rightarrow> store_error + bytes" where
  "RetrieveFromFrame P Z key frame =
     (if length frame < 8 then Inl StoreFrameShort
      else let payloadLen = get32 (bslice 0 4 frame) in
           if unat payloadLen + 8 > length frame then Inl StoreFrameLength
           else decodePayload P Z key (bslice 8 (unat (8 + payloadLen)) frame))"

fun evict :: "ChunkStore \<Rightarrow> frameKey list \<Rightarrow> ChunkStore" where
  "evict cs [] = cs\<lparr> cs_order := [] \<rparr>"
| "evict cs [k] = cs\<lparr> cs_order := [k] \<rparr>"
| "evict cs (k # k' # ks) =
     (if cs_cacheBytes cs > FrameCacheMaxBytes then
        evict (case map_of (cs_cache cs) k of
                 None \<Rightarrow> cs
               | Some v \<Rightarrow> cs\<lparr> cs_cache := AList.delete k (cs_cache cs),
                               cs_cacheBytes := cs_cacheBytes cs - int (length v) \<rparr>) (k' # ks)
      else cs\<lparr> cs_order := k # k' # ks \<rparr>)"

definition CacheFrame :: "u32 \<Rightarrow> int \<Rightarrow> bytes \<Rightarrow> ChunkStore \<Rightarrow> ChunkStore" where
  "CacheFrame packNum offset frame cs =
     (let k = (packNum, offset) in
      if map_of (cs_cache cs) k \<noteq> None then cs
      else evict (cs\<lparr> cs_cache := AList.update k frame (cs_cache cs),
                      cs_cacheBytes := cs_cacheBytes cs + int (length frame) \<rparr>) (cs_order cs @ [k]))"

fun dropLoop :: "u32 \<Rightarrow> ChunkStore \<Rightarrow> frameKey list \<Rightarrow> frameKey list \<Rightarrow> ChunkStore" where
  "dropLoop packNum cs kept [] = cs\<lparr> cs_order := kept \<rparr>"
| "dropLoop packNum cs kept (fk # fks) =
     (if fst fk \<noteq> packNum then dropLoop packNum cs (kept @ [fk]) fks
      else dropLoop packNum
             (case map_of (cs_cache cs) fk of
                None \<Rightarrow> cs
              | Some v \<Rightarrow> cs\<lparr> cs_cache := AList.delete fk (cs_cache cs),
                              cs_cacheBytes := cs_cacheBytes cs - int (length v) \<rparr>) kept fks)"

definition DropFrames :: "u32 \<Rightarrow> ChunkStore \<Rightarrow> ChunkStore" where
  "DropFrames packNum cs = dropLoop packNum cs [] (cs_order cs)"

definition HasFrame :: "ChunkStore \<Rightarrow> u32 \<Rightarrow> int \<Rightarrow> bool" where
  "HasFrame cs packNum offset \<longleftrightarrow> map_of (cs_cache cs) (packNum, offset) \<noteq> None"

text \<open>\<open>None\<close>: the planner declined and the pack path goes on.\<close>

definition chunkFetch :: "prims \<Rightarrow> zstd \<Rightarrow> (u32 \<Rightarrow> int \<Rightarrow> hook_error + bytes) \<Rightarrow> u32 \<Rightarrow> int \<Rightarrow> ChunkStore
    \<Rightarrow> (store_error + bytes) option \<times> ChunkStore" where
  "chunkFetch P Z fetch packNum offset cs =
     (case fetch packNum offset of
        Inl HookDecline \<Rightarrow> (None, cs)
      | Inl HookAbsent \<Rightarrow> (Some (Inl StoreAbsent), cs)
      | Inl HookFail \<Rightarrow> (Some (Inl StoreFetch), cs)
      | Inr frame \<Rightarrow>
          (Some (RetrieveFromFrame P Z (cs_key cs) frame), CacheFrame packNum offset frame cs))"

definition tryFetch :: "prims \<Rightarrow> zstd \<Rightarrow> hooks \<Rightarrow> u32 \<Rightarrow> int \<Rightarrow> ChunkStore \<Rightarrow> (store_error + bytes) option \<times> ChunkStore" where
  "tryFetch P Z H packNum offset cs =
     (case h_fetch H of None \<Rightarrow> (None, cs) | Some fetch \<Rightarrow> chunkFetch P Z fetch packNum offset cs)"

definition fetchAndOpenPack :: "(u32 \<Rightarrow> chunk_files \<Rightarrow> hook_error + chunk_files) \<Rightarrow> u32 \<Rightarrow> ChunkStore
    \<Rightarrow> (store_error + bytes) \<times> ChunkStore" where
  "fetchAndOpenPack missing packNum cs =
     (case missing packNum (cs_files cs) of
        Inl HookAbsent \<Rightarrow> (Inl StoreAbsent, cs)
      | Inl _ \<Rightarrow> (Inl StoreFetch, cs)
      | Inr files \<Rightarrow>
          let cs' = cs\<lparr> cs_files := files \<rparr> in
          (case packFile cs' packNum of None \<Rightarrow> (Inl StoreNoPack, cs') | Some f \<Rightarrow> (Inr f, cs')))"

definition openPackForRead :: "hooks \<Rightarrow> u32 \<Rightarrow> ChunkStore \<Rightarrow> (store_error + bytes) \<times> ChunkStore" where
  "openPackForRead H packNum cs =
     (case packFile cs packNum of
        Some f \<Rightarrow> (Inr f, cs)
      | None \<Rightarrow>
          (case h_missing H of
             None \<Rightarrow> (Inl StoreNoPack, cs)
           | Some missing \<Rightarrow> fetchAndOpenPack missing packNum cs))"

text \<open>From a header that was read: the length bound, the payload, decryption, decompression.\<close>

definition readPayload :: "prims \<Rightarrow> zstd \<Rightarrow> MasterKey option \<Rightarrow> bytes \<Rightarrow> int \<Rightarrow> bytes \<Rightarrow> store_error + bytes" where
  "readPayload P Z key f offset header =
     (let payloadLen = unat (get32 (bslice 0 4 header)) in
      if payloadLen > maxChunkFrameLen then Inl StoreTooLong
      else case fileReadAt f (offset + 8) payloadLen of
             None \<Rightarrow> Inl StoreData
           | Some payload \<Rightarrow> decodePayload P Z key payload)"

definition readFrameAt :: "prims \<Rightarrow> zstd \<Rightarrow> hooks \<Rightarrow> u32 \<Rightarrow> int \<Rightarrow> bytes \<Rightarrow> ChunkStore
    \<Rightarrow> (store_error + bytes) \<times> ChunkStore" where
  "readFrameAt P Z H packNum offset f cs =
     (case fileReadAt f offset 8 of
        Some header \<Rightarrow> (readPayload P Z (cs_key cs) f offset header, cs)
      | None \<Rightarrow>
          if offset < 0 then (Inl StoreHeader, cs)
          else case tryFetch P Z H packNum offset cs of
                 (Some r, cs1) \<Rightarrow> (r, cs1)
               | (None, cs1) \<Rightarrow>
                   (case h_missing H of
                      None \<Rightarrow> (Inl StoreHeader, cs1)
                    | Some missing \<Rightarrow>
                        (case fetchAndOpenPack missing packNum cs1 of
                           (Inl err, cs2) \<Rightarrow> (Inl err, cs2)
                         | (Inr f2, cs2) \<Rightarrow>
                             (case fileReadAt f2 offset 8 of
                                None \<Rightarrow> (Inl StoreHeader, cs2)
                              | Some header \<Rightarrow> (readPayload P Z (cs_key cs) f2 offset header, cs2)))))"

definition Retrieve :: "prims \<Rightarrow> zstd \<Rightarrow> hooks \<Rightarrow> u32 \<Rightarrow> int \<Rightarrow> ChunkStore \<Rightarrow> (store_error + bytes) \<times> ChunkStore" where
  "Retrieve P Z H packNum offset cs =
     (case map_of (cs_cache cs) (packNum, offset) of
        Some frame \<Rightarrow> (RetrieveFromFrame P Z (cs_key cs) frame, cs)
      | None \<Rightarrow>
          (case (if packFile cs packNum = None then tryFetch P Z H packNum offset cs else (None, cs)) of
             (Some r, cs1) \<Rightarrow> (r, cs1)
           | (None, cs1) \<Rightarrow>
               (case openPackForRead H packNum cs1 of
                  (Inr f, cs2) \<Rightarrow> readFrameAt P Z H packNum offset f cs2
                | (Inl err, cs2) \<Rightarrow>
                    (case tryFetch P Z H packNum offset cs2 of
                       (Some r, cs3) \<Rightarrow> (r, cs3)
                     | (None, cs3) \<Rightarrow> (Inl err, cs3)))))"

definition RetrieveRaw :: "u32 \<Rightarrow> int \<Rightarrow> ChunkStore \<Rightarrow> store_error + bytes \<times> u32" where
  "RetrieveRaw packNum offset cs =
     (case packFile cs packNum of
        None \<Rightarrow> Inl StoreNoPack
      | Some f \<Rightarrow>
          (case fileReadAt f offset 8 of
             None \<Rightarrow> Inl StoreHeader
           | Some header \<Rightarrow>
               let compressedLen = unat (get32 (bslice 0 4 header)) in
               if compressedLen > maxChunkFrameLen then Inl StoreTooLong
               else case fileReadAt f (offset + 8) compressedLen of
                      None \<Rightarrow> Inl StoreData
                    | Some body \<Rightarrow> Inr (header @ body, get32 (bslice 4 8 header))))"

definition cs_Close :: "hooks \<Rightarrow> ChunkStore \<Rightarrow> store_error option \<times> ChunkStore" where
  "cs_Close H cs =
     (case cs_handle cs of
        NoHandle \<Rightarrow> (None, cs)
      | ClosedHandle \<Rightarrow> (Some StoreClosedPack, cs)
      | OpenHandle \<Rightarrow>
          let cs1 = cs\<lparr> cs_handle := ClosedHandle \<rparr> in
          if (case h_sealed H of None \<Rightarrow> False | Some f \<Rightarrow> cs_offset cs > 0 \<and> \<not> f (cs_packNum cs) (cs_offset cs))
          then (Some StoreSealHook, cs1) else (None, cs1))"

record StoreStats =
  PackFiles :: nat
  CurrentPackNum :: u32
  CurrentPackBytes :: int
  TotalBytes :: int

definition cs_Stats :: "ChunkStore \<Rightarrow> StoreStats" where
  "cs_Stats cs =
     \<lparr> PackFiles = length (cs_files cs), CurrentPackNum = cs_packNum cs, CurrentPackBytes = cs_offset cs,
       TotalBytes = sum_list (map (\<lambda>(_, f). int (length f)) (cs_files cs)) \<rparr>"

subsection \<open>Sparse packs\<close>

fun extractLoop :: "bytes \<Rightarrow> int \<Rightarrow> int \<Rightarrow> bytes \<Rightarrow> int list \<Rightarrow> store_error + int \<times> bytes" where
  "extractLoop src prevEnd kept dst [] = Inr (kept, dst)"
| "extractLoop src prevEnd kept dst (off # offs) =
     (if off < prevEnd then Inl StoreOverlap
      else case fileReadAt src off 8 of
             None \<Rightarrow> Inl StoreHeader
           | Some header \<Rightarrow>
               let compressedLen = unat (get32 (bslice 0 4 header)) in
               if compressedLen > maxChunkFrameLen then Inl StoreTooLong
               else let frameLen = 8 + compressedLen in
                    case fileReadAt src off frameLen of
                      None \<Rightarrow> Inl StoreData
                    | Some frame \<Rightarrow>
                        extractLoop src (off + int frameLen) (kept + int frameLen) (pwrite dst (nat off) frame) offs)"

definition fileTruncate :: "bytes \<Rightarrow> nat \<Rightarrow> bytes" where
  "fileTruncate f n = take n f @ replicate (n - length f) 0"

definition ExtractFrames :: "bytes \<Rightarrow> int list \<Rightarrow> store_error + int \<times> bytes" where
  "ExtractFrames src offsets =
     map_sum id (\<lambda>(kept, dst). (kept, fileTruncate dst (length src))) (extractLoop src (-1) 0 [] offsets)"

end
