(* ===== verification/Store_Correct.thy ===== *)
theory Store_Correct
  imports Chunk_Store
begin

text \<open>
  Correctness of the pack files: names, durability of stored chunks, the bounded frame cache
  and sparse packs.
\<close>

section \<open>Pack names\<close>

definition digits_value :: "nat \<Rightarrow> string \<Rightarrow> nat" where
  "digits_value acc s = foldl (\<lambda>acc c. acc * 10 + (of_char c - 48)) acc s"

lemma of_char_digit: "n < 10 \<Longrightarrow> (of_char (digit n) :: nat) = 48 + n"
  by (simp add: digit_def)

lemma decimal_value: "digits_value 0 (decimal n) = n"
proof (induction n rule: decimal.induct)
  case (1 n)
  show ?case
  proof (cases "n < 10")
    case True
    then show ?thesis by (simp add: decimal.simps [of n] digits_value_def of_char_digit)
  next
    case False
    have "digits_value 0 (decimal n) = digits_value 0 (decimal (n div 10)) * 10 + n mod 10"
      using False by (subst decimal.simps) (simp add: digits_value_def of_char_digit)
    then show ?thesis using 1 False by simp
  qed
qed

lemma decimal_digits: "list_all isDigit (decimal n) \<and> decimal n \<noteq> []"
proof (induction n rule: decimal.induct)
  case (1 n)
  have d: "isDigit (digit k)" if "k < 10" for k using that by (simp add: isDigit_def of_char_digit)
  show ?case using 1 d by (subst (1 2) decimal.simps) simp
qed

lemma leading_zeros: "digits_value 0 (replicate k (digit 0) @ s) = digits_value 0 s"
  by (induction k) (simp_all add: digits_value_def of_char_digit)

lemma parse_packName: "parsePackFileName (packName n) = Some n"
proof -
  let ?s = "replicate (4 - length (decimal (unat n))) (digit 0) @ decimal (unat n)"
  have "CutSuffix (packName n) ''.pack'' = Some ?s"
    by (simp add: packName_def CutSuffix_def Let_def)
  moreover have "?s \<noteq> []" using decimal_digits by simp
  moreover have "list_all isDigit ?s"
    using decimal_digits [of "unat n"] by (auto simp: list_all_iff isDigit_def of_char_digit)
  moreover have "digits_value 0 ?s = unat n" by (simp add: leading_zeros decimal_value)
  moreover have "unat n < 2 ^ 32" using unsigned_less [of n] by simp
  ultimately show ?thesis
    unfolding parsePackFileName_def parseUint32_def digits_value_def [symmetric] Let_def
    by (simp del: append_is_Nil_conv)
qed

lemma packName_inj: "packName m = packName n \<longleftrightarrow> m = n"
  using parse_packName by (metis option.inject)

section \<open>Packs only grow\<close>

definition extends :: "chunk_files \<Rightarrow> chunk_files \<Rightarrow> bool" where
  "extends files files' \<longleftrightarrow> (\<forall>name f. map_of files name = Some f \<longrightarrow> (\<exists>g. map_of files' name = Some (f @ g)))"

lemma extends_refl: "extends files files"
  by (simp add: extends_def)

lemma extends_trans: "extends a b \<Longrightarrow> extends b c \<Longrightarrow> extends a c"
  unfolding extends_def by (metis append_assoc)

definition cs_ok :: "ChunkStore \<Rightarrow> bool" where
  "cs_ok cs \<longleftrightarrow>
     (cs_handle cs = OpenHandle \<longrightarrow> (\<exists>f. packFile cs (cs_packNum cs) = Some f \<and> cs_offset cs = int (length f)))"

definition same_config :: "ChunkStore \<Rightarrow> ChunkStore \<Rightarrow> bool" where
  "same_config cs cs' \<longleftrightarrow> cs_key cs' = cs_key cs \<and> cs_level cs' = cs_level cs \<and> cs_cache cs' = cs_cache cs \<and>
     cs_maxPackSize cs' = cs_maxPackSize cs"

definition cs_grows :: "ChunkStore \<Rightarrow> ChunkStore \<Rightarrow> bool" where
  "cs_grows cs cs' \<longleftrightarrow> cs_ok cs' \<and> extends (cs_files cs) (cs_files cs') \<and> same_config cs cs'"

lemma cs_grows_refl: "cs_ok cs \<Longrightarrow> cs_grows cs cs"
  by (simp add: cs_grows_def extends_refl same_config_def)

lemma cs_grows_trans: "cs_grows a b \<Longrightarrow> cs_grows b c \<Longrightarrow> cs_grows a c"
  by (auto simp: cs_grows_def same_config_def intro: extends_trans)

lemma openCurrentPack_grows:
  "cs_grows cs (openCurrentPack cs) \<and> cs_handle (openCurrentPack cs) = OpenHandle"
proof (cases "packFile cs (cs_packNum cs)")
  case None
  then show ?thesis
    by (auto simp: openCurrentPack_def cs_grows_def cs_ok_def extends_def same_config_def packFile_def update_conv')
next
  case (Some f)
  then show ?thesis
    by (auto simp: openCurrentPack_def cs_grows_def cs_ok_def extends_refl same_config_def packFile_def)
qed

lemma ensure_grows: "cs_ok cs \<Longrightarrow> cs_grows cs (ensureCurrentPack cs)"
  by (simp add: ensureCurrentPack_def openCurrentPack_grows cs_grows_refl)

lemma rotatePack_grows: "cs_ok cs \<Longrightarrow> rotatePack H cs = (err, cs') \<Longrightarrow> cs_grows cs cs'"
proof -
  assume ok: "cs_ok cs" and r: "rotatePack H cs = (err, cs')"
  have c: "cs_grows cs (cs\<lparr> cs_handle := ClosedHandle \<rparr>)"
    by (simp add: cs_grows_def cs_ok_def extends_refl same_config_def)
  have "cs_grows cs (openCurrentPack (cs\<lparr> cs_handle := ClosedHandle, cs_packNum := cs_packNum cs + 1 \<rparr>))"
    using openCurrentPack_grows [of "cs\<lparr> cs_handle := ClosedHandle, cs_packNum := cs_packNum cs + 1 \<rparr>"]
    by (simp add: cs_grows_def same_config_def)
  then show ?thesis using r ok c by (auto simp: rotatePack_def Let_def cs_grows_refl split: if_splits option.splits)
qed

definition seal_ok :: "hooks \<Rightarrow> bool" where
  "seal_ok H \<longleftrightarrow> (\<forall>f n s. h_sealed H = Some f \<longrightarrow> f n s)"

lemma rotatePack_ok:
  "seal_ok H \<Longrightarrow> cs_handle cs = OpenHandle \<Longrightarrow> \<exists>cs'. rotatePack H cs = (None, cs') \<and> cs_handle cs' = OpenHandle"
  using openCurrentPack_grows by (auto simp: rotatePack_def seal_ok_def Let_def split: option.splits)

lemma appended:
  assumes "cs_ok cs" "cs_handle cs = OpenHandle"
  obtains f where "packFile cs (cs_packNum cs) = Some f" "cs_offset cs = int (length f)"
    "packWrite frame cs = (None, cs\<lparr> cs_files := AList.update (packName (cs_packNum cs)) (f @ frame) (cs_files cs) \<rparr>)"
  using assms by (auto simp: cs_ok_def packWrite_def pwrite_def)

lemma appendFrame_grows:
  assumes "cs_ok cs" "appendFrame H frame cs = (r, cs')"
  shows "cs_grows cs cs'"
proof -
  obtain err cs1 where r1: "(if needsRotate cs (int (length frame)) then rotatePack H cs else (None, cs)) = (err, cs1)"
    by fastforce
  then have g1: "cs_grows cs cs1"
    using assms(1) rotatePack_grows cs_grows_refl by (auto split: if_splits)
  show ?thesis
  proof (cases "err = None \<and> cs_handle cs1 = OpenHandle")
    case True
    have "cs_ok cs1" using g1 by (simp add: cs_grows_def)
    with True appended obtain f where f: "packFile cs1 (cs_packNum cs1) = Some f" "cs_offset cs1 = int (length f)"
      "packWrite frame cs1 = (None, cs1\<lparr> cs_files := AList.update (packName (cs_packNum cs1)) (f @ frame) (cs_files cs1) \<rparr>)"
      by metis
    have "cs_grows cs1 cs'"
      using assms(2) r1 True f
      by (auto simp: appendFrame_def Let_def cs_grows_def cs_ok_def extends_def same_config_def packFile_def update_conv')
    with g1 show ?thesis by (rule cs_grows_trans)
  next
    case False
    then have "cs' = cs1" using assms(2) r1 by (auto simp: appendFrame_def Let_def packWrite_def split: option.splits)
    with g1 show ?thesis by simp
  qed
qed

text \<open>The bytes of a frame inside a pack, and that they stay there.\<close>

definition frame_at :: "ChunkStore \<Rightarrow> u32 \<Rightarrow> int \<Rightarrow> bytes \<Rightarrow> bool" where
  "frame_at cs p off frame \<longleftrightarrow>
     (\<exists>a b. packFile cs p = Some (a @ frame @ b) \<and> off = int (length a))"

lemma frame_at_grows: "frame_at cs p off frame \<Longrightarrow> extends (cs_files cs) (cs_files cs') \<Longrightarrow> frame_at cs' p off frame"
  by (fastforce simp: frame_at_def extends_def packFile_def)

lemma appendFrame_ok:
  assumes "cs_ok cs" "cs_handle cs = OpenHandle" "seal_ok H"
  shows "\<exists>p off cs'. appendFrame H frame cs = (Inr (p, off, int (length frame) - 8), cs') \<and>
    cs_handle cs' = OpenHandle \<and> frame_at cs' p off frame"
proof -
  obtain cs1 where r1: "(if needsRotate cs (int (length frame)) then rotatePack H cs else (None, cs)) = (None, cs1)"
    "cs_handle cs1 = OpenHandle"
    using rotatePack_ok [OF assms(3,2)] assms(2) by (cases "needsRotate cs (int (length frame))") auto
  then have "cs_ok cs1"
    using assms(1) rotatePack_grows [OF assms(1)] by (auto simp: cs_grows_def split: if_splits)
  with r1(2) appended obtain f where f: "packFile cs1 (cs_packNum cs1) = Some f" "cs_offset cs1 = int (length f)"
    "packWrite frame cs1 = (None, cs1\<lparr> cs_files := AList.update (packName (cs_packNum cs1)) (f @ frame) (cs_files cs1) \<rparr>)"
    by metis
  let ?cs' = "cs1\<lparr> cs_files := AList.update (packName (cs_packNum cs1)) (f @ frame) (cs_files cs1),
    cs_offset := cs_offset cs1 + int (length frame) \<rparr>"
  have "appendFrame H frame cs = (Inr (cs_packNum cs1, cs_offset cs1, int (length frame) - 8), ?cs')"
    using r1(1) f(3) by (simp add: appendFrame_def Let_def)
  moreover have "frame_at ?cs' (cs_packNum cs1) (cs_offset cs1) frame"
    unfolding frame_at_def using f(2) by (intro exI [of _ f] exI [of _ "[]"]) (simp add: packFile_def update_conv')
  ultimately show ?thesis using r1(2) by auto
qed

section \<open>Reading frames back\<close>

lemma read_in_frame:
  assumes "frame_at cs p off frame" "k + n \<le> length frame"
  shows "\<exists>f. packFile cs p = Some f \<and> fileReadAt f (off + int k) n = Some (take n (drop k frame))"
  using assms by (auto simp: frame_at_def fileReadAt_def pread_def nat_add_distrib)

definition chunk_frame :: "bytes \<Rightarrow> bytes \<Rightarrow> bytes" where
  "chunk_frame payload data = put32 (of_nat (length payload)) @ put32 (of_nat (length data)) @ payload"

lemma chunk_frame_simps:
  "length (chunk_frame payload data) = 8 + length payload" "drop 8 (chunk_frame payload data) = payload"
  "take 4 (chunk_frame payload data) = put32 (of_nat (length payload))"
  by (simp_all add: chunk_frame_def bslice_def)

lemma payload_len:
  "length payload \<le> maxChunkFrameLen \<Longrightarrow> unat (of_nat (length payload) :: u32) = length payload"
  by (simp add: unat_of_nat maxChunkFrameLen_def)

lemma Retrieve_frame:
  assumes "frame_at cs p off (chunk_frame payload data)" "length payload \<le> maxChunkFrameLen"
    "map_of (cs_cache cs) (p, off) = None" "decodePayload P Z (cs_key cs) payload = Inr data"
  shows "Retrieve P Z H p off cs = (Inr data, cs)"
proof -
  obtain f where f: "packFile cs p = Some f" "fileReadAt f off 8 = Some (take 8 (chunk_frame payload data))"
    using read_in_frame [OF assms(1), of 0 8] by (auto simp: chunk_frame_simps)
  have "fileReadAt f (off + 8) (length payload) = Some payload"
    using read_in_frame [OF assms(1), of 8 "length payload"] f(1) by (simp add: chunk_frame_simps)
  then have "readPayload P Z (cs_key cs) f off (take 8 (chunk_frame payload data)) = Inr data"
    using assms(2,4) by (simp add: readPayload_def Let_def chunk_frame_simps payload_len)
  then show ?thesis
    using assms(3) f by (simp add: Retrieve_def openPackForRead_def readFrameAt_def)
qed

definition codec_ok :: "prims \<Rightarrow> zstd \<Rightarrow> MasterKey option \<Rightarrow> bool" where
  "codec_ok P Z key \<longleftrightarrow> zstd_ok Z \<and> aead_ok P \<and> (\<forall>mk. key = Some mk \<longrightarrow> length mk = 32)"

lemma encode_decode:
  assumes "codec_ok P Z key" "length nonce = 12"
  shows "\<exists>payload. encodePayload P Z key level nonce data = Inr payload \<and> decodePayload P Z key payload = Inr data"
proof (cases key)
  case None
  then show ?thesis using assms by (simp add: encodePayload_def decodePayload_def codec_ok_def zstd_ok_def Let_def)
next
  case (Some mk)
  have k: "aesKeyOk mk" using assms(1) Some by (simp add: codec_ok_def aesKeyOk_32)
  let ?c = "z_enc Z (CompressionPreset level) data"
  have "DecryptWithAAD P mk (nonce @ gcm_seal P mk nonce ?c AADChunk) AADChunk = Inr ?c"
    using assms k openGCM_seal [of P mk nonce ?c AADChunk]
    by (simp add: DecryptWithAAD_def crypto_sizes codec_ok_def aead_ok_def)
  then show ?thesis
    using assms Some k
    by (simp add: encodePayload_def decodePayload_def codec_ok_def zstd_ok_def Let_def EncryptWithAAD_def sealGCM_def crypto_sizes)
qed

section \<open>Sequences of writes\<close>

datatype st_op = StStore bytes bytes | StRaw bytes

fun st_step :: "prims \<Rightarrow> zstd \<Rightarrow> hooks \<Rightarrow> st_op \<Rightarrow> ChunkStore \<Rightarrow> ChunkStore" where
  "st_step P Z H (StStore nonce data) cs = snd (cs_Store P Z H nonce data cs)"
| "st_step P Z H (StRaw frame) cs = snd (StoreRaw H frame cs)"

lemma StoreRaw_grows:
  assumes "cs_ok cs"
  shows "cs_grows cs (snd (StoreRaw H frame cs))"
proof -
  obtain r cs' where r: "appendFrame H frame (ensureCurrentPack cs) = (r, cs')" by fastforce
  have e: "cs_grows cs (ensureCurrentPack cs)" by (rule ensure_grows [OF assms])
  then have "cs_grows (ensureCurrentPack cs) cs'" by (intro appendFrame_grows [OF _ r]) (simp add: cs_grows_def)
  with e r show ?thesis using cs_grows_trans by (simp add: StoreRaw_def)
qed

lemma cs_Store_grows: "cs_ok cs \<Longrightarrow> cs_grows cs (snd (cs_Store P Z H nonce data cs))"
proof (cases "encodePayload P Z (cs_key cs) (cs_level cs) nonce data")
  case (Inr payload)
  assume "cs_ok cs"
  with Inr StoreRaw_grows [of cs H "put32 (of_nat (length payload)) @ put32 (of_nat (length data)) @ payload"]
  show ?thesis by (simp add: cs_Store_def StoreRaw_def Let_def)
qed (simp add: cs_Store_def Let_def ensure_grows)

lemma st_run_grows: "cs_ok cs \<Longrightarrow> cs_grows cs (fold (st_step P Z H) ops cs)"
proof (induction ops arbitrary: cs)
  case (Cons a ops)
  have "cs_grows cs (st_step P Z H a cs)"
    using Cons.prems by (cases a) (simp_all add: StoreRaw_grows cs_Store_grows)
  moreover from this have "cs_grows (st_step P Z H a cs) (fold (st_step P Z H) ops (st_step P Z H a cs))"
    by (intro Cons.IH) (simp add: cs_grows_def)
  ultimately show ?case by (auto intro: cs_grows_trans)
qed (simp add: cs_grows_refl)

lemma cs_Store_ok:
  assumes "cs_ok cs" "cs_handle cs \<noteq> ClosedHandle" "seal_ok H"
    "encodePayload P Z (cs_key cs) (cs_level cs) nonce data = Inr payload"
  shows "\<exists>p off cs'. cs_Store P Z H nonce data cs = (Inr (p, off, int (length payload)), cs') \<and>
    frame_at cs' p off (chunk_frame payload data)"
proof -
  have "cs_handle (ensureCurrentPack cs) = OpenHandle"
    using assms(2) openCurrentPack_grows [of cs] by (cases "cs_handle cs") (simp_all add: ensureCurrentPack_def)
  moreover have "cs_ok (ensureCurrentPack cs)" using ensure_grows [OF assms(1)] by (simp add: cs_grows_def)
  ultimately show ?thesis
    using appendFrame_ok [of "ensureCurrentPack cs" H "chunk_frame payload data"] assms(3,4)
    by (auto simp: cs_Store_def Let_def chunk_frame_simps chunk_frame_def [symmetric])
qed

section \<open>The frame cache\<close>

definition cache_ok :: "ChunkStore \<Rightarrow> bool" where
  "cache_ok cs \<longleftrightarrow>
     distinct (map fst (cs_cache cs)) \<and> distinct (cs_order cs) \<and> set (cs_order cs) = fst ` set (cs_cache cs) \<and>
     cs_cacheBytes cs = (\<Sum>(k, v) \<leftarrow> cs_cache cs. int (length v))"

lemma delete_sum:
  "distinct (map fst xs) \<Longrightarrow> map_of xs k = Some v \<Longrightarrow>
     (\<Sum>(k, v) \<leftarrow> AList.delete k xs. int (length v)) = (\<Sum>(k, v) \<leftarrow> xs. int (length v)) - int (length v)"
proof (induction xs)
  case (Cons x xs)
  have "AList.delete k xs = xs" if "k \<notin> fst ` set xs" using that by (simp add: delete_idem)
  with Cons show ?case by (cases x) (auto simp: rev_image_eqI)
qed simp

lemma drop_key:
  assumes "cache_ok (cs\<lparr> cs_order := k # ks \<rparr>)"
  shows "\<exists>v. map_of (cs_cache cs) k = Some v \<and>
    cache_ok (cs\<lparr> cs_cache := AList.delete k (cs_cache cs), cs_cacheBytes := cs_cacheBytes cs - int (length v),
      cs_order := ks \<rparr>)"
proof -
  have k: "k \<in> fst ` set (cs_cache cs)" "k \<notin> set ks" and d: "distinct (map fst (cs_cache cs))"
    using assms by (auto simp: cache_ok_def)
  then obtain v where v: "map_of (cs_cache cs) k = Some v" by (metis map_of_eq_None_iff option.exhaust)
  have keys: "map fst (AList.delete k (cs_cache cs)) = removeAll k (map fst (cs_cache cs))"
    by (rule delete_keys)
  then have "distinct (map fst (AList.delete k (cs_cache cs)))" using d by (simp add: distinct_removeAll)
  moreover have "fst ` set (AList.delete k (cs_cache cs)) = fst ` set (cs_cache cs) - {k}"
    using arg_cong [OF keys, of set] by simp
  moreover have "insert k (set ks) = fst ` set (cs_cache cs)" "distinct ks"
    "cs_cacheBytes cs = (\<Sum>(k, v) \<leftarrow> cs_cache cs. int (length v))"
    using assms by (simp_all add: cache_ok_def)
  ultimately show ?thesis
    using v k(2) delete_sum [OF d v] by (auto simp: cache_ok_def)
qed

lemma cache_ok_order:
  "distinct ks' \<Longrightarrow> set ks' = set ks \<Longrightarrow> cache_ok (cs\<lparr> cs_order := ks \<rparr>) \<Longrightarrow> cache_ok (cs\<lparr> cs_order := ks' \<rparr>)"
  by (simp add: cache_ok_def)

definition forget_key :: "frameKey \<Rightarrow> ChunkStore \<Rightarrow> ChunkStore" where
  "forget_key k cs = (case map_of (cs_cache cs) k of
     None \<Rightarrow> cs
   | Some v \<Rightarrow> cs\<lparr> cs_cache := AList.delete k (cs_cache cs), cs_cacheBytes := cs_cacheBytes cs - int (length v) \<rparr>)"

lemma forget_key_ok: "cache_ok (cs\<lparr> cs_order := k # ks \<rparr>) \<Longrightarrow> cache_ok ((forget_key k cs)\<lparr> cs_order := ks \<rparr>)"
  using drop_key [of k ks cs] by (auto simp: forget_key_def)

definition cache_small :: "ChunkStore \<Rightarrow> bool" where
  "cache_small cs \<longleftrightarrow> cs_cacheBytes cs \<le> FrameCacheMaxBytes \<or> length (cs_order cs) \<le> 1"

lemma evict_ok:
  "cache_ok (cs\<lparr> cs_order := ks \<rparr>) \<Longrightarrow> ks \<noteq> [] \<Longrightarrow>
     cache_ok (evict cs ks) \<and> cache_small (evict cs ks) \<and> last ks \<in> set (cs_order (evict cs ks))"
proof (induction cs ks rule: evict.induct)
  case (3 cs k k' ks)
  show ?case
  proof (cases "cs_cacheBytes cs > FrameCacheMaxBytes")
    case True
    have "cache_ok ((forget_key k cs)\<lparr> cs_order := k' # ks \<rparr>)" by (rule forget_key_ok [OF "3.prems"(1)])
    with 3 True show ?thesis by (simp add: forget_key_def)
  next
    case False
    with "3.prems" show ?thesis by (simp add: cache_small_def)
  qed
qed (simp_all add: cache_small_def)

lemma HasFrame_order: "cache_ok cs \<Longrightarrow> HasFrame cs p off \<longleftrightarrow> (p, off) \<in> set (cs_order cs)"
  by (auto simp: HasFrame_def cache_ok_def map_of_eq_None_iff)

lemma update_new: "k \<notin> fst ` set xs \<Longrightarrow> AList.update k v xs = xs @ [(k, v)]"
  by (induction xs) auto

lemma CacheFrame_ok:
  assumes "cache_ok cs" "cache_small cs"
  shows "cache_ok (CacheFrame p off frame cs) \<and> cache_small (CacheFrame p off frame cs) \<and>
    HasFrame (CacheFrame p off frame cs) p off"
proof (cases "map_of (cs_cache cs) (p, off)")
  case None
  let ?cs1 = "cs\<lparr> cs_cache := AList.update (p, off) frame (cs_cache cs),
    cs_cacheBytes := cs_cacheBytes cs + int (length frame) \<rparr>"
  let ?ks = "cs_order cs @ [(p, off)]"
  have new: "(p, off) \<notin> fst ` set (cs_cache cs)" using None by (simp add: map_of_eq_None_iff)
  then have "AList.update (p, off) frame (cs_cache cs) = cs_cache cs @ [((p, off), frame)]" by (rule update_new)
  then have "cache_ok (?cs1\<lparr> cs_order := ?ks \<rparr>)" using assms(1) new by (auto simp: cache_ok_def)
  from evict_ok [OF this] show ?thesis
    using None HasFrame_order [of "evict ?cs1 ?ks" p off] by (simp add: CacheFrame_def Let_def)
next
  case (Some v)
  then show ?thesis using assms by (simp add: CacheFrame_def HasFrame_def)
qed

lemma dropLoop_ok:
  "cache_ok (cs\<lparr> cs_order := kept @ fks \<rparr>) \<Longrightarrow>
     cache_ok (dropLoop p cs kept fks) \<and> cs_order (dropLoop p cs kept fks) = kept @ filter (\<lambda>k. fst k \<noteq> p) fks \<and>
     cs_cacheBytes (dropLoop p cs kept fks) \<le> cs_cacheBytes cs"
proof (induction p cs kept fks rule: dropLoop.induct)
  case (2 p cs kept fk fks)
  show ?case
  proof (cases "fst fk = p")
    case False
    with 2 show ?thesis by simp
  next
    case True
    have "cache_ok (cs\<lparr> cs_order := fk # kept @ fks \<rparr>)"
      using "2.prems" by (rule cache_ok_order [rotated 2]) (use "2.prems" in \<open>auto simp: cache_ok_def\<close>)
    then have "cache_ok ((forget_key fk cs)\<lparr> cs_order := kept @ fks \<rparr>)" by (rule forget_key_ok)
    moreover have "cs_cacheBytes (forget_key fk cs) \<le> cs_cacheBytes cs"
      by (simp add: forget_key_def split: option.splits)
    ultimately show ?thesis
      using 2 True by (auto simp: forget_key_def [symmetric] intro: order_trans)
  qed
qed simp

datatype cache_op = CoCache u32 int bytes | CoDrop u32

fun cache_step :: "cache_op \<Rightarrow> ChunkStore \<Rightarrow> ChunkStore" where
  "cache_step (CoCache p off frame) cs = CacheFrame p off frame cs"
| "cache_step (CoDrop p) cs = DropFrames p cs"

lemma DropFrames_ok:
  assumes "cache_ok cs" "cache_small cs"
  shows "cache_ok (DropFrames p cs) \<and> cache_small (DropFrames p cs) \<and> (\<forall>off. \<not> HasFrame (DropFrames p cs) p off)"
proof -
  have d: "cache_ok (DropFrames p cs)" "cs_order (DropFrames p cs) = filter (\<lambda>k. fst k \<noteq> p) (cs_order cs)"
    "cs_cacheBytes (DropFrames p cs) \<le> cs_cacheBytes cs"
    using dropLoop_ok [of "[]" "cs_order cs" cs p] assms(1) by (simp_all add: DropFrames_def)
  have "cache_small (DropFrames p cs)"
    using assms(2) d(2,3) le_trans [OF length_filter_le [of "\<lambda>k. fst k \<noteq> p" "cs_order cs"], of 1]
    by (auto simp: cache_small_def)
  then show ?thesis using d(1,2) by (auto simp: HasFrame_order [OF d(1)])
qed

lemma cache_run_ok:
  "cache_ok cs \<Longrightarrow> cache_small cs \<Longrightarrow> cache_ok (fold cache_step ops cs) \<and> cache_small (fold cache_step ops cs)"
proof (induction ops arbitrary: cs)
  case (Cons a ops)
  then show ?case by (cases a) (simp_all add: CacheFrame_ok DropFrames_ok)
qed simp

section \<open>Sparse packs\<close>

lemma read_prefix: "fileReadAt f off n = Some x \<Longrightarrow> fileReadAt (f @ g) off n = Some x"
  by (auto simp: fileReadAt_def pread_def split: if_splits)

lemma header_inside: "fileReadAt f off n = Some frame \<Longrightarrow> 8 \<le> n \<Longrightarrow> fileReadAt f off 8 = Some (take 8 frame)"
  by (auto simp: fileReadAt_def pread_def min_def split: if_splits)

definition readable_frame :: "bytes \<Rightarrow> int \<Rightarrow> bytes \<Rightarrow> bool" where
  "readable_frame f off frame \<longleftrightarrow>
     8 \<le> length frame \<and> unat (get32 (take 4 frame)) = length frame - 8 \<and> length frame \<le> 8 + maxChunkFrameLen \<and>
     fileReadAt f off (length frame) = Some frame"

lemma extractLoop_reads:
  "extractLoop src pe kept dst offs = Inr (kept', dst') \<Longrightarrow> int (length dst) \<le> max 0 pe \<Longrightarrow>
     length dst \<le> length src \<Longrightarrow>
     length dst' \<le> length src \<and> (\<exists>g. dst' = dst @ g) \<and>
     (\<forall>off \<in> set offs. \<exists>frame. readable_frame src off frame \<and> readable_frame dst' off frame)"
proof (induction src pe kept dst offs arbitrary: kept' dst' rule: extractLoop.induct)
  case (1 src pe kept dst)
  then show ?case by simp
next
  case (2 src pe kept dst off offs)
  obtain header where h: "fileReadAt src off 8 = Some header"
    using "2.prems"(1) by (auto split: if_splits option.splits)
  define n where n: "n = 8 + unat (get32 (bslice 0 4 header))"
  obtain frame where fr: "fileReadAt src off n = Some frame" "n \<le> 8 + maxChunkFrameLen" "\<not> off < pe"
    and rest: "extractLoop src (off + int n) (kept + int n) (pwrite dst (nat off) frame) offs = Inr (kept', dst')"
    using "2.prems"(1) h by (auto simp: Let_def n split: if_splits option.splits)
  have off: "0 \<le> off" "nat off + n \<le> length src" "length frame = n"
    using fr(1) by (auto simp: fileReadAt_def pread_def split: if_splits)
  have hd: "take 8 frame = header" using header_inside [OF fr(1)] h n by simp
  have le: "length dst \<le> nat off" using "2.prems"(2) fr(3) off(1) by (auto simp: max_def split: if_splits)
  let ?dst1 = "dst @ replicate (nat off - length dst) 0 @ frame"
  have w: "pwrite dst (nat off) frame = ?dst1" using le by (simp add: pwrite_def)
  have l1: "length ?dst1 = nat off + n" using le off(3) by simp
  have frame1: "fileReadAt ?dst1 off n = Some frame"
    using le off by (simp add: fileReadAt_def pread_def)
  have IH: "length dst' \<le> length src \<and> (\<exists>g. dst' = ?dst1 @ g) \<and>
     (\<forall>off \<in> set offs. \<exists>frame. readable_frame src off frame \<and> readable_frame dst' off frame)"
  proof -
    have p1: "int (length (pwrite dst (nat off) frame)) \<le> max 0 (off + int n)"
      unfolding w l1 using off(1) by simp
    have p2: "length (pwrite dst (nat off) frame) \<le> length src" unfolding w l1 by (rule off(2))
    have "\<not> unat (get32 (bslice 0 4 header)) > maxChunkFrameLen" using fr(2) n by simp
    from "2.IH" [OF fr(3) h refl this n fr(1) rest p1 p2] show ?thesis unfolding w .
  qed
  then obtain g where g: "dst' = ?dst1 @ g" by blast
  have "get32 (take 4 frame) = get32 (bslice 0 4 header)" using hd [symmetric] by simp
  then have "unat (get32 (take 4 frame)) = length frame - 8" using off(3) n by simp
  then have "readable_frame src off frame \<and> readable_frame dst' off frame"
    using fr(1,2) off(3) read_prefix [OF frame1, of g] g n by (simp add: readable_frame_def)
  then show ?case using IH g by auto
qed

lemma RetrieveRaw_frame:
  assumes "packFile cs p = Some f" "readable_frame f off frame"
  shows "RetrieveRaw p off cs = Inr (frame, get32 (bslice 4 8 frame))"
proof -
  have len: "unat (get32 (take 4 frame)) = length frame - 8" "8 \<le> length frame"
    and r: "fileReadAt f off (length frame) = Some frame"
    and b: "length frame - 8 \<le> maxChunkFrameLen" using assms(2) by (auto simp: readable_frame_def)
  have h: "fileReadAt f off 8 = Some (take 8 frame)" using header_inside [OF r len(2)] .
  have o: "0 \<le> off" "nat off + length frame \<le> length f" "take (length frame) (drop (nat off) f) = frame"
    using r by (auto simp: fileReadAt_def pread_def split: if_splits)
  have "drop 8 (take (length frame) (drop (nat off) f)) = take (length frame - 8) (drop (nat off + 8) f)"
    by (simp add: drop_take add.commute)
  then have "fileReadAt f (off + 8) (length frame - 8) = Some (drop 8 frame)"
    using o len(2) by (simp add: fileReadAt_def pread_def nat_add_distrib)
  then show ?thesis
    using assms(1) h b len(1) by (simp add: RetrieveRaw_def Let_def bslice_def drop_take)
qed

lemma extractLoop_succeeds:
  "\<forall>(off, frame) \<in> set ofs. readable_frame src off frame \<Longrightarrow>
   sorted_wrt (\<lambda>(o1, f1) (o2, f2). o1 + int (length f1) \<le> o2) ofs \<Longrightarrow>
   \<forall>(off, frame) \<in> set ofs. pe \<le> off \<Longrightarrow>
   \<exists>dst'. extractLoop src pe kept dst (map fst ofs) = Inr (kept + (\<Sum>(off, frame) \<leftarrow> ofs. int (length frame)), dst')"
proof (induction ofs arbitrary: pe kept dst)
  case (Cons x ofs)
  obtain off frame where x: "x = (off, frame)" by (cases x) auto
  have rf: "readable_frame src off frame" "pe \<le> off" using Cons.prems x by auto
  have len: "unat (get32 (take 4 frame)) = length frame - 8" "8 \<le> length frame"
    and r: "fileReadAt src off (length frame) = Some frame"
    and b: "length frame - 8 \<le> maxChunkFrameLen" using rf(1) by (auto simp: readable_frame_def)
  have h: "fileReadAt src off 8 = Some (take 8 frame)" using header_inside [OF r len(2)] .
  have "\<forall>(o', f') \<in> set ofs. off + int (length frame) \<le> o'" using Cons.prems(2) x by auto
  with Cons.IH [of "off + int (length frame)" "kept + int (length frame)" "pwrite dst (nat off) frame"] Cons.prems
  obtain dst' where "extractLoop src (off + int (length frame)) (kept + int (length frame))
      (pwrite dst (nat off) frame) (map fst ofs) =
      Inr (kept + int (length frame) + (\<Sum>(off, frame) \<leftarrow> ofs. int (length frame)), dst')" by auto
  with x rf(2) h r b len show ?case by (simp add: Let_def add.assoc)
qed simp

section \<open>Properties\<close>

text \<open>
  C2: A stored chunk stays retrievable.  Storing a chunk into an open or unopened store
  succeeds and gives a location from which the chunk reads back bit for bit after any number
  of later stores, whether these succeed or fail and however often the packs rotate, and
  also from a store opened anew on the files, whatever download hooks are installed.
\<close>

theorem stored_chunk_retrieves:
  assumes "codec_ok P Z (cs_key cs)" "cs_ok cs" "cs_handle cs \<noteq> ClosedHandle" "cs_cache cs = []" "seal_ok H"
    "length nonce = 12"
    and fits: "\<forall>payload. encodePayload P Z (cs_key cs) (cs_level cs) nonce data = Inr payload
      \<longrightarrow> length payload \<le> maxChunkFrameLen"
  shows "\<exists>p off sz cs1. cs_Store P Z H nonce data cs = (Inr (p, off, sz), cs1) \<and>
    (\<forall>ops H1. fst (Retrieve P Z H1 p off (fold (st_step P Z H) ops cs1)) = Inr data \<and>
       (\<forall>m l. fst (Retrieve P Z H1 p off
          (NewChunkStore (cs_files (fold (st_step P Z H) ops cs1)) m l (cs_key cs))) = Inr data))"
proof -
  obtain payload where pl: "encodePayload P Z (cs_key cs) (cs_level cs) nonce data = Inr payload"
    "decodePayload P Z (cs_key cs) payload = Inr data" "length payload \<le> maxChunkFrameLen"
    using encode_decode [OF assms(1,6)] fits by blast
  obtain p off cs1 where st: "cs_Store P Z H nonce data cs = (Inr (p, off, int (length payload)), cs1)"
    "frame_at cs1 p off (chunk_frame payload data)"
    using cs_Store_ok [OF assms(2,3,5) pl(1)] by blast
  have g: "cs_grows cs cs1" using cs_Store_grows [OF assms(2), of P Z H nonce data] st(1) by simp
  have "fst (Retrieve P Z H1 p off (fold (st_step P Z H) ops cs1)) = Inr data \<and>
      fst (Retrieve P Z H1 p off (NewChunkStore (cs_files (fold (st_step P Z H) ops cs1)) m l (cs_key cs))) = Inr data"
    for ops H1 m l
  proof -
    let ?cs2 = "fold (st_step P Z H) ops cs1" and ?cs3 = "NewChunkStore (cs_files (fold (st_step P Z H) ops cs1)) m l (cs_key cs)"
    have g2: "cs_grows cs1 ?cs2" using g by (intro st_run_grows) (simp add: cs_grows_def)
    then have f2: "frame_at ?cs2 p off (chunk_frame payload data)"
      using frame_at_grows [OF st(2)] by (simp add: cs_grows_def)
    then have f3: "frame_at ?cs3 p off (chunk_frame payload data)"
      by (simp add: frame_at_def packFile_def NewChunkStore_def newChunkStore_def)
    have c: "cs_cache ?cs2 = []" "cs_key ?cs2 = cs_key cs" "cs_cache ?cs3 = []" "cs_key ?cs3 = cs_key cs"
      using g g2 assms(4) by (simp_all add: cs_grows_def same_config_def NewChunkStore_def newChunkStore_def)
    show ?thesis
      using Retrieve_frame [OF f2 pl(3), of P Z H1] Retrieve_frame [OF f3 pl(3), of P Z H1] c pl(2) by simp
  qed
  with st(1) show ?thesis by blast
qed

definition toy_zstd :: zstd where
  "toy_zstd = \<lparr> z_enc = (\<lambda>l d. d), z_dec = Some \<rparr>"

definition no_hooks :: hooks where
  "no_hooks = \<lparr> h_sealed = None, h_missing = None, h_fetch = None \<rparr>"

theorem stored_chunk_retrieves_witness:
  "\<exists>p off sz cs1. cs_Store toy_prims toy_zstd no_hooks [] [1, 2, 3] (NewChunkStore [] 100 3 None) = (Inr (p, off, sz), cs1) \<and>
     fst (Retrieve toy_prims toy_zstd no_hooks p off
       (fold (st_step toy_prims toy_zstd no_hooks) [StStore [] [4], StRaw [0]] cs1)) = Inr [1, 2, 3]"
proof -
  let ?cs = "NewChunkStore [] 100 3 None"
  have "\<exists>p off sz cs1. cs_Store toy_prims toy_zstd no_hooks (replicate 12 0) [1, 2, 3] ?cs = (Inr (p, off, sz), cs1) \<and>
    (\<forall>ops H1. fst (Retrieve toy_prims toy_zstd H1 p off (fold (st_step toy_prims toy_zstd no_hooks) ops cs1)) = Inr [1, 2, 3] \<and>
       (\<forall>m l. fst (Retrieve toy_prims toy_zstd H1 p off
          (NewChunkStore (cs_files (fold (st_step toy_prims toy_zstd no_hooks) ops cs1)) m l (cs_key ?cs))) = Inr [1, 2, 3]))"
    by (rule stored_chunk_retrieves)
      (simp_all add: codec_ok_def zstd_ok_def toy_zstd_def toy_ok NewChunkStore_def newChunkStore_def cs_ok_def
        seal_ok_def no_hooks_def encodePayload_def maxChunkFrameLen_def)
  moreover have "cs_Store toy_prims toy_zstd no_hooks (replicate 12 0) [1, 2, 3] ?cs = cs_Store toy_prims toy_zstd no_hooks [] [1, 2, 3] ?cs"
    by (simp add: cs_Store_def encodePayload_def NewChunkStore_def newChunkStore_def)
  ultimately show ?thesis by metis
qed

text \<open>
  C27: The frame cache is bounded and its accounting is exact.  After any sequence of
  caching frames and dropping packs on a new store, the counter is the total size of the
  cached frames and is at most 64 MB unless a single frame is cached; a frame just cached is
  there, and a dropped pack has no frame left.
\<close>

theorem frame_cache_bounded:
  "let cs = fold cache_step ops (newChunkStore files m l p0 key) in
   cs_cacheBytes cs = (\<Sum>(k, v) \<leftarrow> cs_cache cs. int (length v)) \<and>
   (cs_cacheBytes cs \<le> FrameCacheMaxBytes \<or> length (cs_cache cs) \<le> 1) \<and>
   HasFrame (CacheFrame p off frame cs) p off \<and> \<not> HasFrame (DropFrames p cs) p off"
proof -
  let ?cs = "fold cache_step ops (newChunkStore files m l p0 key)"
  have "cache_ok (newChunkStore files m l p0 key)" "cache_small (newChunkStore files m l p0 key)"
    by (simp_all add: cache_ok_def cache_small_def newChunkStore_def)
  then have ok: "cache_ok ?cs" "cache_small ?cs" using cache_run_ok by blast+
  have "length (cs_cache ?cs) = card (fst ` set (cs_cache ?cs))"
    using ok(1) distinct_card [of "map fst (cs_cache ?cs)"] by (simp add: cache_ok_def)
  also have "\<dots> = length (cs_order ?cs)"
    using ok(1) distinct_card [of "cs_order ?cs"] by (simp add: cache_ok_def)
  finally show ?thesis
    using ok CacheFrame_ok [OF ok, of p off frame] DropFrames_ok [OF ok, of p]
    by (simp add: cache_small_def cache_ok_def)
qed

text \<open>
  C26: A sparse pack reads like the full one.  Extracting any set of whole, non-overlapping
  frames from a pack succeeds, reports the size of exactly these frames, keeps the size of
  the pack and leaves every extracted frame readable at its old offset, byte for byte.
\<close>

theorem sparse_pack_reads:
  assumes "packFile cs p = Some src" "\<forall>(off, frame) \<in> set ofs. readable_frame src off frame"
    "sorted_wrt (\<lambda>(o1, f1) (o2, f2). o1 + int (length f1) \<le> o2) ofs"
  shows "\<exists>dst. ExtractFrames src (map fst ofs) = Inr (\<Sum>(off, frame) \<leftarrow> ofs. int (length frame), dst) \<and>
    length dst = length src \<and>
    (\<forall>(off, frame) \<in> set ofs.
       RetrieveRaw p off (cs\<lparr> cs_files := AList.update (packName p) dst (cs_files cs) \<rparr>) =
         Inr (frame, get32 (bslice 4 8 frame)))"
proof -
  have "\<forall>(off, frame) \<in> set ofs. -1 \<le> off"
    using assms(2) by (auto simp: readable_frame_def fileReadAt_def split: if_splits)
  from extractLoop_succeeds [OF assms(2,3) this, of 0 "[]"] obtain dst where
    ex: "extractLoop src (-1) 0 [] (map fst ofs) = Inr (\<Sum>(off, frame) \<leftarrow> ofs. int (length frame), dst)" by auto
  then have r: "length dst \<le> length src"
    "\<forall>off \<in> set (map fst ofs). \<exists>frame. readable_frame src off frame \<and> readable_frame dst off frame"
    using extractLoop_reads [OF ex] by simp_all
  let ?dst = "fileTruncate dst (length src)"
  have d: "?dst = dst @ replicate (length src - length dst) 0" using r(1) by (simp add: fileTruncate_def)
  have "RetrieveRaw p off (cs\<lparr> cs_files := AList.update (packName p) ?dst (cs_files cs) \<rparr>) =
      Inr (frame, get32 (bslice 4 8 frame))" if "(off, frame) \<in> set ofs" for off frame
  proof -
    have "off \<in> set (map fst ofs)" using that by force
    then obtain frame' where f': "readable_frame src off frame'" "readable_frame dst off frame'"
      using r(2) by blast
    have "readable_frame src off frame" using assms(2) that by auto
    then have "frame' = frame"
      using RetrieveRaw_frame [OF assms(1) f'(1)] RetrieveRaw_frame [OF assms(1), of off frame] by simp
    moreover have "readable_frame ?dst off frame'"
      using f'(2) read_prefix unfolding d readable_frame_def by blast
    ultimately show ?thesis
      using RetrieveRaw_frame [of "cs\<lparr> cs_files := AList.update (packName p) ?dst (cs_files cs) \<rparr>" p ?dst off frame]
      by (simp add: packFile_def update_conv')
  qed
  moreover have "ExtractFrames src (map fst ofs) = Inr (\<Sum>(off, frame) \<leftarrow> ofs. int (length frame), ?dst)"
    using ex by (simp add: ExtractFrames_def)
  ultimately show ?thesis using d r(1) by (intro exI [of _ ?dst]) auto
qed

theorem sparse_pack_reads_witness:
  "\<exists>dst. ExtractFrames (chunk_frame [7] [1] @ chunk_frame [5, 6] [2, 3]) [9] = Inr (10, dst) \<and>
     RetrieveRaw 0 9 (NewChunkStore [(packName 0, dst)] 100 3 None) = Inr (chunk_frame [5, 6] [2, 3], 2)"
proof -
  let ?src = "chunk_frame [7] [1] @ chunk_frame [5, 6] [2, 3]"
  let ?cs = "NewChunkStore [(packName 0, ?src)] 100 3 None"
  have rf: "readable_frame ?src 9 (chunk_frame [5, 6] [2, 3])"
    by (simp add: readable_frame_def chunk_frame_def fileReadAt_def pread_def maxChunkFrameLen_def)
  have src: "packFile ?cs 0 = Some ?src" by (simp add: packFile_def NewChunkStore_def newChunkStore_def)
  have "get32 (bslice 4 8 (chunk_frame [5, 6] [2, 3])) = 2" by (simp add: chunk_frame_def bslice_def)
  moreover have "length (chunk_frame [5, 6] [2, 3]) = 10" by (simp add: chunk_frame_simps)
  moreover have "RetrieveRaw 0 9 (?cs\<lparr> cs_files := AList.update (packName 0) dst (cs_files ?cs) \<rparr>) =
      RetrieveRaw 0 9 (NewChunkStore [(packName 0, dst)] 100 3 None)" for dst
    by (simp add: RetrieveRaw_def packFile_def NewChunkStore_def newChunkStore_def)
  ultimately show ?thesis
    using sparse_pack_reads [OF src, of "[(9, chunk_frame [5, 6] [2, 3])]"] rf by auto
qed


end
