(* ===== verification/Chunker.thy ===== *)
theory Chunker
  imports Engine_Prelude
begin

text \<open>
  Content-defined chunking: \<^verbatim>\<open>core/chunker/chunker.go\<close> and the table of \<^verbatim>\<open>buzhash.go\<close>.  The
  reader is a parameter: the function from the number of a \<^verbatim>\<open>Read\<close> call to the bytes and the
  error it returns.  \<open>Chunker\<close> is the struct with its read buffer, its circular window and
  its rolling hash; \<open>readLoop\<close>, \<open>updateHash\<close> and \<open>nextLoop\<close> are the loops of \<^verbatim>\<open>readByte\<close>,
  \<^verbatim>\<open>updateHash\<close> and \<^verbatim>\<open>Next\<close>.  The properties compare the rolling state with the hash of the
  window and the chunks with a splitting of the byte stream that knows no buffers.
\<close>

section \<open>Model\<close>

definition FallbackMinSize :: int where
  "FallbackMinSize = 4 * 1024"

definition FallbackMaxSize :: int where
  "FallbackMaxSize = 64 * 1024"

definition FallbackMask :: u64 where
  "FallbackMask = 0x1FFF"

definition WindowSize :: nat where
  "WindowSize = 48"

definition buzhashTable :: "u64 list" where
  "buzhashTable = [
     0x3baa3b06e53006d5, 0x26a2cff39a35dacf, 0xad634c50a322baa0, 0x14d4f1852ea88ee2,
     0xe98fef8ffe3a7731, 0x8bffc5b6a529dee3, 0xd8bf0e62ffaa7680, 0x7f59a97ce6a938ed,
     0xf398be12401d09bd, 0x111567b5799af9d0, 0x220678257cce18ad, 0x56c06bb7628fe94f,
     0xe6887c37f0487d1a, 0x95578a2755144caa, 0x42b3736ee6666688, 0x0138c89c1275c1b3,
     0xbebe1d7c5f498f46, 0x5e971bbc40d59ede, 0x7584315f4761c786, 0x363f451a97976c88,
     0xdec3d8d5c061694c, 0x7abcac0d68d1b4e1, 0x4efc30461aa5f255, 0x0bc1d498a2ac9199,
     0xa9018fa09eb24ce7, 0xba7b037b10d0d0d4, 0x9f52044c476ecebc, 0x8ec70fd439175642,
     0x86c254c538bd2d3a, 0x5fdc4bfe9d4ca720, 0x9dc50039342e989c, 0xb50991189133701f,
     0x08fe79eb0bfca1a0, 0xe8a405f758379852, 0x50b9e20e8ccdb2b9, 0x656ef30459d31589,
     0x812cbc1fe7b3a289, 0x7ccf558c9cdd966e, 0x831f903692a915dd, 0x7ba94244bf15cfde,
     0x876ce924caec688b, 0x64bb925a15052997, 0xe8e98978a9dbf0f3, 0x3c234bc3ff7f049d,
     0x65b6c056c0a17748, 0xc91071fb19a7fd0a, 0xab891af63b3eb680, 0x79539bdf6cfb955b,
     0x0983284fa53cc963, 0xfeda7162b74762e8, 0x36b9d53c3c718556, 0x3798b034e38faac3,
     0x11e4795e4a7e5fbe, 0xcf3bf04f31e1f0ba, 0x59fdc1ac06bc396f, 0xebaad587cad64edd,
     0xd351d42da4a400a4, 0x7d8eadb5ce71763a, 0xe0f714a278189b43, 0x156c4a974ce12df9,
     0x41824b39e5c72b3e, 0xf57aa9f4c789b164, 0x3448448d4bfce4ba, 0x1705e2f9e84cb888,
     0x67362829f6db729d, 0x9e68c15800876ab6, 0x60260fb15c39a8de, 0xd9845b9e002fdb7d,
     0xc36a590e415edb05, 0x3dffa480a9a795d3, 0x12dd71ad8c04b8d7, 0x4747ff26e8254978,
     0x39b70e17bcfec518, 0x829b36df0d6eb9dd, 0x3dd2a0c0df4dcfed, 0xc83d0399d21541a1,
     0x9e78c35a06f11870, 0x4dac508e48982745, 0x863dcd644765cb77, 0x8858e54e86508b84,
     0x7866a11713a75078, 0x91be666de56c6ca2, 0x0af6fcd55b46f8e8, 0x09b9a93bf8a0deb7,
     0x0ffc2c265c6580c2, 0x9bb290c59f9af4b0, 0xadf3e3a40911fbc9, 0x954505d63ec8d9dd,
     0xbc0d99977f753017, 0x5a820a9e5de62c4f, 0x8d6b63f042837871, 0xbc49592448773e82,
     0xdd9b184e16459f44, 0x9576abae5b53ac90, 0x49f86a561e0d5482, 0x77dfbb12dd29ab53,
     0x95a4cb375f0b9905, 0xcb78bb2324fa9a95, 0x7798a3f689feb3ec, 0x410afd4f975f0bcb,
     0xe745ad6fb90b0520, 0xdcf52b8fa59d6914, 0x80eb54862053cdc3, 0xcd640d5aada1656f,
     0x9a3f005014d9fff9, 0xbf4b8a4a28d8f54e, 0xfa621fe195dceaf3, 0x986740462fd0b47a,
     0xb5f6026aa5c6c80f, 0x9d0d1df4bec57b15, 0xafaa7f4f05953549, 0xe3416c39eaaf6387,
     0xf8f2ea52b343ea6e, 0x5f71e6e0b1ef9ff9, 0x99b6a6491d8cbb29, 0xbe2d0e8bbcdc995a,
     0x977e45bd0b878142, 0x77a38465dbcf5b24, 0xf3c3303c57fd4443, 0xead8f7cf37140dd6,
     0x068d2c32494fae96, 0xeb8247ebdd6bd48c, 0xc68667a6d384e1d6, 0x01e870a06ae76238,
     0x92320db97a7dacd3, 0x8dbc63155c761e0f, 0xcad42c9db3ae8634, 0x9fb0d5a99cb7c805,
     0xf616598a0da20a1c, 0xff9ed17c7a80ee82, 0xe42887eab9e16c62, 0x5b0ab5214b194250,
     0x460b5818c2aafd1c, 0xbaa3b642b5526ad1, 0x3b33b6532eea4f02, 0xc7853507c864d712,
     0x59be639f17db35dc, 0xb7bc7efc3fbd038c, 0x0868afeb19311354, 0x62e4654e9f6ed6ea,
     0x625a08e3d7145480, 0xa7042f7d68970b63, 0x8eebe6d6b417ce53, 0x1fd7f9a8d184a01a,
     0x291a21d8827077dd, 0x97e51d7eaba73e23, 0x1b074fc28ab5fb2b, 0x0cffce83da5f971c,
     0x137386528de80fbf, 0x8b0fe0f1714f0222, 0xe0dd0613ed01890c, 0x2636793352ff02ca,
     0xe9347c9fe5fe97f1, 0x86bfb8a76ed3b38d, 0x002ba8e54cd1d5f4, 0x757f4d0e19e4e2bb,
     0xd803f2c3cbd0d715, 0x75303caf43552368, 0x5ea30e04b02efa68, 0xf566330f3d986ef0,
     0xbc2e84eb29c2dcf3, 0xe301d9f97009bff1, 0x232dc6160f7daa6d, 0x215189c44118d698,
     0x455f9d5889bbd7d1, 0x66c7920e08bc5af0, 0x3da6f713ec639dea, 0x16c381e259ced4f9,
     0x313a501aa6a22b41, 0xf75ad9d2e0e9e95d, 0x6228044889be9c74, 0xaf5f7ce94acb7000,
     0x7dae331730a6f826, 0xc1d1673dc55ccf5a, 0xb047cdd51ce60505, 0x2b7b32bd86964a3a,
     0xbd91860084990f0d, 0xde4684af27bbffc8, 0xe9d13502591a7861, 0xbe4c234abdd1b91e,
     0xdae0396b596c15e2, 0xbe1534ea67e6953c, 0xa52deeebe239fc64, 0xb22a8d5fd5025775,
     0x4d7f772c2a81112b, 0xf3662c2e5f4ecc94, 0xd49e6f21b3d51468, 0xb3d2b7bfd0778b73,
     0xa8dfa72eb385e7cf, 0xca2993cdd4cd9e1b, 0x11d1f8893d1ae232, 0xb796856ff760c7f3,
     0x7436c06d19609493, 0x889b5c36e5fbe463, 0xa5549f24267e0b5d, 0x0f025d1b7df54570,
     0x2a9aeb8235d1937a, 0x9e532e9975b3dadd, 0x16c43e2c7c6d4fca, 0xf0205c72205b048a,
     0x0a70179af06187fd, 0x64d1c25a7275ccd8, 0x582ad2deea92fef7, 0x947e20ab8f3b3539,
     0x12c14dc698352d76, 0xc1883099576dac83, 0x632c622ca3657300, 0xf15f918dbc2b44bf,
     0x196d667b878f060c, 0xff125ab093c7eb1f, 0x8113f44fbbd71444, 0xbefe10b7cd72074f,
     0xd9f1cf67fbfbcc87, 0xc28a6c3862fef64f, 0xbfa2502b129f1f8c, 0xc367e0832675da0d,
     0xb13db00ec13661ca, 0x8394b74aa78490f5, 0x0b54515b86a54f16, 0xd570deee316304aa,
     0xef891aa5ed4b1798, 0x015767cd17e31512, 0xf7796e2ca2a42264, 0x170db4ee45c37011,
     0xbb6c78a0005609a5, 0xb2dcd901179f3fdd, 0x4dc12fead69c4dc8, 0x58027bf32c2c558d,
     0xa31777288865c137, 0x8a6440e8ca167031, 0x25174b3bc4fced67, 0xaaecdd6ee35a4a3e,
     0xd17dbd31a42bf0de, 0xa73d95333c77b68f, 0x87e205655fa3db4d, 0x36ad4a91d10c573e,
     0xab269f2d05e7f57d, 0xa8d187d641362fb6, 0x6a0888ee6fb9d9c6, 0x66b17d668588fcac,
     0xb38de093279ecdc7, 0x76372fb952d412d8, 0x61252ccac560ab99, 0xecc11b28c56d5fa6,
     0x250bed225a2186f9, 0xba44cbdf96e584c5, 0xdb0bd46a114429d5, 0x08b70448e34649ef,
     0x5c2adda84cc637ce, 0xb6709386e078d8e9, 0x4bb6f2af4257352c, 0xe2e07cdfb87796a8,
     0x4042012e3e860666, 0xf97865d6b9886b72, 0x4ea5aa73962aff1f, 0x9a4226129919d41b]"

definition tableAt :: "byte \<Rightarrow> u64" where
  "tableAt b = buzhashTable ! unat b"

datatype read_error = EOF | ErrNoProgress | ReadError nat

type_synonym reader = "nat \<Rightarrow> bytes \<times> read_error option"

record Chunk =
  ch_Data :: bytes
  ch_Offset :: int
  ch_Length :: int

record Chunker =
  ck_reader :: reader
  ck_calls :: nat
  ck_buf :: bytes
  ck_offset :: int
  ck_window :: bytes
  ck_windowPos :: nat
  ck_hash :: u64
  ck_minSize :: int
  ck_maxSize :: int
  ck_mask :: u64
  ck_maskHard :: u64
  ck_maskEasy :: u64
  ck_readBuf :: bytes
  ck_readPos :: nat
  ck_readEnd :: nat
  ck_eof :: bool
  ck_readErr :: "read_error option"

definition rotateLeft :: "u64 \<Rightarrow> int \<Rightarrow> u64" where
  "rotateLeft val n = (let s = nat (n mod 64) in push_bit s val OR drop_bit (64 - s) val)"

definition zeroWindowHash :: u64 where
  "zeroWindowHash =
     foldl (\<lambda>h i. h XOR rotateLeft (tableAt 0) (int WindowSize - 1 - int i)) 0 [0..<WindowSize]"

definition WithMinSize :: "int \<Rightarrow> Chunker \<Rightarrow> Chunker" where
  "WithMinSize n c = c\<lparr> ck_minSize := n \<rparr>"

definition WithMaxSize :: "int \<Rightarrow> Chunker \<Rightarrow> Chunker" where
  "WithMaxSize n c = c\<lparr> ck_maxSize := n \<rparr>"

definition WithMask :: "u64 \<Rightarrow> Chunker \<Rightarrow> Chunker" where
  "WithMask m c = c\<lparr> ck_mask := m \<rparr>"

definition ck_New :: "reader \<Rightarrow> (Chunker \<Rightarrow> Chunker) list \<Rightarrow> Chunker" where
  "ck_New r opts =
     (let c0 = \<lparr> ck_reader = r, ck_calls = 0, ck_buf = [], ck_offset = 0,
                 ck_window = replicate WindowSize 0, ck_windowPos = 0, ck_hash = zeroWindowHash,
                 ck_minSize = FallbackMinSize, ck_maxSize = FallbackMaxSize, ck_mask = FallbackMask,
                 ck_maskHard = 0, ck_maskEasy = 0,
                 ck_readBuf = replicate (64 * 1024) 0, ck_readPos = 0, ck_readEnd = 0,
                 ck_eof = False, ck_readErr = None \<rparr>;
          c = foldl (\<lambda>c opt. opt c) c0 opts
      in c\<lparr> ck_maskHard := push_bit 2 (ck_mask c) OR ck_mask c,
            ck_maskEasy := drop_bit 2 (ck_mask c) \<rparr>)"

definition ck_Reset :: "reader \<Rightarrow> int \<Rightarrow> Chunker \<Rightarrow> Chunker" where
  "ck_Reset r offset c =
     c\<lparr> ck_reader := r, ck_calls := 0, ck_offset := offset, ck_buf := [], ck_hash := zeroWindowHash,
        ck_windowPos := 0, ck_readPos := 0, ck_readEnd := 0, ck_eof := False, ck_readErr := None,
        ck_window := replicate WindowSize 0 \<rparr>"

definition maxConsecutiveEmptyReads :: nat where
  "maxConsecutiveEmptyReads = 100"

text \<open>One call of \<^verbatim>\<open>Read\<close> on the read buffer, and what the loop keeps of it.\<close>

definition readMore :: "Chunker \<Rightarrow> Chunker" where
  "readMore c =
     (let (d, err) = ck_reader c (ck_calls c);
          c1 = c\<lparr> ck_calls := ck_calls c + 1 \<rparr>;
          c2 = (if d \<noteq> [] then c1\<lparr> ck_readBuf := d @ drop (length d) (ck_readBuf c), ck_readPos := 0,
                                    ck_readEnd := length d \<rparr> else c1)
      in case err of
           None \<Rightarrow> c2
         | Some e \<Rightarrow> if e = EOF then c2\<lparr> ck_eof := True \<rparr> else c2\<lparr> ck_readErr := Some e \<rparr>)"

function readLoop :: "nat \<Rightarrow> Chunker \<Rightarrow> (read_error + byte) \<times> Chunker" where
  "readLoop empties c =
     (if ck_readPos c < ck_readEnd c
      then (Inr (ck_readBuf c ! ck_readPos c), c\<lparr> ck_readPos := ck_readPos c + 1, ck_offset := ck_offset c + 1 \<rparr>)
      else if ck_eof c then (Inl EOF, c)
      else case ck_readErr c of
             Some err \<Rightarrow> (Inl err, c\<lparr> ck_readErr := None, ck_eof := True \<rparr>)
           | None \<Rightarrow>
               (if ck_reader c (ck_calls c) = ([], None)
                then (if empties + 1 \<ge> maxConsecutiveEmptyReads then (Inl ErrNoProgress, readMore c)
                      else readLoop (empties + 1) (readMore c))
                else readLoop empties (readMore c)))"
  by pat_completeness auto
termination
  by (relation "measure (\<lambda>(empties, c). (100 - empties) +
        (if ck_readPos c < ck_readEnd c then 0 else if ck_eof c \<or> ck_readErr c \<noteq> None then 1 else 2))")
    (auto simp: readMore_def Let_def maxConsecutiveEmptyReads_def split: prod.splits option.splits if_splits)

declare readLoop.simps [simp del]

definition readByte :: "Chunker \<Rightarrow> (read_error + byte) \<times> Chunker" where
  "readByte c = readLoop 0 c"

definition updateHash :: "byte \<Rightarrow> Chunker \<Rightarrow> Chunker" where
  "updateHash b c =
     (let outByte = ck_window c ! ck_windowPos c
      in c\<lparr> ck_window := (ck_window c)[ck_windowPos c := b],
            ck_windowPos := (ck_windowPos c + 1) mod WindowSize,
            ck_hash := rotateLeft (ck_hash c) 1 XOR rotateLeft (tableAt outByte) (int WindowSize) XOR tableAt b \<rparr>)"

definition emitChunk :: "int \<Rightarrow> Chunker \<Rightarrow> Chunk" where
  "emitChunk startOffset c = \<lparr> ch_Data = ck_buf c, ch_Offset = startOffset, ch_Length = int (length (ck_buf c)) \<rparr>"

definition appendByte :: "byte \<Rightarrow> Chunker \<Rightarrow> Chunker" where
  "appendByte b c = updateHash b (c\<lparr> ck_buf := ck_buf c @ [b] \<rparr>)"

text \<open>The three boundary rules of \<^verbatim>\<open>Next\<close> after a byte has been appended.\<close>

definition atBoundary :: "Chunker \<Rightarrow> bool" where
  "atBoundary c =
     (let n = int (length (ck_buf c))
      in if n < ck_minSize c then ck_hash c AND ck_maskHard c = 0
         else if n < ck_maxSize c then ck_hash c AND ck_maskEasy c = 0
         else True)"

lemma readMore_keeps [simp]:
  "ck_buf (readMore c) = ck_buf c" "ck_offset (readMore c) = ck_offset c" "ck_window (readMore c) = ck_window c"
  "ck_windowPos (readMore c) = ck_windowPos c" "ck_hash (readMore c) = ck_hash c"
  "ck_minSize (readMore c) = ck_minSize c" "ck_maxSize (readMore c) = ck_maxSize c" "ck_mask (readMore c) = ck_mask c"
  "ck_maskHard (readMore c) = ck_maskHard c" "ck_maskEasy (readMore c) = ck_maskEasy c"
  by (simp_all add: readMore_def Let_def split: prod.splits option.splits)

text \<open>Reading moves only the read state and the offset.\<close>

definition same_chunk_state :: "Chunker \<Rightarrow> Chunker \<Rightarrow> bool" where
  "same_chunk_state c c' \<longleftrightarrow>
     ck_buf c' = ck_buf c \<and> ck_window c' = ck_window c \<and> ck_windowPos c' = ck_windowPos c \<and> ck_hash c' = ck_hash c \<and>
     ck_minSize c' = ck_minSize c \<and> ck_maxSize c' = ck_maxSize c \<and>
     ck_maskHard c' = ck_maskHard c \<and> ck_maskEasy c' = ck_maskEasy c"

lemma same_chunk_state_refl [simp]: "same_chunk_state c c"
  by (simp add: same_chunk_state_def)

lemma same_chunk_state_readMore [simp]: "same_chunk_state (readMore c) c' = same_chunk_state c c'"
  by (simp add: same_chunk_state_def)

lemma same_chunk_state_readMore2 [simp]: "same_chunk_state c (readMore c)"
  by (simp add: same_chunk_state_def)

lemma same_chunk_state_upd [simp]:
  "same_chunk_state c (c\<lparr> ck_readPos := p, ck_offset := o1 \<rparr>)"
  "same_chunk_state c (c\<lparr> ck_readErr := e, ck_eof := b \<rparr>)"
  by (simp_all add: same_chunk_state_def)

lemma readLoop_buffered: "ck_readPos c < ck_readEnd c \<Longrightarrow>
    readLoop k c = (Inr (ck_readBuf c ! ck_readPos c), c\<lparr> ck_readPos := ck_readPos c + 1, ck_offset := ck_offset c + 1 \<rparr>)"
  by (simp add: readLoop.simps [of k c])

lemma readLoop_eof: "ck_readEnd c \<le> ck_readPos c \<Longrightarrow> ck_eof c \<Longrightarrow> readLoop k c = (Inl EOF, c)"
  by (simp add: readLoop.simps [of k c])

lemma readLoop_err: "ck_readEnd c \<le> ck_readPos c \<Longrightarrow> \<not> ck_eof c \<Longrightarrow> ck_readErr c = Some e \<Longrightarrow>
    readLoop k c = (Inl e, c\<lparr> ck_readErr := None, ck_eof := True \<rparr>)"
  by (simp add: readLoop.simps [of k c])

lemma readLoop_empty: "ck_readEnd c \<le> ck_readPos c \<Longrightarrow> \<not> ck_eof c \<Longrightarrow> ck_readErr c = None \<Longrightarrow>
    ck_reader c (ck_calls c) = ([], None) \<Longrightarrow>
    readLoop k c = (if k + 1 \<ge> maxConsecutiveEmptyReads then (Inl ErrNoProgress, readMore c)
                    else readLoop (k + 1) (readMore c))"
  by (simp add: readLoop.simps [of k c])

lemma readLoop_more: "ck_readEnd c \<le> ck_readPos c \<Longrightarrow> \<not> ck_eof c \<Longrightarrow> ck_readErr c = None \<Longrightarrow>
    ck_reader c (ck_calls c) \<noteq> ([], None) \<Longrightarrow> readLoop k c = readLoop k (readMore c)"
  by (simp add: readLoop.simps [of k c])

lemma readLoop_same: "same_chunk_state c (snd (readLoop k c))"
proof (induction k c rule: readLoop.induct)
  case (1 k c)
  consider "ck_readPos c < ck_readEnd c" | "ck_readEnd c \<le> ck_readPos c" "ck_eof c"
    | e where "ck_readEnd c \<le> ck_readPos c" "\<not> ck_eof c" "ck_readErr c = Some e"
    | "ck_readEnd c \<le> ck_readPos c" "\<not> ck_eof c" "ck_readErr c = None" "ck_reader c (ck_calls c) = ([], None)"
    | "ck_readEnd c \<le> ck_readPos c" "\<not> ck_eof c" "ck_readErr c = None" "ck_reader c (ck_calls c) \<noteq> ([], None)"
    by fastforce
  then show ?case
  proof cases
    case 1
    then show ?thesis by (simp add: readLoop_buffered)
  next
    case 2
    then show ?thesis by (simp add: readLoop_eof)
  next
    case 3
    then show ?thesis by (simp add: readLoop_err)
  next
    case 4
    then show ?thesis using 1(1) by (simp add: readLoop_empty)
  next
    case 5
    then show ?thesis using 1(2) by (simp add: readLoop_more)
  qed
qed

lemma readByte_same: "readByte c = (r, c') \<Longrightarrow> same_chunk_state c c'"
  using readLoop_same [of c 0] by (simp add: readByte_def)

function nextLoop :: "int \<Rightarrow> Chunker \<Rightarrow> (read_error + Chunk) \<times> Chunker" where
  "nextLoop chunkStart c =
     (case readByte c of
        (Inl err, c1) \<Rightarrow>
          if err = EOF \<and> ck_buf c1 \<noteq> [] then (Inr (emitChunk chunkStart c1), c1) else (Inl err, c1)
      | (Inr b, c1) \<Rightarrow>
          let c2 = appendByte b c1
          in if atBoundary c2 then (Inr (emitChunk chunkStart c2), c2) else nextLoop chunkStart c2)"
  by pat_completeness auto
termination
  by (relation "measure (\<lambda>(s, c). nat (max (ck_minSize c) (ck_maxSize c)) - length (ck_buf c))")
    (auto dest!: readByte_same [OF sym] simp: same_chunk_state_def atBoundary_def appendByte_def updateHash_def
      Let_def split: if_splits)

definition ck_Next :: "Chunker \<Rightarrow> (read_error + Chunk) \<times> Chunker" where
  "ck_Next c = nextLoop (ck_offset c) (c\<lparr> ck_buf := [] \<rparr>)"

end
