(* ===== verification/Chunker_Correct.thy ===== *)
theory Chunker_Correct
  imports Chunker
begin

text \<open>
  Correctness of the chunker.  The rolling hash is the hash of the last 48 bytes; what
  \<^verbatim>\<open>Next\<close> returns is a splitting of the byte stream that depends on the bytes alone.
\<close>

section \<open>The rolling hash\<close>

lemma rotateLeft_rotl: "0 \<le> n \<Longrightarrow> rotateLeft v n = word_rotl (nat n) v"
proof (rule bit_word_eqI)
  fix k assume n: "0 \<le> n" and k: "k < LENGTH(64)"
  define s where "s = nat n mod 64"
  have s: "nat (n mod 64) = s" "s < 64" using n by (auto simp: s_def nat_mod_distrib)
  have bits: "bit (rotateLeft v n) k = (s \<le> k \<and> bit v (k - s) \<or> bit v (64 - s + k))"
    using k s(2) by (auto simp: rotateLeft_def Let_def s(1) bit_simps)
  have "bit v (64 - s + k) \<Longrightarrow> k < s"
    using bit_imp_le_length [of v "64 - s + k"] by simp
  moreover have "bit (word_rotl (nat n) v) k = bit v ((k + (64 - s)) mod 64)"
    using k s(2) by (simp add: bit_word_rotl_iff s_def)
  moreover have "(k + (64 - s)) mod 64 = (if s \<le> k then k - s else 64 - s + k)"
    using k s(2) by (auto simp: mod_if)
  ultimately show "bit (rotateLeft v n) k = bit (word_rotl (nat n) v) k"
    unfolding bits by auto
qed

text \<open>The hash of a window, byte by byte: the reference the rolling update implements.\<close>

primrec windowHash :: "bytes \<Rightarrow> u64" where
  "windowHash [] = 0"
| "windowHash (b # bs) = word_rotl (length bs) (tableAt b) XOR windowHash bs"

lemma rotl_rotl: "word_rotl m (word_rotl n v) = word_rotl (m + n) (v :: u64)"
  by (simp only: word_rotl_rev word_rev_rev word_rotr_word_rotr_eq)

lemma rotl_0 [simp]: "word_rotl 0 v = (v :: u64)"
  by (rule bit_word_eqI) (simp add: bit_word_rotl_iff)

lemma windowHash_snoc: "windowHash (bs @ [b]) = word_rotl 1 (windowHash bs) XOR tableAt b"
  by (induction bs) (simp_all add: rotl_rotl word_rot_logs ac_simps)

text \<open>The window in the order its bytes arrived, and the window after more bytes.\<close>

definition window_of :: "Chunker \<Rightarrow> bytes" where
  "window_of c = drop (ck_windowPos c) (ck_window c) @ take (ck_windowPos c) (ck_window c)"

definition slide :: "bytes \<Rightarrow> bytes \<Rightarrow> bytes" where
  "slide w bs = drop (length bs) (w @ bs)"

lemma slide_simps [simp]: "slide w [] = w" "length (slide w bs) = length w"
  by (simp_all add: slide_def)

lemma slide_append: "slide (slide w as) bs = slide w (as @ bs)"
  by (cases "length as \<le> length w") (simp_all add: slide_def add.commute)

lemma slide_Cons: "w \<noteq> [] \<Longrightarrow> slide w (b # bs) = slide (tl w @ [b]) bs"
  by (cases w) (simp_all add: slide_def)

lemma slide_long: "length w \<le> length s \<Longrightarrow> slide w (p @ s) = drop (length s - length w) s"
  by (simp add: slide_def)

definition hash_ok :: "Chunker \<Rightarrow> bool" where
  "hash_ok c \<longleftrightarrow> length (ck_window c) = 48 \<and> ck_windowPos c < 48 \<and> ck_hash c = windowHash (window_of c)"

lemma length_window_of [simp]: "hash_ok c \<Longrightarrow> length (window_of c) = 48"
  by (simp add: hash_ok_def window_of_def)

lemma window_update:
  assumes "length w = 48" "p < 48"
  shows "drop ((p + 1) mod 48) (w[p := b]) @ take ((p + 1) mod 48) (w[p := b]) = tl (drop p w @ take p w) @ [b]"
proof (cases "p = 47")
  case True
  have upd: "w[47 := b] = take 47 w @ [b]" and last: "drop 47 w = [w ! 47]"
    using assms(1) upd_conv_take_nth_drop [of 47 w b] Cons_nth_drop_Suc [of 47 w] by simp_all
  show ?thesis using True assms(1) by (simp add: upd last)
next
  case False
  then have "(p + 1) mod 48 = Suc p" using assms(2) by simp
  moreover have "drop p w = w ! p # drop (Suc p) w" using assms by (simp add: Cons_nth_drop_Suc)
  moreover have "drop (Suc p) (w[p := b]) = drop (Suc p) w" "take (Suc p) (w[p := b]) = take p w @ [b]"
    using assms by (simp_all add: take_Suc_conv_app_nth)
  ultimately show ?thesis by simp
qed

lemma updateHash_ok:
  assumes "hash_ok c"
  shows "hash_ok (updateHash b c)" "window_of (updateHash b c) = tl (window_of c) @ [b]"
proof -
  have c: "length (ck_window c) = 48" "ck_windowPos c < 48" "ck_hash c = windowHash (window_of c)"
    using assms by (simp_all add: hash_ok_def)
  have w: "window_of (updateHash b c) = tl (window_of c) @ [b]"
    using window_update [OF c(1,2), of b] by (simp add: window_of_def updateHash_def Let_def WindowSize_def)
  obtain ob rest where ob: "window_of c = ob # rest" "length rest = 47"
    using length_window_of [OF assms] by (cases "window_of c") auto
  have out: "ck_window c ! ck_windowPos c = ob"
    using ob(1) c(1,2) by (simp add: window_of_def Cons_nth_drop_Suc [symmetric])
  have "ck_hash (updateHash b c) = word_rotl 1 (windowHash (ob # rest)) XOR word_rotl 48 (tableAt ob) XOR tableAt b"
    using c(3) ob(1) out by (simp add: updateHash_def Let_def WindowSize_def rotateLeft_rotl)
  also have "\<dots> = windowHash (rest @ [b])"
    using ob(2) by (simp add: windowHash_snoc word_rot_logs rotl_rotl ac_simps)
  finally show "hash_ok (updateHash b c)" using w ob c
    by (simp add: hash_ok_def) (simp add: updateHash_def Let_def WindowSize_def)
  show "window_of (updateHash b c) = tl (window_of c) @ [b]" by (rule w)
qed

lemma updates_ok: "hash_ok c \<Longrightarrow> hash_ok (fold updateHash bs c) \<and> window_of (fold updateHash bs c) = slide (window_of c) bs"
proof (induction bs arbitrary: c)
  case (Cons b bs)
  have "window_of c \<noteq> []" using length_window_of [OF Cons.prems] by auto
  then show ?case using Cons.IH [OF updateHash_ok(1) [OF Cons.prems]]
    by (simp add: updateHash_ok(2) [OF Cons.prems] slide_Cons)
qed simp

lemma zero_fold: "j \<le> n \<Longrightarrow>
    foldl (\<lambda>h i. h XOR rotateLeft (tableAt 0) (int n - 1 - int i)) h0 [j..<n] = h0 XOR windowHash (replicate (n - j) 0)"
proof (induction "n - j" arbitrary: j h0)
  case (Suc d)
  then have j: "j < n" "n - j = Suc (n - Suc j)" by auto
  then have "nat (int n - 1 - int j) = n - Suc j" by linarith
  then show ?case using Suc(1) [of "Suc j"] Suc(2) j
    by (simp add: upt_conv_Cons rotateLeft_rotl ac_simps del: replicate.simps) (simp add: ac_simps)
qed simp

lemma zeroWindowHash_eq: "zeroWindowHash = windowHash (replicate 48 0)"
  using zero_fold [of 0 48 0] by (simp add: zeroWindowHash_def WindowSize_def)

abbreviation configured :: "reader \<Rightarrow> int \<Rightarrow> int \<Rightarrow> u64 \<Rightarrow> Chunker" where
  "configured r mn mx m \<equiv> ck_New r [WithMinSize mn, WithMaxSize mx, WithMask m]"

lemma configured_ok: "hash_ok (configured r mn mx m)" "window_of (configured r mn mx m) = replicate 48 0"
  by (simp_all add: hash_ok_def window_of_def ck_New_def WithMinSize_def WithMaxSize_def WithMask_def Let_def
      WindowSize_def zeroWindowHash_eq)

section \<open>Reading\<close>

text \<open>
  \<open>feeds r i k data e\<close>: from its call \<open>i\<close> on, after \<open>k\<close> empty reads in a row, the reader
  gives the bytes \<open>data\<close> in some pieces and then the error \<open>e\<close>, the last piece possibly
  together with it.  No more than 99 reads in a row give neither bytes nor an error.
\<close>

inductive feeds :: "reader \<Rightarrow> nat \<Rightarrow> nat \<Rightarrow> bytes \<Rightarrow> read_error \<Rightarrow> bool" for r where
  feeds_end: "r i = (d, Some e) \<Longrightarrow> feeds r i k d e"
| feeds_data: "r i = (d, None) \<Longrightarrow> d \<noteq> [] \<Longrightarrow> feeds r (i + 1) 0 data e \<Longrightarrow> feeds r i k (d @ data) e"
| feeds_empty: "r i = ([], None) \<Longrightarrow> k + 1 < maxConsecutiveEmptyReads \<Longrightarrow> feeds r (i + 1) (k + 1) data e \<Longrightarrow>
    feeds r i k data e"

text \<open>What a chunker will still read: the buffered bytes and what the reader gives.\<close>

definition pending :: "nat \<Rightarrow> Chunker \<Rightarrow> bytes \<Rightarrow> read_error \<Rightarrow> bool" where
  "pending k c data e \<longleftrightarrow>
     ck_readEnd c \<le> length (ck_readBuf c) \<and>
     (if ck_eof c then data = drop (ck_readPos c) (take (ck_readEnd c) (ck_readBuf c)) \<and> e = EOF
      else case ck_readErr c of
             Some x \<Rightarrow> data = drop (ck_readPos c) (take (ck_readEnd c) (ck_readBuf c)) \<and> e = x
           | None \<Rightarrow> \<exists>rest. feeds (ck_reader c) (ck_calls c) (if ck_readPos c < ck_readEnd c then 0 else k) rest e \<and>
               data = drop (ck_readPos c) (take (ck_readEnd c) (ck_readBuf c)) @ rest)"

lemma pending_buffered:
  assumes "pending k c data e" "ck_readPos c < ck_readEnd c"
  shows "\<exists>data'. data = ck_readBuf c ! ck_readPos c # data' \<and>
    pending 0 (c\<lparr> ck_readPos := ck_readPos c + 1, ck_offset := o1 \<rparr>) data' e"
proof -
  have "drop (ck_readPos c) (take (ck_readEnd c) (ck_readBuf c)) =
      ck_readBuf c ! ck_readPos c # drop (Suc (ck_readPos c)) (take (ck_readEnd c) (ck_readBuf c))"
    using assms by (subst Cons_nth_drop_Suc [symmetric]) (auto simp: pending_def)
  then show ?thesis using assms by (auto simp: pending_def split: if_splits option.splits)
qed

lemma pending_more:
  assumes "pending k c data e" "ck_readEnd c \<le> ck_readPos c" "\<not> ck_eof c" "ck_readErr c = None"
  shows "pending (if ck_reader c (ck_calls c) = ([], None) then k + 1 else k) (readMore c) data e \<and>
    (ck_reader c (ck_calls c) = ([], None) \<longrightarrow> k + 1 < maxConsecutiveEmptyReads)"
proof -
  have len: "ck_readEnd c \<le> length (ck_readBuf c)" and feeds: "feeds (ck_reader c) (ck_calls c) k data e"
    using assms by (auto simp: pending_def)
  from feeds show ?thesis
  proof (cases rule: feeds.cases)
    case feeds_end
    then show ?thesis using assms len
      by (auto simp: pending_def readMore_def Let_def)
  next
    case (feeds_data d rest)
    then show ?thesis using assms len
      by (auto simp: pending_def readMore_def Let_def)
  next
    case feeds_empty
    then show ?thesis using assms len
      by (auto simp: pending_def readMore_def Let_def)
  qed
qed

lemma readLoop_pending:
  assumes "pending k c data e"
  shows "case data of
      [] \<Rightarrow> fst (readLoop k c) = Inl e \<and> pending 0 (snd (readLoop k c)) [] EOF \<and> ck_offset (snd (readLoop k c)) = ck_offset c
    | b # bs \<Rightarrow> fst (readLoop k c) = Inr b \<and> pending 0 (snd (readLoop k c)) bs e \<and>
        ck_offset (snd (readLoop k c)) = ck_offset c + 1"
  using assms
proof (induction k c rule: readLoop.induct)
  case (1 k c)
  consider "ck_readPos c < ck_readEnd c" | "ck_readEnd c \<le> ck_readPos c" "ck_eof c"
    | x where "ck_readEnd c \<le> ck_readPos c" "\<not> ck_eof c" "ck_readErr c = Some x"
    | "ck_readEnd c \<le> ck_readPos c" "\<not> ck_eof c" "ck_readErr c = None" "ck_reader c (ck_calls c) = ([], None)"
    | "ck_readEnd c \<le> ck_readPos c" "\<not> ck_eof c" "ck_readErr c = None" "ck_reader c (ck_calls c) \<noteq> ([], None)"
    by fastforce
  then show ?case
  proof cases
    case 1
    then show ?thesis using pending_buffered [OF \<open>pending k c data e\<close> 1, of "ck_offset c + 1"]
      by (auto simp: readLoop_buffered)
  next
    case 2
    then show ?thesis using \<open>pending k c data e\<close>
      by (auto simp: readLoop_eof pending_def)
  next
    case 3
    then show ?thesis using \<open>pending k c data e\<close>
      by (auto simp: readLoop_err pending_def)
  next
    case 4
    note more = pending_more [OF \<open>pending k c data e\<close> 4(1-3)]
    then have eq: "readLoop k c = readLoop (k + 1) (readMore c)" using 4 by (simp add: readLoop_empty)
    show ?thesis using 1(1) [OF _ 4(2,3) 4(4)] more 4 unfolding eq readMore_keeps by simp
  next
    case 5
    have eq: "readLoop k c = readLoop k (readMore c)" using 5 by (simp add: readLoop_more)
    show ?thesis using 1(2) [OF _ 5(2,3) 5(4)] pending_more [OF \<open>pending k c data e\<close> 5(1-3)] 5
      unfolding eq readMore_keeps by simp
  qed
qed

lemma configured_pending: "feeds r 0 0 data e \<Longrightarrow> pending 0 (configured r mn mx m) data e"
  by (auto simp: pending_def ck_New_def WithMinSize_def WithMaxSize_def WithMask_def Let_def)

section \<open>The chunks of a stream\<close>

text \<open>
  The reference: \<open>cut_after\<close> is the boundary rule on the length of the chunk so far and the
  last 48 bytes, \<open>firstCut\<close> the number of bytes to the first boundary.
\<close>

definition cut_after :: "int \<Rightarrow> int \<Rightarrow> u64 \<Rightarrow> nat \<Rightarrow> bytes \<Rightarrow> bool" where
  "cut_after mn mx m n w =
     (if int n < mn then windowHash w AND (push_bit 2 m OR m) = 0
      else if int n < mx then windowHash w AND drop_bit 2 m = 0
      else True)"

primrec firstCut :: "(nat \<Rightarrow> bytes \<Rightarrow> bool) \<Rightarrow> bytes \<Rightarrow> nat \<Rightarrow> bytes \<Rightarrow> nat option" where
  "firstCut B w n [] = None"
| "firstCut B w n (b # bs) =
     (if B (Suc n) (tl w @ [b]) then Some 1 else map_option Suc (firstCut B (tl w @ [b]) (Suc n) bs))"

definition streaming :: "int \<Rightarrow> int \<Rightarrow> u64 \<Rightarrow> bytes \<Rightarrow> bytes \<Rightarrow> read_error \<Rightarrow> Chunker \<Rightarrow> bool" where
  "streaming mn mx m w data e c \<longleftrightarrow>
     hash_ok c \<and> window_of c = w \<and> pending 0 c data e \<and> ck_minSize c = mn \<and> ck_maxSize c = mx \<and>
     ck_maskHard c = (push_bit 2 m OR m) \<and> ck_maskEasy c = drop_bit 2 m"

lemma configured_streaming: "feeds r 0 0 data e \<Longrightarrow> streaming mn mx m (replicate 48 0) data e (configured r mn mx m)"
  using configured_ok [of r mn mx m] configured_pending [of r data e mn mx m]
  by (simp add: streaming_def) (simp add: ck_New_def WithMinSize_def WithMaxSize_def WithMask_def Let_def)

lemma readByte_window:
  assumes "readByte c = (x, c')"
  shows "hash_ok c' = hash_ok c" "window_of c' = window_of c" "ck_buf c' = ck_buf c"
    "ck_minSize c' = ck_minSize c" "ck_maxSize c' = ck_maxSize c"
    "ck_maskHard c' = ck_maskHard c" "ck_maskEasy c' = ck_maskEasy c"
  using readByte_same [OF assms] by (simp_all add: same_chunk_state_def hash_ok_def window_of_def)

lemma streaming_read:
  assumes "streaming mn mx m w data e c"
  obtains c' where "data = []" "readByte c = (Inl e, c')" "streaming mn mx m w [] EOF c'" "ck_buf c' = ck_buf c"
      "ck_offset c' = ck_offset c"
  | b bs c' where "data = b # bs" "readByte c = (Inr b, c')" "streaming mn mx m w bs e c'" "ck_buf c' = ck_buf c"
      "ck_offset c' = ck_offset c + 1"
proof -
  obtain x c' where r: "readByte c = (x, c')" by fastforce
  have p: "pending 0 c data e" using assms by (simp add: streaming_def)
  note rp = readLoop_pending [OF p] and rw = readByte_window [OF r]
  show thesis
  proof (cases data)
    case Nil
    then show thesis using rp r rw assms by (intro that(1) [of c']) (simp_all add: streaming_def readByte_def)
  next
    case (Cons b bs)
    then show thesis using rp r rw assms by (intro that(2) [of b bs c']) (simp_all add: streaming_def readByte_def)
  qed
qed

lemma pending_append [simp]: "pending k (appendByte b c) data e = pending k c data e"
  by (cases "ck_readErr c") (simp_all add: pending_def appendByte_def updateHash_def Let_def)

lemma streaming_append:
  assumes "streaming mn mx m w data e c"
  shows "streaming mn mx m (tl w @ [b]) data e (appendByte b c)" "ck_buf (appendByte b c) = ck_buf c @ [b]"
    "ck_offset (appendByte b c) = ck_offset c"
    "atBoundary (appendByte b c) = cut_after mn mx m (Suc (length (ck_buf c))) (tl w @ [b])"
proof -
  let ?c = "c\<lparr> ck_buf := ck_buf c @ [b] \<rparr>"
  have ok: "hash_ok ?c" "window_of ?c = w" using assms by (simp_all add: streaming_def hash_ok_def window_of_def)
  note up = updateHash_ok [OF ok(1), of b]
  have hash: "ck_hash (appendByte b c) = windowHash (tl w @ [b])"
    using up ok(2) by (simp add: hash_ok_def appendByte_def)
  show 1: "streaming mn mx m (tl w @ [b]) data e (appendByte b c)"
    using up ok(2) assms unfolding streaming_def pending_append
    by (simp add: appendByte_def) (simp add: updateHash_def Let_def)
  show 2: "ck_buf (appendByte b c) = ck_buf c @ [b]" "ck_offset (appendByte b c) = ck_offset c"
    by (simp_all add: appendByte_def updateHash_def Let_def)
  show "atBoundary (appendByte b c) = cut_after mn mx m (Suc (length (ck_buf c))) (tl w @ [b])"
    using 1 2 hash by (simp add: atBoundary_def cut_after_def streaming_def)
qed

lemma nextLoop_spec:
  assumes "streaming mn mx m w data e c"
  shows "case firstCut (cut_after mn mx m) w (length (ck_buf c)) data of
      Some k \<Rightarrow> \<exists>c'. nextLoop s c = (Inr \<lparr> ch_Data = ck_buf c @ take k data, ch_Offset = s,
          ch_Length = int (length (ck_buf c @ take k data)) \<rparr>, c') \<and>
        streaming mn mx m (slide w (take k data)) (drop k data) e c' \<and> ck_offset c' = ck_offset c + int k \<and>
        0 < k \<and> k \<le> length data
    | None \<Rightarrow> \<exists>c'. nextLoop s c = (if e = EOF \<and> ck_buf c @ data \<noteq> [] then Inr \<lparr> ch_Data = ck_buf c @ data, ch_Offset = s,
          ch_Length = int (length (ck_buf c @ data)) \<rparr> else Inl e, c') \<and>
        streaming mn mx m (slide w data) [] EOF c' \<and> ck_offset c' = ck_offset c + int (length data)"
  using assms
proof (induction data arbitrary: c w)
  case Nil
  from Nil show ?case
    by (cases rule: streaming_read) (auto simp: emitChunk_def)
next
  case (Cons b bs)
  from Cons.prems obtain c1 where r: "readByte c = (Inr b, c1)" "streaming mn mx m w bs e c1" "ck_buf c1 = ck_buf c"
    "ck_offset c1 = ck_offset c + 1"
    by (cases rule: streaming_read) auto
  note ap = streaming_append [OF r(2), of b]
  have w: "w \<noteq> []" using Cons.prems length_window_of [of c] by (auto simp: streaming_def)
  show ?case
  proof (cases "cut_after mn mx m (Suc (length (ck_buf c))) (tl w @ [b])")
    case True
    then show ?thesis using r ap w by (auto simp: emitChunk_def slide_Cons)
  next
    case False
    have step: "nextLoop s c = nextLoop s (appendByte b c1)" using False r ap by simp
    show ?thesis
      using Cons.IH [OF ap(1)] False r(3,4) ap(2,3) unfolding step
      by (auto simp del: nextLoop.simps simp: slide_Cons [OF w] split: option.splits)
  qed
qed

lemma firstCut_bounds:
  "case firstCut (cut_after mn mx m) w n data of
     Some k \<Rightarrow> int (n + k) \<le> max (int n + 1) (max mn mx)
   | None \<Rightarrow> data \<noteq> [] \<longrightarrow> int (n + length data) < max mn mx"
proof (induction data arbitrary: w n)
  case (Cons b bs)
  show ?case
  proof (cases "cut_after mn mx m (Suc n) (tl w @ [b])")
    case False
    then have "int n + 1 < max mn mx" by (auto simp: cut_after_def split: if_splits)
    then show ?thesis using False Cons [where w = "tl w @ [b]" and n = "Suc n"]
      by (cases bs) (auto split: option.splits)
  qed simp
qed simp

lemma firstCut_pos: "firstCut B w n data = Some k \<Longrightarrow> 0 < k \<and> k \<le> length data"
  by (induction data arbitrary: w n k) (auto split: if_splits)

declare nextLoop.simps [simp del]

lemma Next_spec:
  assumes "streaming mn mx m w data e c"
  shows "case firstCut (cut_after mn mx m) w 0 data of
      Some k \<Rightarrow> \<exists>c'. ck_Next c = (Inr \<lparr> ch_Data = take k data, ch_Offset = ck_offset c, ch_Length = int k \<rparr>, c') \<and>
        streaming mn mx m (slide w (take k data)) (drop k data) e c' \<and> ck_offset c' = ck_offset c + int k \<and>
        0 < k \<and> k \<le> length data
    | None \<Rightarrow> \<exists>c'. ck_Next c = (if e = EOF \<and> data \<noteq> [] then Inr \<lparr> ch_Data = data, ch_Offset = ck_offset c,
          ch_Length = int (length data) \<rparr> else Inl e, c') \<and>
        streaming mn mx m (slide w data) [] EOF c'"
proof -
  have "pending 0 (c\<lparr> ck_buf := [] \<rparr>) data e = pending 0 c data e"
    by (cases "ck_readErr c") (simp_all add: pending_def)
  then have "streaming mn mx m w data e (c\<lparr> ck_buf := [] \<rparr>)"
    using assms by (simp add: streaming_def hash_ok_def window_of_def)
  from nextLoop_spec [OF this, of "ck_offset c"] show ?thesis
    by (auto simp: ck_Next_def min_absorb2 split: option.splits)
qed

text \<open>Calling \<^verbatim>\<open>Next\<close> a number of times.\<close>

primrec nexts :: "nat \<Rightarrow> Chunker \<Rightarrow> (read_error + Chunk) list \<times> Chunker" where
  "nexts 0 c = ([], c)"
| "nexts (Suc n) c = (let (x, c1) = ck_Next c; (xs, c2) = nexts n c1 in (x # xs, c2))"

primrec chunks_at :: "int \<Rightarrow> bytes list \<Rightarrow> Chunk list" where
  "chunks_at off [] = []"
| "chunks_at off (x # xs) = \<lparr> ch_Data = x, ch_Offset = off, ch_Length = int (length x) \<rparr> # chunks_at (off + int (length x)) xs"

lemma nexts_eof: "streaming mn mx m w [] EOF c \<Longrightarrow> fst (nexts n c) = replicate n (Inl EOF)"
proof (induction n arbitrary: c)
  case (Suc n)
  obtain c' where "ck_Next c = (Inl EOF, c')" "streaming mn mx m w [] EOF c'"
    using Next_spec [OF Suc.prems] by auto
  then show ?case using Suc.IH [of c'] by (simp add: case_prod_beta)
qed simp

definition chunks_then :: "int \<Rightarrow> bytes list \<Rightarrow> bytes \<Rightarrow> read_error \<Rightarrow> nat \<Rightarrow> (read_error + Chunk) list" where
  "chunks_then off cs rest e n =
     map Inr (chunks_at off (if e = EOF \<and> rest \<noteq> [] then cs @ [rest] else cs)) @
     (if e = EOF then replicate n (Inl EOF) else Inl e # replicate n (Inl EOF))"

lemma chunks_exist:
  "\<exists>cs rest. data = concat cs @ rest \<and> (\<forall>x \<in> set cs. 0 < length x \<and> int (length x) \<le> max 1 (max mn mx)) \<and>
     (rest \<noteq> [] \<longrightarrow> int (length rest) < max mn mx) \<and>
     (\<forall>c e n. streaming mn mx m w data e c \<longrightarrow>
        fst (nexts (length (chunks_then (ck_offset c) cs rest e n)) c) = chunks_then (ck_offset c) cs rest e n)"
proof (induction "length data" arbitrary: data w rule: less_induct)
  case less
  note bounds = firstCut_bounds [where mn = mn and mx = mx and m = m and w = w and n = 0 and data = data]
  show ?case
  proof (cases "firstCut (cut_after mn mx m) w 0 data")
    case None
    have "fst (nexts (length (chunks_then (ck_offset c) [] data e n)) c) = chunks_then (ck_offset c) [] data e n"
      if c: "streaming mn mx m w data e c" for c e n
    proof -
      obtain c' where c': "ck_Next c = (if e = EOF \<and> data \<noteq> [] then Inr \<lparr> ch_Data = data, ch_Offset = ck_offset c,
          ch_Length = int (length data) \<rparr> else Inl e, c')" "streaming mn mx m (slide w data) [] EOF c'"
        using Next_spec [OF c] None by auto
      show ?thesis
        using c' nexts_eof [OF c'(2)] nexts_eof [of mn mx m w c n] c
        by (cases "e = EOF"; cases "data = []") (auto simp: chunks_then_def case_prod_beta)
    qed
    then show ?thesis using None bounds by (intro exI [of _ "[]"] exI [of _ data]) auto
  next
    case (Some k)
    obtain cs rest where IH: "drop k data = concat cs @ rest"
      "\<forall>x \<in> set cs. 0 < length x \<and> int (length x) \<le> max 1 (max mn mx)"
      "rest \<noteq> [] \<longrightarrow> int (length rest) < max mn mx"
      "\<And>c e n. streaming mn mx m (slide w (take k data)) (drop k data) e c \<Longrightarrow>
        fst (nexts (length (chunks_then (ck_offset c) cs rest e n)) c) = chunks_then (ck_offset c) cs rest e n"
    proof -
      have "length (drop k data) < length data" using firstCut_pos [OF Some] by auto
      from less [OF this, of "slide w (take k data)"] show thesis using that by blast
    qed
    have "fst (nexts (length (chunks_then (ck_offset c) (take k data # cs) rest e n)) c)
        = chunks_then (ck_offset c) (take k data # cs) rest e n"
      if c: "streaming mn mx m w data e c" for c e n
    proof -
      obtain c' where c': "ck_Next c = (Inr \<lparr> ch_Data = take k data, ch_Offset = ck_offset c, ch_Length = int k \<rparr>, c')"
        "streaming mn mx m (slide w (take k data)) (drop k data) e c'" "ck_offset c' = ck_offset c + int k"
        using Next_spec [OF c] Some by auto
      have "chunks_then (ck_offset c) (take k data # cs) rest e n
          = Inr \<lparr> ch_Data = take k data, ch_Offset = ck_offset c, ch_Length = int k \<rparr> # chunks_then (ck_offset c') cs rest e n"
        using firstCut_pos [OF Some] c'(3) by (auto simp: chunks_then_def min_absorb2)
      then show ?thesis using IH(4) [OF c'(2), of n] c'(1) by (simp add: case_prod_beta)
    qed
    moreover have "data = take k data @ concat cs @ rest" by (simp flip: IH(1))
    ultimately show ?thesis using IH(2,3) bounds Some firstCut_pos [OF Some]
      by (intro exI [of _ "take k data # cs"] exI [of _ rest]) (auto simp: min_absorb2)
  qed
qed

lemma nexts_same:
  assumes "streaming mn mx m w data e c1" "streaming mn mx m w data e c2"
  shows "map (map_sum id ch_Data) (fst (nexts n c1)) = map (map_sum id ch_Data) (fst (nexts n c2))"
  using assms
proof (induction n arbitrary: w data e c1 c2)
  case (Suc n)
  obtain x1 c1' x2 c2' w' data' e' where s: "ck_Next c1 = (x1, c1')" "ck_Next c2 = (x2, c2')"
    "map_sum id ch_Data x1 = map_sum id ch_Data x2" "streaming mn mx m w' data' e' c1'" "streaming mn mx m w' data' e' c2'"
    using Next_spec [OF Suc.prems(1)] Next_spec [OF Suc.prems(2)]
    by (cases "firstCut (cut_after mn mx m) w 0 data"; cases "e = EOF \<and> data \<noteq> []") fastforce+
  show ?case using s(1-3) Suc.IH [OF s(4,5)] by (simp add: case_prod_beta id_def)
qed simp

lemma nexts_consume:
  assumes "streaming mn mx m w data EOF c" "nexts n c = (map Inr cs, c')"
  shows "\<exists>rest. data = concat (map ch_Data cs) @ rest \<and> streaming mn mx m (slide w (concat (map ch_Data cs))) rest EOF c'"
  using assms
proof (induction n arbitrary: w data c cs)
  case (Suc n)
  from Suc.prems(2) obtain x c1 cs1 where x: "cs = x # cs1" "ck_Next c = (Inr x, c1)" "nexts n c1 = (map Inr cs1, c')"
    by (auto simp: case_prod_beta prod_eq_iff Let_def Cons_eq_map_conv)
  have "\<exists>data1. data = ch_Data x @ data1 \<and> streaming mn mx m (slide w (ch_Data x)) data1 EOF c1"
    using Next_spec [OF Suc.prems(1)] x(2)
    by (intro exI [of _ "drop (length (ch_Data x)) data"], cases "firstCut (cut_after mn mx m) w 0 data")
      (auto simp: min_absorb2 split: if_splits)
  then obtain data1 where d: "data = ch_Data x @ data1" "streaming mn mx m (slide w (ch_Data x)) data1 EOF c1" by blast
  show ?case using Suc.IH [OF d(2) x(3)] d(1) x(1) by (auto simp: slide_append)
qed auto

text \<open>With a maximum size of one byte every byte is a chunk.\<close>

lemma nexts_bytes: "streaming 0 1 m w (data @ rest) EOF c \<Longrightarrow>
  \<exists>cs c'. nexts (length data) c = (map Inr cs, c') \<and> concat (map ch_Data cs) = data"
proof (induction data arbitrary: w c)
  case (Cons b data)
  have "cut_after 0 1 m (Suc 0) (tl w @ [b])" by (simp add: cut_after_def)
  then obtain c1 where c1: "ck_Next c = (Inr \<lparr> ch_Data = [b], ch_Offset = ck_offset c, ch_Length = 1 \<rparr>, c1)"
    "streaming 0 1 m (slide w [b]) (data @ rest) EOF c1"
    using Next_spec [OF Cons.prems] by auto
  obtain cs c' where "nexts (length data) c1 = (map Inr cs, c')" "concat (map ch_Data cs) = data"
    using Cons.IH [OF c1(2)] by blast
  then show ?case using c1(1)
    by (intro exI [of _ "\<lparr> ch_Data = [b], ch_Offset = ck_offset c, ch_Length = 1 \<rparr> # cs"] exI [of _ c']) simp
qed simp


section \<open>Properties\<close>

text \<open>
  C34: The rolling hash is the hash of the last 48 bytes.  Whatever bytes a new chunker has
  consumed, its rolling hash is the Buzhash of the last \<^verbatim>\<open>WindowSize\<close> of them, with zeros in
  place of missing ones, computed from scratch.
\<close>

theorem rolling_hash_is_window_hash:
  "ck_hash (fold updateHash bs (ck_New r [WithMinSize mn, WithMaxSize mx, WithMask m]))
     = windowHash (drop (length bs) (replicate WindowSize 0 @ bs))"
  using updates_ok [OF configured_ok(1) [of r mn mx m], of bs]
  by (simp add: hash_ok_def configured_ok(2) slide_def WindowSize_def)

text \<open>
  C10: The chunks are a partition of the stream that depends on its bytes alone.  For given
  sizes and mask every byte string has one splitting into chunks of at least one byte and at
  most the maximum size and a remainder, such that a chunker on any reader that delivers the
  bytes, in whatever pieces, returns exactly these chunks at consecutive offsets.  If the
  stream ends with \<^verbatim>\<open>EOF\<close> the remainder is the last chunk; a read error is returned in its
  place; after that every call returns \<^verbatim>\<open>EOF\<close>.
\<close>

theorem chunks_partition_stream:
  "\<exists>cs rest. data = concat cs @ rest \<and>
     (\<forall>x \<in> set cs. 0 < length x \<and> int (length x) \<le> max 1 (max mn mx)) \<and>
     (rest \<noteq> [] \<longrightarrow> int (length rest) < max mn mx) \<and>
     (\<forall>r e n. feeds r 0 0 data e \<longrightarrow>
        fst (nexts (length (chunks_then 0 cs rest e n)) (ck_New r [WithMinSize mn, WithMaxSize mx, WithMask m]))
          = chunks_then 0 cs rest e n)"
proof -
  have off: "ck_offset (configured r mn mx m) = 0" for r
    by (simp add: ck_New_def WithMinSize_def WithMaxSize_def WithMask_def Let_def)
  obtain cs rest where "data = concat cs @ rest" "\<forall>x \<in> set cs. 0 < length x \<and> int (length x) \<le> max 1 (max mn mx)"
    "rest \<noteq> [] \<longrightarrow> int (length rest) < max mn mx" and *: "\<forall>c e n. streaming mn mx m (replicate 48 0) data e c \<longrightarrow>
        fst (nexts (length (chunks_then (ck_offset c) cs rest e n)) c) = chunks_then (ck_offset c) cs rest e n"
    using chunks_exist [of data mn mx m "replicate 48 0"] by blast
  moreover have "fst (nexts (length (chunks_then 0 cs rest e n)) (configured r mn mx m)) = chunks_then 0 cs rest e n"
    if "feeds r 0 0 data e" for r e n
    using * [rule_format, OF configured_streaming [OF that], of n] by (simp add: off)
  ultimately show ?thesis by blast
qed

theorem chunks_partition_stream_witness:
  "\<exists>cs rest. [1, 2, 3] = concat cs @ rest \<and>
     fst (nexts (length (chunks_then 0 cs rest EOF 1))
       (ck_New (\<lambda>i. if i = 0 then ([1], None) else ([2, 3], Some EOF)) [WithMinSize 2, WithMaxSize 4, WithMask 7]))
       = chunks_then 0 cs rest EOF 1"
proof -
  let ?r = "\<lambda>i. if i = (0 :: nat) then ([1], None) else ([2, 3], Some EOF)"
  have "feeds ?r (0 + 1) 0 [2, 3] EOF" by (rule feeds_end) simp
  then have f: "feeds ?r 0 0 ([1] @ [2, 3]) EOF" by (intro feeds_data) auto
  obtain cs rest where "[1] @ [2, 3] = concat cs @ rest" and
    "\<forall>r e n. feeds r 0 0 ([1] @ [2, 3]) e \<longrightarrow> fst (nexts (length (chunks_then 0 cs rest e n))
       (configured r 2 4 7)) = chunks_then 0 cs rest e n"
    using chunks_partition_stream [of "[1] @ [2, 3]" 2 4 7] by blast
  with f show ?thesis by (intro exI [of _ cs] exI [of _ rest]) simp
qed

text \<open>
  C24: Chunking resynchronises.  Let two streams end in the same bytes \<open>s @ rest\<close> with at least
  48 bytes in \<open>s\<close>.  Once both chunkers have a boundary at the end of \<open>s\<close>, they return the
  same chunk contents for ever, whatever came before \<open>s\<close>.
\<close>

theorem chunks_resync:
  assumes "feeds r1 0 0 (p1 @ s @ rest) EOF" "feeds r2 0 0 (p2 @ s @ rest) EOF" "WindowSize \<le> length s"
    and "nexts n1 (ck_New r1 [WithMinSize mn, WithMaxSize mx, WithMask m]) = (map Inr cs1, c1)"
      "concat (map ch_Data cs1) = p1 @ s"
    and "nexts n2 (ck_New r2 [WithMinSize mn, WithMaxSize mx, WithMask m]) = (map Inr cs2, c2)"
      "concat (map ch_Data cs2) = p2 @ s"
  shows "map (map_sum id ch_Data) (fst (nexts n c1)) = map (map_sum id ch_Data) (fst (nexts n c2))"
proof -
  have "slide (replicate 48 0) (p @ s) = drop (length s - 48) s" for p :: bytes
    using slide_long [of "replicate 48 0" s p] assms(3) by (simp add: WindowSize_def)
  then have "streaming mn mx m (drop (length s - 48) s) rest EOF c1" "streaming mn mx m (drop (length s - 48) s) rest EOF c2"
    using nexts_consume [OF configured_streaming [OF assms(1)] assms(4)]
      nexts_consume [OF configured_streaming [OF assms(2)] assms(6)] assms(5,7) by auto
  then show ?thesis by (rule nexts_same)
qed

theorem chunks_resync_witness:
  "map (map_sum id ch_Data) (fst (nexts 2 (snd (nexts 48
       (ck_New (\<lambda>i. (replicate 48 5 @ [1], Some EOF)) [WithMinSize 0, WithMaxSize 1, WithMask 7]))))) =
   map (map_sum id ch_Data) (fst (nexts 2 (snd (nexts 49
       (ck_New (\<lambda>i. (7 # replicate 48 5 @ [1], Some EOF)) [WithMinSize 0, WithMaxSize 1, WithMask 7])))))"
proof -
  let ?s = "replicate 48 5 :: bytes"
  let ?r1 = "\<lambda>i. (?s @ [1], Some EOF)" and ?r2 = "\<lambda>i. (7 # ?s @ [1], Some EOF)"
  have f1: "feeds ?r1 0 0 ([] @ ?s @ [1]) EOF" and f2: "feeds ?r2 0 0 ([7] @ ?s @ [1]) EOF" by (auto intro: feeds_end)
  obtain cs1 c1 where 1: "nexts 48 (configured ?r1 0 1 7) = (map Inr cs1, c1)" "concat (map ch_Data cs1) = [] @ ?s"
    using nexts_bytes [of 7 "replicate 48 0" ?s "[1]" "configured ?r1 0 1 7"] configured_streaming [OF f1, of 0 1 7] by auto
  obtain cs2 c2 where 2: "nexts 49 (configured ?r2 0 1 7) = (map Inr cs2, c2)" "concat (map ch_Data cs2) = [7] @ ?s"
    using nexts_bytes [of 7 "replicate 48 0" "7 # ?s" "[1]" "configured ?r2 0 1 7"] configured_streaming [OF f2, of 0 1 7] by auto
  show ?thesis using chunks_resync [OF f1 f2 _ 1 2, of 2] 1(1) 2(1) by (simp add: WindowSize_def)
qed

end
