(* ===== verification/Json_Tree.thy ===== *)
theory Json_Tree
  imports Engine_Prelude
begin

text \<open>
  What the engine uses of \<^verbatim>\<open>encoding/json\<close>.  A document is a tree; decoding into a struct goes
  key by key, a missing key or \<^verbatim>\<open>null\<close> leaves the field alone, another type or an integer out
  of range is an error.  Keys are compared up to the case of ASCII letters.  \<open>JDec\<close> is a
  number literal that is no integer.  The conversion between a tree and its text is the
  record \<open>json_text\<close> with the law \<open>json_ok\<close>; \<open>stack_json\<close> is a conversion that has it.
\<close>

section \<open>Trees and decoding\<close>

datatype json =
    JNull
  | JBool bool
  | JInt int
  | JDec
  | JStr string
  | JArr "json list"
  | JObj "(string \<times> json) list"

record json_text =
  json_print :: "json \<Rightarrow> bytes"
  json_parse :: "bytes \<Rightarrow> json option"

definition json_ok :: "json_text \<Rightarrow> bool" where
  "json_ok J \<longleftrightarrow> (\<forall>j. json_parse J (json_print J j) = Some j \<and> json_print J j \<noteq> [])"

definition fold_char :: "char \<Rightarrow> char" where
  "fold_char c = (if 65 \<le> (of_char c :: nat) \<and> (of_char c :: nat) \<le> 90 then char_of (of_char c + 32 :: nat) else c)"

definition key_eq :: "string \<Rightarrow> string \<Rightarrow> bool" where
  "key_eq k name \<longleftrightarrow> map fold_char k = map fold_char name"

text \<open>Decoding into a field: \<^verbatim>\<open>null\<close> leaves it alone, another type is an error.\<close>

definition dec_int :: "(int \<Rightarrow> 'a \<Rightarrow> 'a) \<Rightarrow> json \<Rightarrow> 'a \<Rightarrow> 'a option" where
  "dec_int upd j r =
     (case j of
        JNull \<Rightarrow> Some r
      | JInt i \<Rightarrow> if - (2 ^ 63) \<le> i \<and> i < 2 ^ 63 then Some (upd i r) else None
      | _ \<Rightarrow> None)"

definition dec_u64 :: "(u64 \<Rightarrow> 'a \<Rightarrow> 'a) \<Rightarrow> json \<Rightarrow> 'a \<Rightarrow> 'a option" where
  "dec_u64 upd j r =
     (case j of
        JNull \<Rightarrow> Some r
      | JInt i \<Rightarrow> if 0 \<le> i \<and> i < 2 ^ 64 then Some (upd (of_int i) r) else None
      | _ \<Rightarrow> None)"

definition dec_bool :: "(bool \<Rightarrow> 'a \<Rightarrow> 'a) \<Rightarrow> json \<Rightarrow> 'a \<Rightarrow> 'a option" where
  "dec_bool upd j r = (case j of JNull \<Rightarrow> Some r | JBool b \<Rightarrow> Some (upd b r) | _ \<Rightarrow> None)"

definition dec_string :: "(string \<Rightarrow> 'a \<Rightarrow> 'a) \<Rightarrow> json \<Rightarrow> 'a \<Rightarrow> 'a option" where
  "dec_string upd j r = (case j of JNull \<Rightarrow> Some r | JStr s \<Rightarrow> Some (upd s r) | _ \<Rightarrow> None)"

fun dec_strs :: "json list \<Rightarrow> string list option" where
  "dec_strs [] = Some []"
| "dec_strs (JStr s # js) = map_option ((#) s) (dec_strs js)"
| "dec_strs (JNull # js) = map_option ((#) []) (dec_strs js)"
| "dec_strs (_ # js) = None"

definition dec_strings :: "(string list \<Rightarrow> 'a \<Rightarrow> 'a) \<Rightarrow> json \<Rightarrow> 'a \<Rightarrow> 'a option" where
  "dec_strings upd j r =
     (case j of JNull \<Rightarrow> Some (upd [] r) | JArr js \<Rightarrow> map_option (\<lambda>ss. upd ss r) (dec_strs js) | _ \<Rightarrow> None)"


section \<open>A conversion with the law\<close>

text \<open>
  A document is a program for a stack of trees.  Byte 0 clears a counter and 1 increments it;
  2 to 8, 10 and 12 push a leaf or an empty value; 9, 11 and 13 append to the value below.
\<close>

definition bnat :: "nat \<Rightarrow> bytes" where
  "bnat n = 0 # replicate n 1"

definition bstr :: "string \<Rightarrow> bytes" where
  "bstr s = 8 # concat (map (\<lambda>c. bnat (of_char c) @ [9]) s)"

primrec benc :: "json \<Rightarrow> bytes" where
  "benc JNull = [2]"
| "benc (JBool b) = [if b then 3 else 4]"
| "benc (JInt i) = (if 0 \<le> i then bnat (nat i) @ [5] else bnat (nat (- i)) @ [6])"
| "benc JDec = [7]"
| "benc (JStr s) = bstr s"
| "benc (JArr js) = 10 # concat (map (\<lambda>b. b @ [11]) (map benc js))"
| "benc (JObj kjs) = 12 # concat (map (\<lambda>(k, b). bstr k @ b @ [13]) (map (map_prod id benc) kjs))"

fun bstep :: "json list \<times> nat \<Rightarrow> byte \<Rightarrow> json list \<times> nat" where
  "bstep (st, n) b =
     (if b = 0 then (st, 0)
      else if b = 1 then (st, Suc n)
      else if b = 2 then (JNull # st, n)
      else if b = 3 then (JBool True # st, n)
      else if b = 4 then (JBool False # st, n)
      else if b = 5 then (JInt (int n) # st, n)
      else if b = 6 then (JInt (- int n) # st, n)
      else if b = 7 then (JDec # st, n)
      else if b = 8 then (JStr [] # st, n)
      else if b = 9 then (case st of JStr s # st' \<Rightarrow> (JStr (s @ [char_of n]) # st', n) | _ \<Rightarrow> (st, n))
      else if b = 10 then (JArr [] # st, n)
      else if b = 11 then (case st of j # JArr js # st' \<Rightarrow> (JArr (js @ [j]) # st', n) | _ \<Rightarrow> (st, n))
      else if b = 12 then (JObj [] # st, n)
      else if b = 13 then
        (case st of j # JStr k # JObj kjs # st' \<Rightarrow> (JObj (kjs @ [(k, j)]) # st', n) | _ \<Rightarrow> (st, n))
      else (st, n))"

definition stack_json :: json_text where
  "stack_json = \<lparr> json_print = benc,
     json_parse = (\<lambda>bs. case foldl bstep ([], 0) bs of ([j], _) \<Rightarrow> Some j | _ \<Rightarrow> None) \<rparr>"

lemma run_nat: "foldl bstep (st, n) (bnat m) = (st, m)"
proof -
  have "foldl bstep (st, k) (replicate m 1) = (st, k + m)" for k
    by (induction m arbitrary: k) simp_all
  then show ?thesis by (simp add: bnat_def)
qed

lemma run_str: "\<exists>n'. foldl bstep (st, n) (bstr s) = (JStr s # st, n')"
proof -
  have "\<exists>n'. foldl bstep (JStr t # st, n) (concat (map (\<lambda>c. bnat (of_char c) @ [9]) s)) = (JStr (t @ s) # st, n')" for t n
  proof (induction s arbitrary: t n)
    case (Cons a s)
    then show ?case using Cons [of "t @ [a]" "of_char a"] by (simp add: run_nat)
  qed simp
  from this [of "[]"] show ?thesis by (simp add: bstr_def)
qed

lemma run_arr:
  assumes "\<And>j st n. j \<in> set js \<Longrightarrow> \<exists>n'. foldl bstep (st, n) (benc j) = (j # st, n')"
  shows "\<exists>n'. foldl bstep (JArr ks # st, n) (concat (map (\<lambda>b. b @ [11]) (map benc js))) = (JArr (ks @ js) # st, n')"
  using assms
proof (induction js arbitrary: ks n)
  case (Cons j js)
  obtain n' where "foldl bstep (JArr ks # st, n) (benc j) = (j # JArr ks # st, n')" using Cons.prems [of j] by auto
  then show ?case using Cons.IH [of "ks @ [j]" n'] Cons.prems by simp
qed simp

lemma run_obj:
  assumes "\<And>k j st n. (k, j) \<in> set kjs \<Longrightarrow> \<exists>n'. foldl bstep (st, n) (benc j) = (j # st, n')"
  shows "\<exists>n'. foldl bstep (JObj ks # st, n) (concat (map (\<lambda>(k, b). bstr k @ b @ [13]) (map (map_prod id benc) kjs)))
    = (JObj (ks @ kjs) # st, n')"
  using assms
proof (induction kjs arbitrary: ks n)
  case (Cons kj kjs)
  obtain k j where kj: "kj = (k, j)" by fastforce
  obtain n1 where n1: "foldl bstep (JObj ks # st, n) (bstr k) = (JStr k # JObj ks # st, n1)" using run_str by blast
  obtain n2 where n2: "foldl bstep (JStr k # JObj ks # st, n1) (benc j) = (j # JStr k # JObj ks # st, n2)"
    using Cons.prems [of k j] kj by auto
  have "\<And>k j st n. (k, j) \<in> set kjs \<Longrightarrow> \<exists>n'. foldl bstep (st, n) (benc j) = (j # st, n')"
    using Cons.prems by (meson list.set_intros(2))
  from Cons.IH [where ks = "ks @ [(k, j)]" and n = n2, OF this] show ?case using n1 n2 kj by simp
qed simp

lemma run_benc: "\<exists>n'. foldl bstep (st, n) (benc j) = (j # st, n')"
proof (induction j arbitrary: st n)
  case (JStr s)
  then show ?case using run_str [of st n s] by simp
next
  case (JArr js)
  then show ?case using run_arr [of js "[]" st n] by simp
next
  case (JObj kjs)
  have "\<exists>n'. foldl bstep (st, n) (benc j) = (j # st, n')" if "(k, j) \<in> set kjs" for k j st n
    using JObj [OF that, of j] by (simp add: snds.intros)
  then show ?case using run_obj [of kjs "[]" st n] by simp
qed (simp_all add: run_nat)

lemma json_ok_stack: "json_ok stack_json"
proof -
  have "\<exists>n'. foldl bstep ([], 0) (benc j) = ([j], n')" for j using run_benc [of "[]"] by simp
  then have "json_parse stack_json (json_print stack_json j) = Some j" for j
    by (auto simp: stack_json_def) (metis (mono_tags, lifting) list.simps(5) old.prod.case list.case(1))
  moreover have "json_print stack_json j \<noteq> []" for j
    by (cases j) (simp_all add: stack_json_def bnat_def bstr_def)
  ultimately show ?thesis by (simp add: json_ok_def)
qed

end
