(* ===== verification/Repo_Config.thy ===== *)
theory Repo_Config
  imports Complex_Main Chunk_Store Json_Tree
begin

text \<open>
  Repository configuration: \<^verbatim>\<open>RepoConfig\<close> and its files in \<^verbatim>\<open>core/store/store.go\<close>, the
  resolution rules of \<^verbatim>\<open>repoconfig.go\<close>, the creation profiles of \<^verbatim>\<open>profile.go\<close>, the choices of
  \<^verbatim>\<open>compression.go\<close>, the defaults of \<^verbatim>\<open>core/config/config.go\<close> and the corpus of
  \<^verbatim>\<open>repocfgcases\<close>.  Encoding and decoding a
  \<^verbatim>\<open>RepoConfig\<close> follow the field tags, over the trees of \<open>Json_Tree\<close>.
\<close>

section \<open>Defaults\<close>

definition DefaultChunkMinSize :: int where
  "DefaultChunkMinSize = 16 * 1024"

definition DefaultChunkAvgSize :: int where
  "DefaultChunkAvgSize = 64 * 1024"

definition DefaultChunkMaxSize :: int where
  "DefaultChunkMaxSize = 512 * 1024"

definition DefaultBuzhashMask :: u64 where
  "DefaultBuzhashMask = 0xFFFF"

definition DefaultPackFileMaxSize :: int where
  "DefaultPackFileMaxSize = 128 * 1024 * 1024"

definition DefaultCompressionLevel :: int where
  "DefaultCompressionLevel = 3"

definition DefaultReadBufferSize :: int where
  "DefaultReadBufferSize = 1024 * 1024"

definition DefaultBloomFPRate :: rat where
  "DefaultBloomFPRate = 1 / 1000"

definition DefaultIndexCacheMB :: int where
  "DefaultIndexCacheMB = 256"

definition DefaultMemoryBudgetMB :: int where
  "DefaultMemoryBudgetMB = 512"

record Config =
  cfg_ChunkMinSize :: int
  cfg_ChunkAvgSize :: int
  cfg_ChunkMaxSize :: int
  cfg_BuzhashMask :: u64
  cfg_PackFileMaxSize :: int
  cfg_CompressionLevel :: int
  cfg_RepoPath :: string
  cfg_HashWorkers :: int
  cfg_MemoryBudgetMB :: int
  cfg_ReadBufferSize :: int
  cfg_BloomFPRate :: rat
  cfg_IndexCacheMB :: int
  cfg_MemFlushedIndex :: bool
  cfg_ExcludeVolatileFiles :: bool
  cfg_NormalizeNTFS :: bool

definition defaultWorkers :: "int \<Rightarrow> int" where
  "defaultWorkers numCPU = (if numCPU > 1 then numCPU - 1 else 1)"

definition cfg_Default :: "int \<Rightarrow> Config" where
  "cfg_Default numCPU = \<lparr>
     cfg_ChunkMinSize = DefaultChunkMinSize,
     cfg_ChunkAvgSize = DefaultChunkAvgSize,
     cfg_ChunkMaxSize = DefaultChunkMaxSize,
     cfg_BuzhashMask = DefaultBuzhashMask,
     cfg_PackFileMaxSize = DefaultPackFileMaxSize,
     cfg_CompressionLevel = DefaultCompressionLevel,
     cfg_RepoPath = [],
     cfg_HashWorkers = defaultWorkers numCPU,
     cfg_MemoryBudgetMB = DefaultMemoryBudgetMB,
     cfg_ReadBufferSize = DefaultReadBufferSize,
     cfg_BloomFPRate = DefaultBloomFPRate,
     cfg_IndexCacheMB = DefaultIndexCacheMB,
     cfg_MemFlushedIndex = False,
     cfg_ExcludeVolatileFiles = True,
     cfg_NormalizeNTFS = False \<rparr>"

section \<open>The repository configuration\<close>

definition EncryptNone :: string where
  "EncryptNone = []"

definition EncryptPassphrase :: string where
  "EncryptPassphrase = ''passphrase''"

definition EncryptManaged :: string where
  "EncryptManaged = ''managed''"

record RepoConfig =
  rc_Version :: int
  rc_ChunkMinSize :: int
  rc_ChunkAvgSize :: int
  rc_ChunkMaxSize :: int
  rc_BuzhashMask :: u64
  rc_PackFileMaxSize :: int
  rc_CompressionLevel :: int
  rc_Encrypted :: bool
  rc_EncryptionMode :: string
  rc_Normalizers :: "string list"

definition zeroRepoConfig :: RepoConfig where
  "zeroRepoConfig = \<lparr> rc_Version = 0, rc_ChunkMinSize = 0, rc_ChunkAvgSize = 0, rc_ChunkMaxSize = 0,
     rc_BuzhashMask = 0, rc_PackFileMaxSize = 0, rc_CompressionLevel = 0, rc_Encrypted = False,
     rc_EncryptionMode = [], rc_Normalizers = [] \<rparr>"

definition EffectiveEncryptionMode :: "RepoConfig \<Rightarrow> string" where
  "EffectiveEncryptionMode rc =
     (if rc_EncryptionMode rc \<noteq> [] then rc_EncryptionMode rc
      else if rc_Encrypted rc then EncryptPassphrase
      else EncryptNone)"

definition marshalRepoConfig :: "RepoConfig \<Rightarrow> json" where
  "marshalRepoConfig rc = JObj
     ([(''version'', JInt (rc_Version rc)),
       (''chunk_min_size'', JInt (rc_ChunkMinSize rc)),
       (''chunk_avg_size'', JInt (rc_ChunkAvgSize rc)),
       (''chunk_max_size'', JInt (rc_ChunkMaxSize rc)),
       (''buzhash_mask'', JInt (uint (rc_BuzhashMask rc))),
       (''pack_file_max_size'', JInt (rc_PackFileMaxSize rc)),
       (''compression_level'', JInt (rc_CompressionLevel rc))] @
      (if rc_Encrypted rc then [(''encrypted'', JBool True)] else []) @
      (if rc_EncryptionMode rc \<noteq> [] then [(''encryption_mode'', JStr (rc_EncryptionMode rc))] else []) @
      (if rc_Normalizers rc \<noteq> [] then [(''normalizers'', JArr (map JStr (rc_Normalizers rc)))] else []))"

definition setField :: "string \<Rightarrow> json \<Rightarrow> RepoConfig \<Rightarrow> RepoConfig option" where
  "setField k j rc =
     (if key_eq k ''version'' then dec_int (\<lambda>v. rc_Version_update (\<lambda>_. v)) j rc
      else if key_eq k ''chunk_min_size'' then dec_int (\<lambda>v. rc_ChunkMinSize_update (\<lambda>_. v)) j rc
      else if key_eq k ''chunk_avg_size'' then dec_int (\<lambda>v. rc_ChunkAvgSize_update (\<lambda>_. v)) j rc
      else if key_eq k ''chunk_max_size'' then dec_int (\<lambda>v. rc_ChunkMaxSize_update (\<lambda>_. v)) j rc
      else if key_eq k ''buzhash_mask'' then dec_u64 (\<lambda>v. rc_BuzhashMask_update (\<lambda>_. v)) j rc
      else if key_eq k ''pack_file_max_size'' then dec_int (\<lambda>v. rc_PackFileMaxSize_update (\<lambda>_. v)) j rc
      else if key_eq k ''compression_level'' then dec_int (\<lambda>v. rc_CompressionLevel_update (\<lambda>_. v)) j rc
      else if key_eq k ''encrypted'' then dec_bool (\<lambda>v. rc_Encrypted_update (\<lambda>_. v)) j rc
      else if key_eq k ''encryption_mode'' then dec_string (\<lambda>v. rc_EncryptionMode_update (\<lambda>_. v)) j rc
      else if key_eq k ''normalizers'' then dec_strings (\<lambda>v. rc_Normalizers_update (\<lambda>_. v)) j rc
      else Some rc)"

fun setFields :: "(string \<times> json) list \<Rightarrow> RepoConfig \<Rightarrow> RepoConfig option" where
  "setFields [] rc = Some rc"
| "setFields ((k, j) # kjs) rc = (case setField k j rc of None \<Rightarrow> None | Some rc' \<Rightarrow> setFields kjs rc')"

definition unmarshalRepoConfig :: "json \<Rightarrow> RepoConfig option" where
  "unmarshalRepoConfig j =
     (case j of JNull \<Rightarrow> Some zeroRepoConfig | JObj kjs \<Rightarrow> setFields kjs zeroRepoConfig | _ \<Rightarrow> None)"

text \<open>The files of a repository that hold the configuration.\<close>

record RepoDir =
  repo_dirs :: "string list"
  repo_config :: "bytes option"
  repo_tmp :: "bytes option"

definition RepoExists :: "RepoDir \<Rightarrow> bool" where
  "RepoExists d \<longleftrightarrow> repo_config d \<noteq> None"

definition InitRepo :: "json_text \<Rightarrow> RepoConfig \<Rightarrow> RepoDir \<Rightarrow> RepoDir" where
  "InitRepo J cfg0 d =
     (let cfg = cfg0\<lparr> rc_Version := 1 \<rparr>
      in d\<lparr> repo_dirs := remdups (repo_dirs d @ [''chunks'', ''index'', ''manifests'']),
            repo_config := Some (json_print J (marshalRepoConfig cfg)) \<rparr>)"

datatype config_error = ReadConfig | ParseConfig | UnknownProfile

definition parseRepoConfig :: "json_text \<Rightarrow> bytes \<Rightarrow> config_error + RepoConfig" where
  "parseRepoConfig J data =
     (case json_parse J data of
        None \<Rightarrow> Inl ParseConfig
      | Some j \<Rightarrow> (case unmarshalRepoConfig j of None \<Rightarrow> Inl ParseConfig | Some rc \<Rightarrow> Inr rc))"

definition LoadRepoConfig :: "json_text \<Rightarrow> RepoDir \<Rightarrow> config_error + RepoConfig" where
  "LoadRepoConfig J d = (case repo_config d of None \<Rightarrow> Inl ReadConfig | Some data \<Rightarrow> parseRepoConfig J data)"

text \<open>Writing the temporary file and renaming it over the configuration.\<close>

definition writeTmp :: "json_text \<Rightarrow> RepoConfig \<Rightarrow> RepoDir \<Rightarrow> RepoDir" where
  "writeTmp J cfg d = d\<lparr> repo_tmp := Some (json_print J (marshalRepoConfig cfg)) \<rparr>"

definition renameTmp :: "RepoDir \<Rightarrow> RepoDir" where
  "renameTmp d = d\<lparr> repo_config := repo_tmp d, repo_tmp := None \<rparr>"

definition SaveRepoConfig :: "json_text \<Rightarrow> RepoConfig \<Rightarrow> RepoDir \<Rightarrow> RepoDir" where
  "SaveRepoConfig J cfg d = renameTmp (writeTmp J cfg d)"

section \<open>Resolution\<close>

definition RepoConfigFromRecord :: "json_text \<Rightarrow> bytes \<Rightarrow> string \<Rightarrow> config_error + RepoConfig" where
  "RepoConfigFromRecord J configJSON recordEncryptionMode =
     (case (if configJSON \<noteq> [] then parseRepoConfig J configJSON else Inr zeroRepoConfig) of
        Inl e \<Rightarrow> Inl e
      | Inr rc \<Rightarrow>
          let rc1 = rc\<lparr> rc_EncryptionMode := recordEncryptionMode \<rparr>
          in Inr (if rc_EncryptionMode rc1 \<noteq> [] then rc1\<lparr> rc_Encrypted := True \<rparr> else rc1))"

definition Effective :: "RepoConfig \<Rightarrow> RepoConfig" where
  "Effective rc =
     rc\<lparr> rc_ChunkMinSize := (if rc_ChunkMinSize rc \<le> 0 then DefaultChunkMinSize else rc_ChunkMinSize rc),
         rc_ChunkAvgSize := (if rc_ChunkAvgSize rc \<le> 0 then DefaultChunkAvgSize else rc_ChunkAvgSize rc),
         rc_ChunkMaxSize := (if rc_ChunkMaxSize rc \<le> 0 then DefaultChunkMaxSize else rc_ChunkMaxSize rc),
         rc_BuzhashMask := (if rc_BuzhashMask rc = 0 then DefaultBuzhashMask else rc_BuzhashMask rc),
         rc_PackFileMaxSize := (if rc_PackFileMaxSize rc \<le> 0 then DefaultPackFileMaxSize else rc_PackFileMaxSize rc),
         rc_CompressionLevel := (if rc_CompressionLevel rc \<le> 0 then DefaultCompressionLevel else rc_CompressionLevel rc) \<rparr>"

definition rc_ApplyTo :: "RepoConfig \<Rightarrow> Config \<Rightarrow> Config" where
  "rc_ApplyTo rc cfg =
     (let eff = Effective rc
      in cfg\<lparr> cfg_ChunkMinSize := rc_ChunkMinSize eff,
              cfg_ChunkAvgSize := rc_ChunkAvgSize eff,
              cfg_ChunkMaxSize := rc_ChunkMaxSize eff,
              cfg_BuzhashMask := rc_BuzhashMask eff,
              cfg_PackFileMaxSize := rc_PackFileMaxSize eff,
              cfg_CompressionLevel := rc_CompressionLevel eff \<rparr>)"

definition IndexKeyFor :: "RepoConfig \<Rightarrow> MasterKey option \<Rightarrow> MasterKey option" where
  "IndexKeyFor rc key = (if EffectiveEncryptionMode rc = EncryptManaged then None else key)"

definition IndexEncryptedAtRest :: "RepoConfig \<Rightarrow> bool" where
  "IndexEncryptedAtRest rc =
     (let mode = EffectiveEncryptionMode rc in mode \<noteq> EncryptNone \<and> mode \<noteq> EncryptManaged)"

section \<open>Profiles and compression choices\<close>

definition LowFootprintChunkMin :: int where
  "LowFootprintChunkMin = push_bit 10 16"

definition LowFootprintChunkAvg :: int where
  "LowFootprintChunkAvg = push_bit 10 64"

definition LowFootprintChunkMax :: int where
  "LowFootprintChunkMax = push_bit 10 512"

definition LowFootprintPackMax :: int where
  "LowFootprintPackMax = push_bit 20 128"

definition ProfileNames :: "string list" where
  "ProfileNames = [''fine-grained'', ''mixed'', ''low-footprint'', ''coarse'', ''archive'']"

definition setGeometry :: "int \<Rightarrow> int \<Rightarrow> int \<Rightarrow> u64 \<Rightarrow> int \<Rightarrow> RepoConfig \<Rightarrow> RepoConfig" where
  "setGeometry mn avg mx bmask pack cfg =
     cfg\<lparr> rc_ChunkMinSize := mn, rc_ChunkAvgSize := avg, rc_ChunkMaxSize := mx, rc_BuzhashMask := bmask,
          rc_PackFileMaxSize := pack \<rparr>"

definition ApplyProfile :: "RepoConfig \<Rightarrow> string \<Rightarrow> config_error + RepoConfig" where
  "ApplyProfile cfg name =
     (if name = [] then Inr cfg
      else if name = ''low-footprint'' then
        Inr (setGeometry LowFootprintChunkMin LowFootprintChunkAvg LowFootprintChunkMax
          (of_int (LowFootprintChunkAvg - 1)) LowFootprintPackMax cfg)
      else if name = ''fine-grained'' then
        Inr (setGeometry (push_bit 10 4) (push_bit 10 8) (push_bit 10 64) (of_int (push_bit 10 8) - 1) (push_bit 20 512) cfg)
      else if name = ''mixed'' then
        Inr (setGeometry (push_bit 10 8) (push_bit 10 32) (push_bit 10 256) (of_int (push_bit 10 32) - 1) (push_bit 20 128) cfg)
      else if name = ''coarse'' then
        Inr (setGeometry (push_bit 10 32) (push_bit 10 128) (push_bit 20 1) (of_int (push_bit 10 128) - 1) (push_bit 20 256) cfg)
      else if name = ''archive'' then
        Inr (setGeometry (push_bit 10 256) (push_bit 20 1) (push_bit 20 8) (of_int (push_bit 20 1) - 1) (push_bit 30 1) cfg)
      else Inl UnknownProfile)"

record CompressionChoice =
  cc_Name :: string
  cc_Level :: int
  cc_Preset :: EncoderLevel

definition CompressionChoices :: "CompressionChoice list" where
  "CompressionChoices =
     [\<lparr> cc_Name = ''fastest'', cc_Level = 1, cc_Preset = SpeedFastest \<rparr>,
      \<lparr> cc_Name = ''balanced'', cc_Level = 3, cc_Preset = SpeedDefault \<rparr>,
      \<lparr> cc_Name = ''better'', cc_Level = 6, cc_Preset = SpeedBetterCompression \<rparr>,
      \<lparr> cc_Name = ''best'', cc_Level = 9, cc_Preset = SpeedBestCompression \<rparr>]"

section \<open>The reader corpus\<close>

record Want =
  w_ChunkMinSize :: int
  w_ChunkAvgSize :: int
  w_ChunkMaxSize :: int
  w_BuzhashMask :: u64
  w_PackFileMaxSize :: int
  w_CompressionLevel :: int

record Case =
  c_Name :: string
  c_Stored :: json
  c_Absent :: bool
  c_RecordEncryptionMode :: string
  c_CloudOnly :: bool
  c_LocalReaderRefuses :: bool
  c_Want :: Want
  c_WantEncryptionMode :: string
  c_WantNormalizers :: "string list"

definition WantRepoConfig :: "Case \<Rightarrow> RepoConfig" where
  "WantRepoConfig c = \<lparr>
     rc_Version = 1,
     rc_ChunkMinSize = w_ChunkMinSize (c_Want c),
     rc_ChunkAvgSize = w_ChunkAvgSize (c_Want c),
     rc_ChunkMaxSize = w_ChunkMaxSize (c_Want c),
     rc_BuzhashMask = w_BuzhashMask (c_Want c),
     rc_PackFileMaxSize = w_PackFileMaxSize (c_Want c),
     rc_CompressionLevel = w_CompressionLevel (c_Want c),
     rc_Encrypted = False,
     rc_EncryptionMode = c_WantEncryptionMode c,
     rc_Normalizers = c_WantNormalizers c \<rparr>"

definition want_defaults :: Want where
  "want_defaults = \<lparr>
     w_ChunkMinSize = DefaultChunkMinSize,
     w_ChunkAvgSize = DefaultChunkAvgSize,
     w_ChunkMaxSize = DefaultChunkMaxSize,
     w_BuzhashMask = DefaultBuzhashMask,
     w_PackFileMaxSize = DefaultPackFileMaxSize,
     w_CompressionLevel = DefaultCompressionLevel \<rparr>"

definition fullGeometry :: "(string \<times> json) list" where
  "fullGeometry =
     [(''chunk_min_size'', JInt 4096), (''chunk_avg_size'', JInt 8192), (''chunk_max_size'', JInt 65536),
      (''buzhash_mask'', JInt 8191), (''pack_file_max_size'', JInt 536870912)]"

definition withFullGeometry :: "int \<Rightarrow> Want" where
  "withFullGeometry level = \<lparr>
     w_ChunkMinSize = 4096,
     w_ChunkAvgSize = 8192,
     w_ChunkMaxSize = 65536,
     w_BuzhashMask = 8191,
     w_PackFileMaxSize = 536870912,
     w_CompressionLevel = level \<rparr>"

text \<open>A case with every field at its zero value but the name and what is wanted.\<close>

definition newCase :: "string \<Rightarrow> Want \<Rightarrow> Case" where
  "newCase name want = \<lparr> c_Name = name, c_Stored = JNull, c_Absent = False, c_RecordEncryptionMode = [],
     c_CloudOnly = False, c_LocalReaderRefuses = False, c_Want = want, c_WantEncryptionMode = [],
     c_WantNormalizers = [] \<rparr>"

definition coarseGeometry :: "(string \<times> json) list" where
  "coarseGeometry =
     [(''chunk_min_size'', JInt 32768), (''chunk_avg_size'', JInt 131072), (''chunk_max_size'', JInt 1048576)]"

definition geometryCases :: "Case list" where
  "geometryCases =
     [(newCase ''config-absent'' want_defaults)\<lparr> c_Absent := True \<rparr>,
      (newCase ''empty-object'' want_defaults)\<lparr> c_Stored := JObj [] \<rparr>,
      (newCase ''legacy-zero-compression'' (withFullGeometry DefaultCompressionLevel))
        \<lparr> c_Stored := JObj ((''version'', JInt 1) # fullGeometry @ [(''compression_level'', JInt 0)]) \<rparr>,
      (newCase ''compression-field-omitted'' (withFullGeometry DefaultCompressionLevel))
        \<lparr> c_Stored := JObj ((''version'', JInt 1) # fullGeometry) \<rparr>,
      (newCase ''compression-1'' (withFullGeometry 1))
        \<lparr> c_Stored := JObj ((''version'', JInt 1) # fullGeometry @ [(''compression_level'', JInt 1)]) \<rparr>,
      (newCase ''compression-3'' (withFullGeometry 3))
        \<lparr> c_Stored := JObj ((''version'', JInt 1) # fullGeometry @ [(''compression_level'', JInt 3)]) \<rparr>,
      (newCase ''compression-6'' (withFullGeometry 6))
        \<lparr> c_Stored := JObj ((''version'', JInt 1) # fullGeometry @ [(''compression_level'', JInt 6)]) \<rparr>,
      (newCase ''compression-9'' (withFullGeometry 9))
        \<lparr> c_Stored := JObj ((''version'', JInt 1) # fullGeometry @ [(''compression_level'', JInt 9)]) \<rparr>,
      (newCase ''compression-only-no-geometry'' (want_defaults\<lparr> w_CompressionLevel := 6 \<rparr>))
        \<lparr> c_Stored := JObj [(''version'', JInt 1), (''compression_level'', JInt 6)] \<rparr>,
      (newCase ''partial-geometry'' (want_defaults\<lparr> w_ChunkMinSize := 32768, w_ChunkAvgSize := 131072,
          w_ChunkMaxSize := 1048576, w_CompressionLevel := 3 \<rparr>))
        \<lparr> c_Stored := JObj ((''version'', JInt 1) # coarseGeometry @ [(''compression_level'', JInt 3)]) \<rparr>,
      (newCase ''coarse-profile-complete'' \<lparr> w_ChunkMinSize = 32768, w_ChunkAvgSize = 131072,
          w_ChunkMaxSize = 1048576, w_BuzhashMask = 131071, w_PackFileMaxSize = 268435456, w_CompressionLevel = 9 \<rparr>)
        \<lparr> c_Stored := JObj ((''version'', JInt 1) # coarseGeometry @
            [(''buzhash_mask'', JInt 131071), (''pack_file_max_size'', JInt 268435456),
             (''compression_level'', JInt 9)]) \<rparr>]"

definition identityCases :: "Case list" where
  "identityCases =
     [(newCase ''managed-encryption'' (withFullGeometry 3))
        \<lparr> c_Stored := JObj ([(''version'', JInt 1), (''encryption_mode'', JStr ''managed'')] @ fullGeometry @
            [(''compression_level'', JInt 3)]),
          c_RecordEncryptionMode := ''managed'', c_LocalReaderRefuses := True, c_WantEncryptionMode := ''managed'' \<rparr>,
      (newCase ''passphrase-encryption'' (withFullGeometry 3))
        \<lparr> c_Stored := JObj ([(''version'', JInt 1), (''encryption_mode'', JStr ''passphrase'')] @ fullGeometry @
            [(''compression_level'', JInt 3)]),
          c_RecordEncryptionMode := ''passphrase'', c_LocalReaderRefuses := True,
          c_WantEncryptionMode := ''passphrase'' \<rparr>,
      (newCase ''legacy-encrypted-bool'' (withFullGeometry 3))
        \<lparr> c_Stored := JObj ([(''version'', JInt 1), (''encrypted'', JBool True)] @ fullGeometry @
            [(''compression_level'', JInt 3)]),
          c_LocalReaderRefuses := True, c_WantEncryptionMode := ''passphrase'' \<rparr>,
      (newCase ''encryption-mode-only-on-record'' (withFullGeometry 3))
        \<lparr> c_Stored := JObj ((''version'', JInt 1) # fullGeometry @ [(''compression_level'', JInt 3)]),
          c_RecordEncryptionMode := ''managed'', c_CloudOnly := True, c_WantEncryptionMode := ''managed'' \<rparr>,
      (newCase ''normalizer-pe'' (withFullGeometry 3))
        \<lparr> c_Stored := JObj ((''version'', JInt 1) # fullGeometry @
            [(''compression_level'', JInt 3), (''normalizers'', JArr [JStr ''pe''])]),
          c_WantNormalizers := [''pe''] \<rparr>,
      (newCase ''normalizers-pe-ntfs'' (withFullGeometry 3))
        \<lparr> c_Stored := JObj ((''version'', JInt 1) # fullGeometry @
            [(''compression_level'', JInt 3), (''normalizers'', JArr [JStr ''pe'', JStr ''ntfs''])]),
          c_WantNormalizers := [''pe'', ''ntfs''] \<rparr>,
      (newCase ''managed-encryption-and-normalizers'' \<lparr> w_ChunkMinSize = 32768, w_ChunkAvgSize = 131072,
          w_ChunkMaxSize = 1048576, w_BuzhashMask = 131071, w_PackFileMaxSize = 268435456, w_CompressionLevel = 9 \<rparr>)
        \<lparr> c_Stored := JObj ([(''version'', JInt 1), (''encryption_mode'', JStr ''managed'')] @ coarseGeometry @
            [(''buzhash_mask'', JInt 131071), (''pack_file_max_size'', JInt 268435456),
             (''compression_level'', JInt 9), (''normalizers'', JArr [JStr ''ntfs''])]),
          c_RecordEncryptionMode := ''managed'', c_LocalReaderRefuses := True,
          c_WantEncryptionMode := ''managed'', c_WantNormalizers := [''ntfs''] \<rparr>,
      (newCase ''unknown-encryption-mode'' (withFullGeometry 3))
        \<lparr> c_Stored := JObj ((''version'', JInt 1) # fullGeometry @ [(''compression_level'', JInt 3)]),
          c_RecordEncryptionMode := ''manged'', c_CloudOnly := True, c_WantEncryptionMode := ''manged'' \<rparr>,
      (newCase ''normalizers-explicitly-empty'' (withFullGeometry 3))
        \<lparr> c_Stored := JObj ((''version'', JInt 1) # fullGeometry @
            [(''compression_level'', JInt 3), (''normalizers'', JArr [])]) \<rparr>]"

definition Cases :: "Case list" where
  "Cases = geometryCases @ identityCases"

section \<open>Correctness\<close>

lemma fold_keys:
  "map fold_char ''version'' = ''version''"
  "map fold_char ''chunk_min_size'' = ''chunk_min_size''"
  "map fold_char ''chunk_avg_size'' = ''chunk_avg_size''"
  "map fold_char ''chunk_max_size'' = ''chunk_max_size''"
  "map fold_char ''buzhash_mask'' = ''buzhash_mask''"
  "map fold_char ''pack_file_max_size'' = ''pack_file_max_size''"
  "map fold_char ''compression_level'' = ''compression_level''"
  "map fold_char ''encrypted'' = ''encrypted''"
  "map fold_char ''encryption_mode'' = ''encryption_mode''"
  "map fold_char ''normalizers'' = ''normalizers''"
  by (simp_all add: fold_char_def)

lemma key_eq_lower: "map fold_char k = k \<Longrightarrow> map fold_char name = name \<Longrightarrow> key_eq k name \<longleftrightarrow> k = name"
  by (simp add: key_eq_def)

lemma setField_keys:
  "setField ''version'' j = dec_int (\<lambda>v. rc_Version_update (\<lambda>_. v)) j"
  "setField ''chunk_min_size'' j = dec_int (\<lambda>v. rc_ChunkMinSize_update (\<lambda>_. v)) j"
  "setField ''chunk_avg_size'' j = dec_int (\<lambda>v. rc_ChunkAvgSize_update (\<lambda>_. v)) j"
  "setField ''chunk_max_size'' j = dec_int (\<lambda>v. rc_ChunkMaxSize_update (\<lambda>_. v)) j"
  "setField ''buzhash_mask'' j = dec_u64 (\<lambda>v. rc_BuzhashMask_update (\<lambda>_. v)) j"
  "setField ''pack_file_max_size'' j = dec_int (\<lambda>v. rc_PackFileMaxSize_update (\<lambda>_. v)) j"
  "setField ''compression_level'' j = dec_int (\<lambda>v. rc_CompressionLevel_update (\<lambda>_. v)) j"
  "setField ''encrypted'' j = dec_bool (\<lambda>v. rc_Encrypted_update (\<lambda>_. v)) j"
  "setField ''encryption_mode'' j = dec_string (\<lambda>v. rc_EncryptionMode_update (\<lambda>_. v)) j"
  "setField ''normalizers'' j = dec_strings (\<lambda>v. rc_Normalizers_update (\<lambda>_. v)) j"
  by (rule ext, simp add: setField_def key_eq_lower fold_keys del: list.map)+

lemma setFields_append: "setFields (as @ bs) rc = Option.bind (setFields as rc) (setFields bs)"
  by (induction as rc rule: setFields.induct) (auto split: option.splits)

lemma dec_strs_JStr: "dec_strs (map JStr ss) = Some ss"
  by (induction ss) auto

text \<open>The integers of a configuration fit Go's 64-bit fields.\<close>

definition rc_fits :: "RepoConfig \<Rightarrow> bool" where
  "rc_fits rc \<longleftrightarrow> (\<forall>v \<in> {rc_Version rc, rc_ChunkMinSize rc, rc_ChunkAvgSize rc, rc_ChunkMaxSize rc,
      rc_PackFileMaxSize rc, rc_CompressionLevel rc}. - (2 ^ 63) \<le> v \<and> v < 2 ^ 63)"

lemma unmarshal_marshal:
  assumes "rc_fits rc"
  shows "unmarshalRepoConfig (marshalRepoConfig rc) = Some rc"
proof -
  have u: "uint (rc_BuzhashMask rc) < 2 ^ 64" using uint_bounded [of "rc_BuzhashMask rc"] by simp
  obtain v mn avg mx m pk lvl enc mode nms where rc: "rc = \<lparr> rc_Version = v, rc_ChunkMinSize = mn,
      rc_ChunkAvgSize = avg, rc_ChunkMaxSize = mx, rc_BuzhashMask = m, rc_PackFileMaxSize = pk,
      rc_CompressionLevel = lvl, rc_Encrypted = enc, rc_EncryptionMode = mode, rc_Normalizers = nms \<rparr>"
    by (cases rc)
  show ?thesis
    using assms u unfolding rc rc_fits_def
    by (cases enc; cases "mode = []"; cases "nms = []")
      (simp_all add: unmarshalRepoConfig_def marshalRepoConfig_def setField_keys dec_int_def dec_u64_def dec_bool_def
        dec_string_def dec_strings_def dec_strs_JStr zeroRepoConfig_def)
qed

lemma parse_print: "json_ok J \<Longrightarrow> parseRepoConfig J (json_print J j) =
    (case unmarshalRepoConfig j of None \<Rightarrow> Inl ParseConfig | Some rc \<Rightarrow> Inr rc)"
  by (simp add: parseRepoConfig_def json_ok_def)

lemma profile_values:
  "ApplyProfile cfg ''fine-grained'' = Inr (setGeometry 4096 8192 65536 8191 536870912 cfg)"
  "ApplyProfile cfg ''mixed'' = Inr (setGeometry 8192 32768 262144 32767 134217728 cfg)"
  "ApplyProfile cfg ''low-footprint'' = Inr (setGeometry 16384 65536 524288 65535 134217728 cfg)"
  "ApplyProfile cfg ''coarse'' = Inr (setGeometry 32768 131072 1048576 131071 268435456 cfg)"
  "ApplyProfile cfg ''archive'' = Inr (setGeometry 262144 1048576 8388608 1048575 1073741824 cfg)"
  by (simp_all add: ApplyProfile_def LowFootprintChunkMin_def LowFootprintChunkAvg_def LowFootprintChunkMax_def
      LowFootprintPackMax_def)

definition sound_geometry :: "int \<Rightarrow> int \<Rightarrow> int \<Rightarrow> u64 \<Rightarrow> int \<Rightarrow> nat \<Rightarrow> bool" where
  "sound_geometry mn avg mx m pack k \<longleftrightarrow>
     0 < mn \<and> mn < avg \<and> avg < mx \<and> mx < pack \<and> avg = 2 ^ k \<and> m = Bit_Operations.mask k \<and> m \<noteq> 0"

lemma sound_geometries:
  "sound_geometry 4096 8192 65536 8191 536870912 13"
  "sound_geometry 8192 32768 262144 32767 134217728 15"
  "sound_geometry 16384 65536 524288 65535 134217728 16"
  "sound_geometry 32768 131072 1048576 131071 268435456 17"
  "sound_geometry 262144 1048576 8388608 1048575 1073741824 20"
  by (simp_all add: sound_geometry_def mask_eq_exp_minus_1)

lemma profile_geometry:
  assumes "name \<in> set ProfileNames"
  shows "\<exists>mn avg mx m pack k. ApplyProfile cfg name = Inr (setGeometry mn avg mx m pack cfg) \<and>
    sound_geometry mn avg mx m pack k"
proof -
  have "name = ''fine-grained'' \<or> name = ''mixed'' \<or> name = ''low-footprint'' \<or> name = ''coarse'' \<or> name = ''archive''"
    using assms by (simp add: ProfileNames_def)
  then show ?thesis
  proof (elim disjE FalseE)
    assume name: "name = ''fine-grained''"
    show ?thesis unfolding name by (intro exI) (rule conjI [OF profile_values(1) sound_geometries(1)])
  next
    assume name: "name = ''mixed''"
    show ?thesis unfolding name by (intro exI) (rule conjI [OF profile_values(2) sound_geometries(2)])
  next
    assume name: "name = ''low-footprint''"
    show ?thesis unfolding name by (intro exI) (rule conjI [OF profile_values(3) sound_geometries(3)])
  next
    assume name: "name = ''coarse''"
    show ?thesis unfolding name by (intro exI) (rule conjI [OF profile_values(4) sound_geometries(4)])
  next
    assume name: "name = ''archive''"
    show ?thesis unfolding name by (intro exI) (rule conjI [OF profile_values(5) sound_geometries(5)])
  qed
qed

text \<open>A stored configuration as the corpus writes it down: resolved, with the effective mode.\<close>

definition resolved :: "RepoConfig \<Rightarrow> RepoConfig" where
  "resolved rc = (Effective rc)\<lparr> rc_Version := 1, rc_Encrypted := False, rc_EncryptionMode := EffectiveEncryptionMode rc \<rparr>"

definition withMode :: "string \<Rightarrow> RepoConfig \<Rightarrow> RepoConfig" where
  "withMode mode rc =
     (let rc1 = rc\<lparr> rc_EncryptionMode := mode \<rparr> in if mode \<noteq> [] then rc1\<lparr> rc_Encrypted := True \<rparr> else rc1)"

definition corpus_ok :: "Case \<Rightarrow> bool" where
  "corpus_ok c =
     (case (if c_Absent c then Some zeroRepoConfig else unmarshalRepoConfig (c_Stored c)) of
        None \<Rightarrow> False
      | Some rc \<Rightarrow> resolved (withMode (c_RecordEncryptionMode c) rc) = WantRepoConfig c \<and>
          (c_CloudOnly c \<or> resolved rc = WantRepoConfig c))"

lemmas corpus_defs = corpus_ok_def newCase_def unmarshalRepoConfig_def setField_keys dec_int_def dec_u64_def dec_bool_def
  dec_string_def dec_strings_def zeroRepoConfig_def fullGeometry_def coarseGeometry_def resolved_def withMode_def Let_def
  WantRepoConfig_def want_defaults_def withFullGeometry_def Effective_def EffectiveEncryptionMode_def
  DefaultChunkMinSize_def DefaultChunkAvgSize_def DefaultChunkMaxSize_def DefaultBuzhashMask_def
  DefaultPackFileMaxSize_def DefaultCompressionLevel_def EncryptNone_def EncryptPassphrase_def

lemma geometry_checked: "list_all corpus_ok geometryCases"
  by (simp add: geometryCases_def corpus_defs)

lemma identity_checked: "list_all corpus_ok identityCases"
  by (simp add: identityCases_def corpus_defs)

lemma corpus_checked: "list_all corpus_ok Cases"
  using geometry_checked identity_checked by (simp add: Cases_def)

section \<open>Properties\<close>



text \<open>
  C38: Resolving a stored configuration.  The effective configuration has only positive sizes
  and a non-zero mask, resolving again changes nothing, and it has the stored encryption mode
  and normalizers; applying the stored or the resolved configuration to a process
  configuration is the same and touches nothing but the six storage fields.  The index of a
  repository with a key is encrypted at rest exactly if the key rule hands on the chunk key
  of an encrypted repository: never under managed encryption.
\<close>

theorem stored_config_resolves:
  "Effective (Effective rc) = Effective rc \<and>
   0 < rc_ChunkMinSize (Effective rc) \<and> 0 < rc_ChunkAvgSize (Effective rc) \<and> 0 < rc_ChunkMaxSize (Effective rc) \<and>
   rc_BuzhashMask (Effective rc) \<noteq> 0 \<and> 0 < rc_PackFileMaxSize (Effective rc) \<and> 0 < rc_CompressionLevel (Effective rc) \<and>
   EffectiveEncryptionMode (Effective rc) = EffectiveEncryptionMode rc \<and> rc_Normalizers (Effective rc) = rc_Normalizers rc \<and>
   rc_ApplyTo (Effective rc) cfg = rc_ApplyTo rc cfg \<and>
   (rc_ApplyTo rc cfg)\<lparr> cfg_ChunkMinSize := cfg_ChunkMinSize cfg, cfg_ChunkAvgSize := cfg_ChunkAvgSize cfg,
      cfg_ChunkMaxSize := cfg_ChunkMaxSize cfg, cfg_BuzhashMask := cfg_BuzhashMask cfg,
      cfg_PackFileMaxSize := cfg_PackFileMaxSize cfg, cfg_CompressionLevel := cfg_CompressionLevel cfg \<rparr> = cfg \<and>
   IndexEncryptedAtRest rc = (EffectiveEncryptionMode rc \<noteq> EncryptNone \<and> IndexKeyFor rc (Some k) = Some k) \<and>
   IndexEncryptedAtRest (rc\<lparr> rc_EncryptionMode := EncryptManaged \<rparr>) = False"
  by (simp add: Effective_def EffectiveEncryptionMode_def rc_ApplyTo_def Let_def IndexEncryptedAtRest_def IndexKeyFor_def
      DefaultChunkMinSize_def DefaultChunkAvgSize_def DefaultChunkMaxSize_def DefaultBuzhashMask_def
      DefaultPackFileMaxSize_def DefaultCompressionLevel_def EncryptNone_def EncryptManaged_def EncryptPassphrase_def)

text \<open>
  C36: The profile catalog is sound and complete.  Exactly the listed names and the empty name
  are accepted.  A listed profile sets a geometry in which the minimum is below the average,
  the average below the maximum and the maximum below the pack size, the mask is the average
  minus one and the average is a power of two, so that the mask is that many one bits; it
  touches nothing else, and resolving the result keeps the geometry.
\<close>

theorem profile_catalog:
  "((\<exists>cfg'. ApplyProfile cfg name = Inr cfg') = (name \<in> set ([] # ProfileNames))) \<and>
   (name \<in> set ProfileNames \<longrightarrow>
     (\<exists>cfg' k. ApplyProfile cfg name = Inr cfg' \<and> 0 < rc_ChunkMinSize cfg' \<and>
        rc_ChunkMinSize cfg' < rc_ChunkAvgSize cfg' \<and> rc_ChunkAvgSize cfg' < rc_ChunkMaxSize cfg' \<and>
        rc_ChunkMaxSize cfg' < rc_PackFileMaxSize cfg' \<and>
        rc_ChunkAvgSize cfg' = 2 ^ k \<and> rc_BuzhashMask cfg' = Bit_Operations.mask k \<and>
        setGeometry (rc_ChunkMinSize cfg) (rc_ChunkAvgSize cfg) (rc_ChunkMaxSize cfg) (rc_BuzhashMask cfg)
          (rc_PackFileMaxSize cfg) cfg' = cfg \<and>
        rc_ApplyTo cfg' (cfg_Default n) = (rc_ApplyTo cfg (cfg_Default n))\<lparr>
          cfg_ChunkMinSize := rc_ChunkMinSize cfg', cfg_ChunkAvgSize := rc_ChunkAvgSize cfg',
          cfg_ChunkMaxSize := rc_ChunkMaxSize cfg', cfg_BuzhashMask := rc_BuzhashMask cfg',
          cfg_PackFileMaxSize := rc_PackFileMaxSize cfg' \<rparr>))"
proof -
  have listed: "name \<in> set ProfileNames \<longleftrightarrow> name = ''fine-grained'' \<or> name = ''mixed'' \<or> name = ''low-footprint'' \<or>
      name = ''coarse'' \<or> name = ''archive''" by (simp add: ProfileNames_def)
  have 1: "\<exists>cfg' k. ApplyProfile cfg name = Inr cfg' \<and> 0 < rc_ChunkMinSize cfg' \<and>
        rc_ChunkMinSize cfg' < rc_ChunkAvgSize cfg' \<and> rc_ChunkAvgSize cfg' < rc_ChunkMaxSize cfg' \<and>
        rc_ChunkMaxSize cfg' < rc_PackFileMaxSize cfg' \<and>
        rc_ChunkAvgSize cfg' = 2 ^ k \<and> rc_BuzhashMask cfg' = Bit_Operations.mask k \<and>
        setGeometry (rc_ChunkMinSize cfg) (rc_ChunkAvgSize cfg) (rc_ChunkMaxSize cfg) (rc_BuzhashMask cfg)
          (rc_PackFileMaxSize cfg) cfg' = cfg \<and>
        rc_ApplyTo cfg' (cfg_Default n) = (rc_ApplyTo cfg (cfg_Default n))\<lparr>
          cfg_ChunkMinSize := rc_ChunkMinSize cfg', cfg_ChunkAvgSize := rc_ChunkAvgSize cfg',
          cfg_ChunkMaxSize := rc_ChunkMaxSize cfg', cfg_BuzhashMask := rc_BuzhashMask cfg',
          cfg_PackFileMaxSize := rc_PackFileMaxSize cfg' \<rparr>" if nm: "name \<in> set ProfileNames"
  proof -
    obtain mn avg mx m pack k where g: "ApplyProfile cfg name = Inr (setGeometry mn avg mx m pack cfg)"
      "0 < mn" "mn < avg" "avg < mx" "mx < pack" "avg = 2 ^ k" "m = Bit_Operations.mask k" "m \<noteq> 0"
      using profile_geometry [OF nm, of cfg] unfolding sound_geometry_def by blast
    show ?thesis
      by (rule exI [of _ "setGeometry mn avg mx m pack cfg"], rule exI [of _ k])
        (use g(1-5,8) in \<open>simp add: setGeometry_def rc_ApplyTo_def Effective_def Let_def flip: g(6,7)\<close>)
  qed
  have "(\<exists>cfg'. ApplyProfile cfg name = Inr cfg') = (name \<in> set ([] # ProfileNames))"
    using listed by (auto simp: ApplyProfile_def)
  with 1 show ?thesis by blast
qed

theorem profile_catalog_witness:
  "\<exists>cfg' k. ApplyProfile zeroRepoConfig ''archive'' = Inr cfg' \<and> rc_ChunkAvgSize cfg' = 2 ^ k \<and>
     rc_BuzhashMask cfg' = Bit_Operations.mask k"
  using profile_catalog [of zeroRepoConfig "''archive''" 4] by (auto simp: ProfileNames_def)



end
