(* ===== verification/Slice_Order.thy ===== *)
theory Slice_Order
  imports Engine_Prelude "HOL-Library.List_Lexorder" "HOL-Library.Char_ord"
begin

text \<open>
  \<^verbatim>\<open>sort.Slice\<close> with a comparison function and ranging over a Go map.  Both leave choices to
  the implementation: the order of elements that compare equal, and the order in which the
  keys of a map are visited.  The choices are parameters; \<open>slice_sorter\<close> and \<open>map_range\<close> are
  their documented contracts, and \<open>insertion\<close> and \<open>in_order\<close> are choices that have them.
\<close>

section \<open>Sorting by a comparison\<close>

definition strict_weak :: "('a \<Rightarrow> 'a \<Rightarrow> bool) \<Rightarrow> bool" where
  "strict_weak lt \<longleftrightarrow>
     (\<forall>x. \<not> lt x x) \<and> (\<forall>x y z. lt x y \<longrightarrow> lt y z \<longrightarrow> lt x z) \<and>
     (\<forall>x y z. \<not> lt x y \<longrightarrow> \<not> lt y z \<longrightarrow> \<not> lt x z)"

type_synonym 'a sorter = "('a \<Rightarrow> 'a \<Rightarrow> bool) \<Rightarrow> 'a list \<Rightarrow> 'a list"

definition slice_sorter :: "'a sorter \<Rightarrow> bool" where
  "slice_sorter srt \<longleftrightarrow>
     (\<forall>lt xs. strict_weak lt \<longrightarrow> mset (srt lt xs) = mset xs \<and> sorted_wrt (\<lambda>x y. \<not> lt y x) (srt lt xs))"

primrec insert_by :: "('a \<Rightarrow> 'a \<Rightarrow> bool) \<Rightarrow> 'a \<Rightarrow> 'a list \<Rightarrow> 'a list" where
  "insert_by lt x [] = [x]"
| "insert_by lt x (y # ys) = (if lt y x then y # insert_by lt x ys else x # y # ys)"

definition insertion :: "'a sorter" where
  "insertion lt xs = foldr (insert_by lt) xs []"

lemma strict_weak_key: "strict_weak (\<lambda>x y. key x < (key y :: 'b :: linorder))"
  by (auto simp: strict_weak_def)

lemma mset_insert_by [simp]: "mset (insert_by lt x xs) = add_mset x (mset xs)"
  by (induction xs) auto

lemma insert_by_sorted:
  assumes "strict_weak lt" "sorted_wrt (\<lambda>x y. \<not> lt y x) xs"
  shows "sorted_wrt (\<lambda>x y. \<not> lt y x) (insert_by lt x xs)"
  using assms(2)
proof (induction xs)
  case (Cons y ys)
  have set: "set (insert_by lt x ys) = insert x (set ys)" 
    by (metis mset_insert_by set_mset_add_mset_insert set_mset_mset)
  show ?case
  proof (cases "lt y x")
    case True
    then have "\<not> lt x y" using assms(1) unfolding strict_weak_def by blast
    then show ?thesis using True Cons set by simp
  next
    case False
    have "\<not> lt z x" if "z \<in> set ys" for z
    proof -
      have "\<not> lt z y" using Cons.prems that by simp
      then show ?thesis using False assms(1) unfolding strict_weak_def by blast
    qed
    then show ?thesis using False Cons.prems by simp
  qed
qed simp

lemma slice_sorter_insertion: "slice_sorter insertion"
proof -
  have "mset (insertion lt xs) = mset xs \<and> sorted_wrt (\<lambda>x y. \<not> lt y x) (insertion lt xs)"
    if "strict_weak lt" for lt and xs :: "'a list"
    by (induction xs) (simp_all add: insertion_def insert_by_sorted [OF that])
  then show ?thesis by (simp add: slice_sorter_def)
qed

lemma sorter_mset: "slice_sorter srt \<Longrightarrow> strict_weak lt \<Longrightarrow> mset (srt lt xs) = mset xs"
  by (simp add: slice_sorter_def)

lemma sorter_set: "slice_sorter srt \<Longrightarrow> strict_weak lt \<Longrightarrow> set (srt lt xs) = set xs"
  using sorter_mset mset_eq_setD by blast

lemma sorter_sorted: "slice_sorter srt \<Longrightarrow> strict_weak lt \<Longrightarrow> sorted_wrt (\<lambda>x y. \<not> lt y x) (srt lt xs)"
  by (simp add: slice_sorter_def)

section \<open>Ranging over a map\<close>

text \<open>
  \<open>rng n ks\<close> is the order in which the \<open>n\<close>-th loop over a map with the keys \<open>ks\<close> visits keys.  It
  visits every key that is there at the start; a key added during the loop may be visited.
\<close>

definition map_range :: "(nat \<Rightarrow> 'k list \<Rightarrow> 'k list) \<Rightarrow> bool" where
  "map_range rng \<longleftrightarrow> (\<forall>n ks. set ks \<subseteq> set (rng n ks))"

definition in_order :: "nat \<Rightarrow> 'k list \<Rightarrow> 'k list" where
  "in_order n ks = ks"

lemma map_range_in_order: "map_range in_order"
  by (simp add: map_range_def in_order_def)

end
