(* ===== verification/Retention.thy ===== *)
theory Retention
  imports Slice_Order "HOL-Library.AList"
begin

text \<open>
  Retention selection: \<^verbatim>\<open>core/retention/retention.go\<close>.  Instants and durations are nanosecond
  counts, and \<^verbatim>\<open>time.Time.Sub\<close> saturates at the 64-bit durations.  Maps are association
  lists; the orders of \<^verbatim>\<open>sort.Slice\<close> and of ranging over a map are the parameters \<open>srt\<close> and
  \<open>rng\<close>.  The walk over a parent chain and the fixpoint loop around it are partial functions:
  the value \<open>None\<close> is a call that does not return.
\<close>

section \<open>Model\<close>

record BackupMeta =
  bm_ID :: string
  bm_Source :: string
  bm_Status :: string
  bm_StartedAt :: int
  bm_CompletedAt :: int
  bm_ParentID :: string
  bm_SnapshotID :: string

record LadderPolicy =
  lp_WithinWeek :: int
  lp_AfterWeek :: int
  lp_After90Days :: int
  lp_AfterYear :: int

type_synonym reasons = "(string \<times> string) list"

record Result =
  res_Kept :: "string list"
  res_Forget :: "string list"
  res_Reasons :: reasons

definition newer :: "BackupMeta \<Rightarrow> BackupMeta \<Rightarrow> bool" where
  "newer a b =
     (if bm_CompletedAt a \<noteq> bm_CompletedAt b then bm_CompletedAt a > bm_CompletedAt b
      else if bm_StartedAt a \<noteq> bm_StartedAt b then bm_StartedAt a > bm_StartedAt b
      else bm_ID a < bm_ID b)"

definition hour :: int where
  "hour = 3600 * 10 ^ 9"

definition cadenceFor :: "LadderPolicy \<Rightarrow> int \<Rightarrow> int" where
  "cadenceFor p age =
     (if age < 7 * 24 * hour then lp_WithinWeek p
      else if age < 90 * 24 * hour then lp_AfterWeek p
      else if age < 365 * 24 * hour then lp_After90Days p
      else lp_AfterYear p)"

definition timeSub :: "int \<Rightarrow> int \<Rightarrow> int" where
  "timeSub t u = max (- (2 ^ 63)) (min (2 ^ 63 - 1) (t - u))"

definition completed :: "BackupMeta \<Rightarrow> bool" where
  "completed b \<longleftrightarrow> bm_Status b = ''completed''"

definition byID :: "BackupMeta list \<Rightarrow> string \<Rightarrow> BackupMeta option" where
  "byID bs bid = map_of (rev (map (\<lambda>b. (bm_ID b, b)) bs)) bid"

definition isKept :: "reasons \<Rightarrow> string \<Rightarrow> bool" where
  "isKept k bid \<longleftrightarrow> bid \<in> set (map fst k)"

definition keep :: "string \<Rightarrow> string \<Rightarrow> reasons \<Rightarrow> reasons" where
  "keep bid reason k = (if isKept k bid then k else k @ [(bid, reason)])"

definition keepActive :: "BackupMeta list \<Rightarrow> reasons \<Rightarrow> reasons" where
  "keepActive bs k = foldl (\<lambda>k b. if \<not> completed b then keep (bm_ID b) ''active'' k else k) k bs"

definition newestOf :: "BackupMeta list \<Rightarrow> (string \<times> BackupMeta) list" where
  "newestOf bs =
     foldl (\<lambda>m b. if \<not> completed b then m
                  else case map_of m (bm_Source b) of
                         None \<Rightarrow> AList.update (bm_Source b) b m
                       | Some cur \<Rightarrow> if newer b cur then AList.update (bm_Source b) b m else m) [] bs"

definition keepNewest :: "(nat \<Rightarrow> string list \<Rightarrow> string list) \<Rightarrow> BackupMeta list \<Rightarrow> reasons \<Rightarrow> reasons" where
  "keepNewest rng bs k =
     (let newest = newestOf bs
      in foldl (\<lambda>k src. case map_of newest src of
                          None \<Rightarrow> k
                        | Some b \<Rightarrow> keep (bm_ID b) ''newest-of-source'' k) k (rng 0 (map fst newest)))"

definition bySource :: "BackupMeta list \<Rightarrow> (string \<times> BackupMeta list) list" where
  "bySource bs =
     foldl (\<lambda>m b. if completed b
                  then AList.update (bm_Source b) ((case map_of m (bm_Source b) of None \<Rightarrow> [] | Some l \<Rightarrow> l) @ [b]) m
                  else m) [] bs"

type_synonym bucketKey = "int \<times> int"

definition bucketOf :: "LadderPolicy \<Rightarrow> int \<Rightarrow> BackupMeta \<Rightarrow> bucketKey" where
  "bucketOf policy now b =
     (let age = timeSub now (bm_CompletedAt b); cad = cadenceFor policy age in (cad, go_quot age cad))"

fun ladderLoop :: "LadderPolicy \<Rightarrow> int \<Rightarrow> bucketKey list \<Rightarrow> reasons \<Rightarrow> BackupMeta list \<Rightarrow> reasons" where
  "ladderLoop policy now seen k [] = k"
| "ladderLoop policy now seen k (b # bs) =
     (if cadenceFor policy (timeSub now (bm_CompletedAt b)) \<le> 0
      then ladderLoop policy now seen (keep (bm_ID b) ''ladder'' k) bs
      else if bucketOf policy now b \<notin> set seen
      then ladderLoop policy now (bucketOf policy now b # seen) (keep (bm_ID b) ''ladder'' k) bs
      else ladderLoop policy now seen k bs)"

definition keepLadder :: "BackupMeta sorter \<Rightarrow> (nat \<Rightarrow> string list \<Rightarrow> string list) \<Rightarrow> BackupMeta list \<Rightarrow> LadderPolicy \<Rightarrow>
    int \<Rightarrow> reasons \<Rightarrow> reasons" where
  "keepLadder srt rng bs policy now k =
     (let m = bySource bs
      in foldl (\<lambda>k src. case map_of m src of
                          None \<Rightarrow> k
                        | Some l \<Rightarrow> ladderLoop policy now [] k (srt newer l)) k (rng 1 (map fst m)))"

definition snapMembers :: "BackupMeta list \<Rightarrow> string \<Rightarrow> string list" where
  "snapMembers bs sid = map bm_ID (filter (\<lambda>b. bm_SnapshotID b = sid) bs)"

definition parentOf :: "BackupMeta list \<Rightarrow> string \<Rightarrow> string" where
  "parentOf bs bid = (case byID bs bid of None \<Rightarrow> [] | Some b \<Rightarrow> bm_ParentID b)"

definition snapshotOf :: "BackupMeta list \<Rightarrow> string \<Rightarrow> string" where
  "snapshotOf bs bid = (case byID bs bid of None \<Rightarrow> [] | Some b \<Rightarrow> bm_SnapshotID b)"

definition keepNew :: "string \<Rightarrow> string \<Rightarrow> reasons \<times> bool \<Rightarrow> reasons \<times> bool" where
  "keepNew reason bid st = (if isKept (fst st) bid then st else (keep bid reason (fst st), True))"

partial_function (option) chainWalk :: "BackupMeta list \<Rightarrow> string \<Rightarrow> reasons \<times> bool \<Rightarrow> (reasons \<times> bool) option" where
  "chainWalk bs pid st =
     (if pid = [] then Some st
      else chainWalk bs (parentOf bs pid) (keepNew ''chain-ancestor'' pid st))"

definition keepSiblings :: "BackupMeta list \<Rightarrow> string \<Rightarrow> reasons \<times> bool \<Rightarrow> reasons \<times> bool" where
  "keepSiblings bs bid st =
     (let sid = snapshotOf bs bid
      in if sid \<noteq> [] then foldl (\<lambda>st sib. keepNew ''snapshot-sibling'' sib st) st (snapMembers bs sid) else st)"

text \<open>One pass of the fixpoint loop over the given keys; a loop over a map yields only keys that are in it.\<close>

fun passLoop :: "BackupMeta list \<Rightarrow> string list \<Rightarrow> reasons \<times> bool \<Rightarrow> (reasons \<times> bool) option" where
  "passLoop bs [] st = Some st"
| "passLoop bs (bid # ids) st =
     (if isKept (fst st) bid
      then Option.bind (chainWalk bs (parentOf bs bid) st) (\<lambda>st1. passLoop bs ids (keepSiblings bs bid st1))
      else passLoop bs ids st)"

partial_function (option) fixLoop :: "(nat \<Rightarrow> string list \<Rightarrow> string list) \<Rightarrow> BackupMeta list \<Rightarrow> nat \<Rightarrow> reasons \<Rightarrow> reasons option" where
  "fixLoop rng bs n k =
     Option.bind (passLoop bs (rng n (map fst k)) (k, False))
       (\<lambda>st. if snd st then fixLoop rng bs (Suc n) (fst st) else Some (fst st))"

definition Select :: "BackupMeta sorter \<Rightarrow> (nat \<Rightarrow> string list \<Rightarrow> string list) \<Rightarrow> BackupMeta list \<Rightarrow> LadderPolicy \<Rightarrow> int \<Rightarrow>
    Result option" where
  "Select srt rng backups policy now =
     (let k1 = keepActive backups [];
          k2 = keepNewest rng backups k1;
          k3 = keepLadder srt rng backups policy now k2
      in map_option (\<lambda>k. \<lparr> res_Kept = map fst k,
           res_Forget = sort (map bm_ID (filter (\<lambda>b. \<not> isKept k (bm_ID b)) backups)),
           res_Reasons = k \<rparr>) (fixLoop rng backups 2 k3))"

section \<open>Keeping\<close>

definition keys :: "reasons \<Rightarrow> string set" where
  "keys k = fst ` set k"

lemma keys_set: "set (map fst k) = keys k" and keys_Nil [simp]: "keys [] = {}"
  by (simp_all add: keys_def)

lemma isKept_keys [simp]: "isKept k bid \<longleftrightarrow> bid \<in> keys k"
  by (simp add: isKept_def keys_def)

lemma keys_keep [simp]: "keys (keep bid r k) = insert bid (keys k)"
  by (auto simp: keep_def isKept_def keys_def)

lemma keys_keepNew [simp]: "keys (fst (keepNew r bid st)) = insert bid (keys (fst st))"
  by (auto simp: keepNew_def)

lemma keepActive_keys: "keys (keepActive bs k) = keys k \<union> bm_ID ` {b \<in> set bs. \<not> completed b}"
  unfolding keepActive_def by (induction bs arbitrary: k) auto

lemma newer_strict: "strict_weak newer"
  unfolding strict_weak_def newer_def by (intro conjI allI impI) (auto split: if_splits)

lemma newestOf_snoc: "newestOf (bs @ [b]) =
    (if \<not> completed b then newestOf bs
     else case map_of (newestOf bs) (bm_Source b) of
            None \<Rightarrow> AList.update (bm_Source b) b (newestOf bs)
          | Some cur \<Rightarrow> if newer b cur then AList.update (bm_Source b) b (newestOf bs) else newestOf bs)"
  by (simp only: newestOf_def foldl_append foldl.simps)

lemma newer_not_sym: "newer a b \<Longrightarrow> \<not> newer b a" "\<not> newer a a"
  by (auto simp: newer_def split: if_splits)

lemma newer_trans: "newer a b \<Longrightarrow> \<not> newer c b \<Longrightarrow> \<not> newer c a"
  using newer_strict unfolding strict_weak_def by blast

lemma newestOf_None: "map_of (newestOf bs) src = None \<longleftrightarrow> (\<forall>b \<in> set bs. completed b \<longrightarrow> bm_Source b \<noteq> src)"
  by (induction bs rule: rev_induct) (auto simp: newestOf_snoc newestOf_def update_conv' split: option.splits)

lemma newestOf_Some:
  "map_of (newestOf bs) src = Some b \<Longrightarrow> b \<in> set bs \<and> completed b \<and> bm_Source b = src \<and>
     (\<forall>c \<in> set bs. completed c \<and> bm_Source c = src \<longrightarrow> \<not> newer c b)"
proof (induction bs arbitrary: b rule: rev_induct)
  case Nil
  then show ?case by (simp add: newestOf_def)
next
  case (snoc x bs)
  show ?case
  proof (cases "completed x \<and> bm_Source x = src")
    case False
    then have "map_of (newestOf bs) src = Some b"
      using snoc.prems by (auto simp: newestOf_snoc update_conv' split: if_splits option.splits)
    then show ?thesis using snoc.IH False by auto
  next
    case True
    show ?thesis
    proof (cases "map_of (newestOf bs) src")
      case None
      then have "b = x" using snoc.prems True by (simp add: newestOf_snoc update_conv')
      then show ?thesis using True newestOf_None [of bs src] None by (auto simp: newer_not_sym)
    next
      case (Some cur)
      note IH = snoc.IH [OF Some]
      show ?thesis
      proof (cases "newer x cur")
        case True': True
        then have "b = x" using snoc.prems True Some by (simp add: newestOf_snoc update_conv')
        then show ?thesis using True IH newer_trans [OF True'] by (auto simp: newer_not_sym)
      next
        case False
        then have "b = cur" using snoc.prems True Some by (simp add: newestOf_snoc)
        then show ?thesis using IH False by auto
      qed
    qed
  qed
qed

lemma bySource_spec: "map_of (bySource bs) src =
    (let l = filter (\<lambda>b. completed b \<and> bm_Source b = src) bs in if l = [] then None else Some l)"
proof (induction bs rule: rev_induct)
  case (snoc b bs)
  have "bySource (bs @ [b]) = (if completed b
      then AList.update (bm_Source b) ((case map_of (bySource bs) (bm_Source b) of None \<Rightarrow> [] | Some l \<Rightarrow> l) @ [b]) (bySource bs)
      else bySource bs)" by (simp add: bySource_def)
  then show ?case using snoc by (auto simp: update_conv' Let_def)
qed (simp add: bySource_def)

lemma fold_keeps_keys:
  assumes "\<And>k x. keys (f k x) = keys k \<union> A x"
  shows "keys (foldl f k xs) = keys k \<union> (\<Union>x \<in> set xs. A x)"
  by (induction xs arbitrary: k) (auto simp: assms)

lemma keepNewest_keys:
  assumes "map_range rng"
  shows "keys (keepNewest rng bs k) = keys k \<union> {bm_ID b |b src. map_of (newestOf bs) src = Some b}"
proof -
  let ?A = "\<lambda>src. case map_of (newestOf bs) src of None \<Rightarrow> {} | Some b \<Rightarrow> {bm_ID b}"
  have "keys (keepNewest rng bs k) = keys k \<union> (\<Union>src \<in> set (rng 0 (map fst (newestOf bs))). ?A src)"
    unfolding keepNewest_def Let_def by (rule fold_keeps_keys) (simp split: option.splits)
  also have "(\<Union>src \<in> set (rng 0 (map fst (newestOf bs))). ?A src) = {bm_ID b |b src. map_of (newestOf bs) src = Some b}"
  proof -
    have "src \<in> set (rng 0 (map fst (newestOf bs)))" if "map_of (newestOf bs) src = Some b" for src b
      using that assms map_of_SomeD [OF that] unfolding map_range_def by force
    then show ?thesis by (fastforce split: option.splits)
  qed
  finally show ?thesis .
qed

text \<open>The survivors of the ladder among the completed backups of a source.\<close>

definition wins :: "LadderPolicy \<Rightarrow> int \<Rightarrow> bucketKey list \<Rightarrow> BackupMeta list \<Rightarrow> BackupMeta \<Rightarrow> bool" where
  "wins policy now seen l b \<longleftrightarrow>
     cadenceFor policy (timeSub now (bm_CompletedAt b)) \<le> 0 \<or>
     bucketOf policy now b \<notin> set seen \<and> (\<forall>c \<in> set l. bucketOf policy now c = bucketOf policy now b \<longrightarrow> \<not> newer c b)"

lemma ladderLoop_keys:
  assumes "sorted_wrt (\<lambda>x y. \<not> newer y x) l" "distinct (map bm_ID l)"
  shows "keys (ladderLoop policy now seen k l) = keys k \<union> bm_ID ` {b \<in> set l. wins policy now seen l b}"
  using assms
proof (induction l arbitrary: seen k)
  case (Cons b l)
  let ?cad = "\<lambda>b. cadenceFor policy (timeSub now (bm_CompletedAt b))" and ?bk = "bucketOf policy now"
  let ?win = "wins policy now"
  have bk: "?bk c = ?bk b \<Longrightarrow> ?cad c = ?cad b" for c by (simp add: bucketOf_def Let_def)
  have newest: "\<forall>c \<in> set (b # l). \<not> newer c b" using Cons.prems(1) by (auto simp: newer_not_sym)
  have older: "newer b c" if "c \<in> set l" for c
  proof -
    have "bm_ID b \<notin> bm_ID ` set l" using Cons.prems(2) by simp
    then have "bm_ID c \<noteq> bm_ID b" using that by (metis imageI)
    moreover have "\<not> newer c b" using newest that by simp
    ultimately show ?thesis by (auto simp: newer_def split: if_splits)
  qed
  have IH: "keys (ladderLoop policy now seen' k' l) = keys k' \<union> bm_ID ` {b \<in> set l. ?win seen' l b}" for seen' k'
    using Cons by simp
  have sets: "{x \<in> set (b # l). ?win seen (b # l) x} = (if ?win seen (b # l) b then insert b else (\<lambda>x. x)) {x \<in> set l. ?win seen' l x}"
    if "\<And>c. c \<in> set l \<Longrightarrow> ?win seen (b # l) c = ?win seen' l c" "b \<in> set l \<Longrightarrow> ?win seen (b # l) b" for seen'
    using that by auto
  have nb: "b \<notin> set l" using Cons.prems(2) by auto
  consider (free) "?cad b \<le> 0" | (fresh) "0 < ?cad b" "?bk b \<notin> set seen" | (old) "0 < ?cad b" "?bk b \<in> set seen"
    by fastforce
  then show ?case
  proof cases
    case free
    have "?win seen (b # l) c = ?win seen l c" if "c \<in> set l" for c
      using free bk [of c] by (cases "?cad c \<le> 0") (auto simp: wins_def)
    moreover have "?win seen (b # l) b" using free by (simp add: wins_def)
    ultimately show ?thesis using free IH sets [of seen] nb by simp
  next
    case fresh
    have "?win seen (b # l) c = ?win (?bk b # seen) l c" if "c \<in> set l" for c
      using older [OF that] by (auto simp: wins_def)
    moreover have "?win seen (b # l) b" using fresh newest by (simp add: wins_def)
    ultimately show ?thesis using fresh IH sets [of "?bk b # seen"] nb by simp
  next
    case old
    have "?win seen (b # l) c = ?win seen l c" if "c \<in> set l" for c
      using old by (auto simp: wins_def)
    moreover have "\<not> ?win seen (b # l) b" using old by (simp add: wins_def)
    ultimately show ?thesis using old IH sets [of seen] nb by simp
  qed
qed simp

definition of_source :: "BackupMeta list \<Rightarrow> string \<Rightarrow> BackupMeta list" where
  "of_source bs src = filter (\<lambda>b. completed b \<and> bm_Source b = src) bs"

lemma wins_cong: "set l = set l' \<Longrightarrow> wins policy now seen l = wins policy now seen l'"
  by (rule ext) (simp add: wins_def)

lemma distinct_of_source: "distinct (map bm_ID bs) \<Longrightarrow> distinct (map bm_ID (filter P bs))"
  by (induction bs) auto

lemma union_all: "(\<And>x. x \<notin> R \<Longrightarrow> F x = {}) \<Longrightarrow> (\<Union>x \<in> R. F x) = (\<Union>x. F x)"
  by blast

lemma keepLadder_keys:
  assumes rng: "map_range rng" and srt: "slice_sorter srt" and d: "distinct (map bm_ID bs)"
  shows "keys (keepLadder srt rng bs policy now k) = keys k \<union>
    bm_ID ` {b \<in> set bs. completed b \<and> wins policy now [] (of_source bs (bm_Source b)) b}"
proof -
  let ?W = "\<lambda>l. bm_ID ` {b \<in> set l. wins policy now [] l b}"
  let ?A = "\<lambda>src. case map_of (bySource bs) src of None \<Rightarrow> {} | Some l \<Rightarrow> ?W l"
  have lad: "keys (ladderLoop policy now [] k' (srt newer l)) = keys k' \<union> ?W l" if "distinct (map bm_ID l)" for k' l
  proof -
    note m = sorter_mset [OF srt newer_strict, of l] and st = sorter_set [OF srt newer_strict, of l]
    have "distinct (map bm_ID (srt newer l))" using that m by (metis mset_eq_imp_distinct_iff mset_map)
    then show ?thesis
      using ladderLoop_keys [OF sorter_sorted [OF srt newer_strict, of l]] st wins_cong [OF st] by simp
  qed
  have src: "map_of (bySource bs) src = (if of_source bs src = [] then None else Some (of_source bs src))" for src
    by (simp add: bySource_spec of_source_def Let_def)
  have dist: "distinct (map bm_ID (of_source bs src))" for src
    unfolding of_source_def by (rule distinct_of_source [OF d])
  have "keys (keepLadder srt rng bs policy now k) = keys k \<union> (\<Union>src \<in> set (rng 1 (map fst (bySource bs))). ?A src)"
    unfolding keepLadder_def Let_def
    by (rule fold_keeps_keys) (simp add: src lad dist)
  also have "(\<Union>src \<in> set (rng 1 (map fst (bySource bs))). ?A src) = (\<Union>src. ?W (of_source bs src))"
  proof -
    have "src \<in> set (rng 1 (map fst (bySource bs)))" if "of_source bs src \<noteq> []" for src
    proof -
      have "map_of (bySource bs) src = Some (of_source bs src)" using that src by simp
      then have "src \<in> set (map fst (bySource bs))" using map_of_eq_None_iff [of "bySource bs" src] by auto
      then show ?thesis using rng unfolding map_range_def by blast
    qed
    then have "?A src = {}" if "src \<notin> set (rng 1 (map fst (bySource bs)))" for src using that src by auto
    then have "(\<Union>src \<in> set (rng 1 (map fst (bySource bs))). ?A src) = (\<Union>src. ?A src)" by (rule union_all)
    moreover have "?A src = ?W (of_source bs src)" for src by (simp add: src)
    ultimately show ?thesis by simp
  qed
  also have "(\<Union>src. ?W (of_source bs src)) = bm_ID ` {b \<in> set bs. completed b \<and> wins policy now [] (of_source bs (bm_Source b)) b}"
  proof -
    have "b \<in> set (of_source bs src) \<longleftrightarrow> b \<in> set bs \<and> completed b \<and> bm_Source b = src" for b src
      by (auto simp: of_source_def)
    then have "(\<Union>src. {b \<in> set (of_source bs src). wins policy now [] (of_source bs src) b})
        = {b \<in> set bs. completed b \<and> wins policy now [] (of_source bs (bm_Source b)) b}" by auto
    then show ?thesis by (simp only: image_UN [symmetric])
  qed
  finally show ?thesis .
qed

section \<open>The fixpoint\<close>

text \<open>A parent chain that comes to an end, and the links between backups that are kept together.\<close>

inductive chain_ends :: "BackupMeta list \<Rightarrow> string \<Rightarrow> bool" for bs where
  chain_end: "chain_ends bs []"
| chain_step: "pid \<noteq> [] \<Longrightarrow> chain_ends bs (parentOf bs pid) \<Longrightarrow> chain_ends bs pid"

inductive linked :: "BackupMeta list \<Rightarrow> string \<Rightarrow> string \<Rightarrow> bool" for bs where
  link_parent: "parentOf bs i = p \<Longrightarrow> p \<noteq> [] \<Longrightarrow> linked bs i p"
| link_sibling: "snapshotOf bs i = sid \<Longrightarrow> sid \<noteq> [] \<Longrightarrow> b \<in> set bs \<Longrightarrow> bm_SnapshotID b = sid \<Longrightarrow> linked bs i (bm_ID b)"

text \<open>Keeping more, with the flag raised exactly if something was new.\<close>

definition grows :: "reasons \<times> bool \<Rightarrow> reasons \<times> bool \<Rightarrow> bool" where
  "grows st st' \<longleftrightarrow> keys (fst st) \<subseteq> keys (fst st') \<and> (snd st' \<longleftrightarrow> snd st \<or> keys (fst st') \<noteq> keys (fst st))"

lemma grows_refl [simp]: "grows st st"
  by (simp add: grows_def)

lemma grows_sets: "A \<subseteq> B \<and> (q \<longleftrightarrow> p \<or> B \<noteq> A) \<Longrightarrow> B \<subseteq> C \<and> (r \<longleftrightarrow> q \<or> C \<noteq> B) \<Longrightarrow> A \<subseteq> C \<and> (r \<longleftrightarrow> p \<or> C \<noteq> A)"
  by blast

lemma grows_trans: "grows a b \<Longrightarrow> grows b c \<Longrightarrow> grows a c"
  unfolding grows_def by (rule grows_sets)

lemma grows_keepNew: "grows st (keepNew r i st)"
  by (auto simp: grows_def keepNew_def)

text \<open>What is kept stays among the keys reachable from those of the start.\<close>

definition within :: "BackupMeta list \<Rightarrow> string set \<Rightarrow> string set \<Rightarrow> bool" where
  "within bs K K' \<longleftrightarrow> (\<forall>j \<in> K'. \<exists>i \<in> K. (linked bs)\<^sup>*\<^sup>* i j)"

lemma within_refl: "within bs K K"
  by (auto simp: within_def)

lemma within_trans: "within bs K K' \<Longrightarrow> within bs K' K'' \<Longrightarrow> within bs K K''"
  unfolding within_def by (meson rtranclp_trans)

lemma within_link: "i \<in> K \<Longrightarrow> linked bs i j \<Longrightarrow> within bs K (insert j K)"
  by (auto simp: within_def)

lemma chainWalk_ends:
  assumes "chain_ends bs pid" "pid = [] \<or> pid \<in> keys (fst st) \<or> (\<exists>i \<in> keys (fst st). linked bs i pid)"
  shows "\<exists>st'. chainWalk bs pid st = Some st' \<and> grows st st' \<and> within bs (keys (fst st)) (keys (fst st')) \<and>
    (pid = [] \<or> pid \<in> keys (fst st'))"
  using assms
proof (induction arbitrary: st)
  case chain_end
  show ?case by (simp add: chainWalk.simps within_refl)
next
  case (chain_step pid)
  let ?st = "keepNew ''chain-ancestor'' pid st"
  have "parentOf bs pid = [] \<or> linked bs pid (parentOf bs pid)" by (auto intro: linked.intros)
  then obtain st' where st': "chainWalk bs (parentOf bs pid) ?st = Some st'" "grows ?st st'"
    "within bs (keys (fst ?st)) (keys (fst st'))"
    using chain_step.IH [of ?st] by auto
  have "within bs (keys (fst st)) (keys (fst ?st))"
    using chain_step.prems chain_step.hyps(1) within_refl within_link [of _ "keys (fst st)" bs pid]
    by (metis insert_absorb keys_keepNew)
  then have "within bs (keys (fst st)) (keys (fst st'))" using st'(3) within_trans by blast
  moreover have "grows st st'" using st'(2) grows_keepNew grows_trans by blast
  moreover have "pid \<in> keys (fst st')" using st'(2) by (auto simp: grows_def)
  ultimately show ?case using st'(1) chain_step.hyps(1) by (subst chainWalk.simps) auto
qed

lemma foldl_keepNew:
  "grows st (foldl (\<lambda>st i. keepNew r i st) st ids)"
  "keys (fst (foldl (\<lambda>st i. keepNew r i st) st ids)) = keys (fst st) \<union> set ids"
proof -
  show "grows st (foldl (\<lambda>st i. keepNew r i st) st ids)"
  proof (induction ids arbitrary: st)
    case (Cons i ids)
    show ?case using grows_trans [OF grows_keepNew Cons] by simp
  qed simp
  show "keys (fst (foldl (\<lambda>st i. keepNew r i st) st ids)) = keys (fst st) \<union> set ids"
    by (induction ids arbitrary: st) simp_all
qed

lemma keepSiblings_spec:
  assumes "i \<in> keys (fst st)"
  shows "grows st (keepSiblings bs i st)" "within bs (keys (fst st)) (keys (fst (keepSiblings bs i st)))"
    "snapshotOf bs i \<noteq> [] \<Longrightarrow> b \<in> set bs \<Longrightarrow> bm_SnapshotID b = snapshotOf bs i \<Longrightarrow> bm_ID b \<in> keys (fst (keepSiblings bs i st))"
proof -
  show "grows st (keepSiblings bs i st)" by (simp add: keepSiblings_def Let_def foldl_keepNew)
  have "\<exists>i \<in> keys (fst st). (linked bs)\<^sup>*\<^sup>* i j" if "j \<in> set (snapMembers bs (snapshotOf bs i))" "snapshotOf bs i \<noteq> []" for j
    using that assms by (auto simp: snapMembers_def intro!: bexI [of _ i] r_into_rtranclp link_sibling)
  then show "within bs (keys (fst st)) (keys (fst (keepSiblings bs i st)))"
    by (auto simp: keepSiblings_def Let_def foldl_keepNew within_def)
  show "bm_ID b \<in> keys (fst (keepSiblings bs i st))"
    if "snapshotOf bs i \<noteq> []" "b \<in> set bs" "bm_SnapshotID b = snapshotOf bs i"
    using that by (simp add: keepSiblings_def Let_def foldl_keepNew snapMembers_def)
qed

lemma parents_end: "\<forall>b \<in> set bs. chain_ends bs (bm_ParentID b) \<Longrightarrow> chain_ends bs (parentOf bs i)"
proof -
  assume a: "\<forall>b \<in> set bs. chain_ends bs (bm_ParentID b)"
  have "byID bs i = Some b \<Longrightarrow> b \<in> set bs" for b
    using map_of_SomeD by (fastforce simp: byID_def)
  then show ?thesis using a by (auto simp: parentOf_def chain_end split: option.splits)
qed

lemma passLoop_spec:
  assumes "\<forall>b \<in> set bs. chain_ends bs (bm_ParentID b)"
  shows "\<exists>st'. passLoop bs ids st = Some st' \<and> grows st st' \<and> within bs (keys (fst st)) (keys (fst st')) \<and>
    (\<forall>i \<in> set ids. i \<in> keys (fst st) \<longrightarrow> (\<forall>j. linked bs i j \<longrightarrow> j \<in> keys (fst st')))"
proof (induction ids arbitrary: st)
  case Nil
  show ?case by (simp add: within_refl)
next
  case (Cons i ids)
  show ?case
  proof (cases "i \<in> keys (fst st)")
    case False
    then show ?thesis using Cons [of st] by auto
  next
    case True
    have "parentOf bs i = [] \<or> linked bs i (parentOf bs i)" by (auto intro: linked.intros)
    then obtain st1 where st1: "chainWalk bs (parentOf bs i) st = Some st1" "grows st st1"
      "within bs (keys (fst st)) (keys (fst st1))" "parentOf bs i = [] \<or> parentOf bs i \<in> keys (fst st1)"
      using chainWalk_ends [OF parents_end [OF assms], of i st] True by blast
    have i1: "i \<in> keys (fst st1)" using st1(2) True unfolding grows_def by (meson subsetD)
    let ?st2 = "keepSiblings bs i st1"
    note st2 = keepSiblings_spec [OF i1, of bs]
    obtain st' where st': "passLoop bs ids ?st2 = Some st'" "grows ?st2 st'" "within bs (keys (fst ?st2)) (keys (fst st'))"
      "\<forall>i \<in> set ids. i \<in> keys (fst ?st2) \<longrightarrow> (\<forall>j. linked bs i j \<longrightarrow> j \<in> keys (fst st'))"
      using Cons by blast
    have sub: "keys (fst st) \<subseteq> keys (fst ?st2)" "keys (fst st1) \<subseteq> keys (fst ?st2)" "keys (fst ?st2) \<subseteq> keys (fst st')"
      using st1(2) st2(1) st'(2) unfolding grows_def by (meson order_trans)+
    have "j \<in> keys (fst st')" if "linked bs i j" for j
      using that
    proof cases
      case link_parent
      then show ?thesis using st1(4) sub by (metis subsetD)
    next
      case (link_sibling sid b)
      then have "bm_ID b \<in> keys (fst ?st2)" using st2(3) by simp
      then show ?thesis using sub(3) link_sibling(1) by (metis subsetD)
    qed
    moreover have "grows st st'" using st1(2) st2(1) st'(2) grows_trans by blast
    moreover have "within bs (keys (fst st)) (keys (fst st'))" using st1(3) st2(2) st'(3) within_trans by blast
    moreover have "passLoop bs (i # ids) st = Some st'" using True st1(1) st'(1) by simp
    moreover have "\<forall>k \<in> set ids. k \<in> keys (fst st) \<longrightarrow> (\<forall>j. linked bs k j \<longrightarrow> j \<in> keys (fst st'))"
      using st'(4) sub(1) by (meson subsetD)
    ultimately show ?thesis by (intro exI [of _ st']) simp
  qed
qed

definition closed :: "BackupMeta list \<Rightarrow> string set \<Rightarrow> bool" where
  "closed bs K \<longleftrightarrow> (\<forall>i \<in> K. \<forall>j. linked bs i j \<longrightarrow> j \<in> K)"

text \<open>Everything that can ever be kept.\<close>

definition universe :: "BackupMeta list \<Rightarrow> string set" where
  "universe bs = bm_ID ` set bs \<union> bm_ParentID ` set bs"

lemma linked_universe: "linked bs i j \<Longrightarrow> j \<in> universe bs"
proof (induction rule: linked.induct)
  case (link_parent i p)
  then obtain b where "byID bs i = Some b" "p = bm_ParentID b" by (auto simp: parentOf_def split: option.splits)
  moreover from this(1) have "b \<in> set bs" using map_of_SomeD by (fastforce simp: byID_def)
  ultimately show ?case by (simp add: universe_def)
qed (simp add: universe_def)

lemma within_universe: "within bs K K' \<Longrightarrow> K \<subseteq> universe bs \<Longrightarrow> K' \<subseteq> universe bs"
proof
  fix j assume "within bs K K'" "K \<subseteq> universe bs" "j \<in> K'"
  then obtain i where "i \<in> universe bs" "(linked bs)\<^sup>*\<^sup>* i j" unfolding within_def by blast
  from this(2,1) show "j \<in> universe bs" by induction (auto intro: linked_universe)
qed

lemma fixLoop_spec:
  assumes ends: "\<forall>b \<in> set bs. chain_ends bs (bm_ParentID b)" and rng: "map_range rng" and k: "keys k \<subseteq> universe bs"
  shows "\<exists>k'. fixLoop rng bs n k = Some k' \<and> keys k \<subseteq> keys k' \<and> within bs (keys k) (keys k') \<and> closed bs (keys k')"
  using k
proof (induction "card (universe bs - keys k)" arbitrary: k n rule: less_induct)
  case less
  obtain st' where st': "passLoop bs (rng n (map fst k)) (k, False) = Some st'" "grows (k, False) st'"
    "within bs (keys k) (keys (fst st'))"
    "\<forall>i \<in> set (rng n (map fst k)). i \<in> keys k \<longrightarrow> (\<forall>j. linked bs i j \<longrightarrow> j \<in> keys (fst st'))"
    using passLoop_spec [OF ends, of "rng n (map fst k)" "(k, False)"] by auto
  have sub: "keys k \<subseteq> keys (fst st')" and flag: "snd st' \<longleftrightarrow> keys (fst st') \<noteq> keys k"
    using st'(2) by (simp_all add: grows_def)
  have all: "keys k \<subseteq> set (rng n (map fst k))" using rng unfolding map_range_def by (metis keys_set)
  show ?case
  proof (cases "snd st'")
    case False
    then have "closed bs (keys (fst st'))" using st'(4) flag all unfolding closed_def by (metis subsetD)
    then show ?thesis using False st'(1,3) sub by (subst fixLoop.simps) simp
  next
    case True
    have U: "keys (fst st') \<subseteq> universe bs" using within_universe [OF st'(3) less.prems] .
    have "finite (universe bs)" by (simp add: universe_def)
    then have "card (universe bs - keys (fst st')) < card (universe bs - keys k)"
      using True flag sub U by (intro psubset_card_mono) auto
    from less.hyps [OF this U, of "Suc n"] obtain k' where k': "fixLoop rng bs (Suc n) (fst st') = Some k'"
      "keys (fst st') \<subseteq> keys k'" "within bs (keys (fst st')) (keys k')" "closed bs (keys k')" by blast
    then show ?thesis using True st'(1) sub within_trans [OF st'(3) k'(3)] by (subst fixLoop.simps) auto
  qed
qed

section \<open>Properties\<close>

text \<open>Why a backup is kept on its own account.\<close>

definition rooted :: "LadderPolicy \<Rightarrow> int \<Rightarrow> BackupMeta list \<Rightarrow> BackupMeta \<Rightarrow> bool" where
  "rooted policy now bs b \<longleftrightarrow>
     \<not> completed b \<or> cadenceFor policy (timeSub now (bm_CompletedAt b)) \<le> 0 \<or>
     (\<forall>c \<in> set bs. completed c \<and> bm_Source c = bm_Source b \<and> bucketOf policy now c = bucketOf policy now b \<longrightarrow> \<not> newer c b)"

lemma start_keys:
  assumes "map_range rng" "slice_sorter srt" "distinct (map bm_ID bs)"
  shows "keys (keepLadder srt rng bs policy now (keepNewest rng bs (keepActive bs []))) = bm_ID ` {b \<in> set bs. rooted policy now bs b}"
proof -
  have w: "wins policy now [] (of_source bs (bm_Source b)) b = rooted policy now bs b" if "completed b" for b
    using that by (auto simp: wins_def rooted_def of_source_def)
  have "rooted policy now bs b" if "map_of (newestOf bs) src = Some b" for src b
    using newestOf_Some [OF that] by (auto simp: rooted_def)
  then have n: "{bm_ID b |b src. map_of (newestOf bs) src = Some b} \<subseteq> bm_ID ` {b \<in> set bs. rooted policy now bs b}"
    using newestOf_Some by blast
  have "bm_ID ` {b \<in> set bs. \<not> completed b} \<union> bm_ID ` {b \<in> set bs. completed b \<and> rooted policy now bs b}
      = bm_ID ` {b \<in> set bs. rooted policy now bs b}"
    by (auto simp: rooted_def)
  with n show ?thesis
    by (simp add: keepLadder_keys [OF assms] keepNewest_keys [OF assms(1)] keepActive_keys w cong: conj_cong) blast
qed

lemma byID_distinct: "distinct (map bm_ID bs) \<Longrightarrow> b \<in> set bs \<Longrightarrow> byID bs (bm_ID b) = Some b"
  by (simp add: byID_def rev_map map_of_eq_Some_iff comp_def distinct_map)

lemma bucket_newest:
  assumes "c \<in> set bs" "completed c" "bm_Source c = bm_Source b" "bucketOf policy now c = bucketOf policy now b" "newer c b"
  shows "\<exists>m \<in> set bs. completed m \<and> bm_Source m = bm_Source b \<and> bucketOf policy now m = bucketOf policy now b \<and>
    newer m b \<and> rooted policy now bs m"
proof -
  define l where "l = filter (\<lambda>x. completed x \<and> bm_Source x = bm_Source b \<and> bucketOf policy now x = bucketOf policy now b) bs"
  have c: "c \<in> set l" using assms by (simp add: l_def)
  obtain m ms where m: "insertion newer l = m # ms"
    using c sorter_set [OF slice_sorter_insertion newer_strict, of l] by (cases "insertion newer l") auto
  have "m \<in> set l" using m sorter_set [OF slice_sorter_insertion newer_strict, of l] by auto
  have max: "\<not> newer x m" if "x \<in> set l" for x
  proof -
    have "x \<in> set (m # ms)" using m that sorter_set [OF slice_sorter_insertion newer_strict, of l] by simp
    then show ?thesis using m sorter_sorted [OF slice_sorter_insertion newer_strict, of l] by (auto simp: newer_not_sym)
  qed
  have "newer m b" using max [OF c] assms(5) newer_strict unfolding strict_weak_def by blast
  moreover have "rooted policy now bs m" using max \<open>m \<in> set l\<close> by (auto simp: rooted_def l_def)
  ultimately show ?thesis using \<open>m \<in> set l\<close> by (auto simp: l_def)
qed

lemma chainWalk_returns:
  assumes "chainWalk bs pid st = Some st'"
  shows "chain_ends bs pid \<and> keys (fst st) \<subseteq> keys (fst st')"
proof (rule chainWalk.raw_induct [where P = "\<lambda>bs pid st st'. chain_ends bs pid \<and> keys (fst st) \<subseteq> keys (fst st')", OF _ assms])
  fix f bs pid st st'
  assume IH: "\<And>bs pid st st'. f bs pid st = Some st' \<Longrightarrow> chain_ends bs pid \<and> keys (fst st) \<subseteq> keys (fst st')"
    and eq: "(if pid = [] then Some st else f bs (parentOf bs pid) (keepNew ''chain-ancestor'' pid st)) = Some st'"
  show "chain_ends bs pid \<and> keys (fst st) \<subseteq> keys (fst st')"
  proof (cases "pid = []")
    case True
    then show ?thesis using eq by (simp add: chain_end)
  next
    case False
    then show ?thesis using IH [of bs "parentOf bs pid" "keepNew ''chain-ancestor'' pid st" st'] eq by (auto intro: chain_step)
  qed
qed

lemma passLoop_returns:
  "passLoop bs ids st = Some st' \<Longrightarrow> i \<in> set ids \<Longrightarrow> i \<in> keys (fst st) \<Longrightarrow> chain_ends bs (parentOf bs i)"
proof (induction ids arbitrary: st)
  case (Cons j ids)
  show ?case
  proof (cases "j \<in> keys (fst st)")
    case False
    then have "passLoop bs ids st = Some st'" "i \<in> set ids" using Cons.prems by auto
    then show ?thesis using Cons.IH Cons.prems(3) by blast
  next
    case True
    then obtain st1 where st1: "chainWalk bs (parentOf bs j) st = Some st1" "passLoop bs ids (keepSiblings bs j st1) = Some st'"
      using Cons.prems(1) by (auto simp: bind_eq_Some_conv)
    note ret = chainWalk_returns [OF st1(1)]
    then have "j \<in> keys (fst st1)" "i \<in> keys (fst st1)" using True Cons.prems(3) by auto
    then have "i \<in> keys (fst (keepSiblings bs j st1))" using keepSiblings_spec(1) [of j st1 bs] by (auto simp: grows_def)
    then show ?thesis using Cons.IH [OF st1(2)] Cons.prems(2) ret by auto
  qed
qed simp

text \<open>
  C5: The prime directive of retention.  If every parent chain ends, the selection returns,
  in whatever order maps are visited and ties are sorted; kept and forgotten partition the
  backups and the forgotten ones are sorted.  A forgotten backup is completed, is not the
  newest completed one of its source, has a newer one kept in its own cadence bucket, is
  no parent of a kept backup and shares no snapshot with one.  Nothing is kept without a
  reason: every kept identifier is linked, by parents and snapshots, to a backup that is
  active, in a tier without cadence or the newest of its bucket.
\<close>

theorem retention_prime_directive:
  assumes "slice_sorter srt" "map_range rng" "distinct (map bm_ID bs)" "\<forall>b \<in> set bs. chain_ends bs (bm_ParentID b)"
  shows "\<exists>res. Select srt rng bs policy now = Some res \<and>
    set (res_Forget res) = bm_ID ` set bs - set (res_Kept res) \<and> sorted (res_Forget res) \<and> distinct (res_Forget res) \<and>
    (\<forall>b \<in> set bs. bm_ID b \<in> set (res_Forget res) \<longrightarrow>
       completed b \<and> 0 < cadenceFor policy (timeSub now (bm_CompletedAt b)) \<and>
       (\<exists>c \<in> set bs. completed c \<and> bm_Source c = bm_Source b \<and> bucketOf policy now c = bucketOf policy now b \<and>
          newer c b \<and> bm_ID c \<in> set (res_Kept res)) \<and>
       (\<forall>c \<in> set bs. bm_ID c \<in> set (res_Kept res) \<longrightarrow>
          (bm_ParentID c = bm_ID b \<longrightarrow> bm_ID b = []) \<and> (bm_SnapshotID c = bm_SnapshotID b \<longrightarrow> bm_SnapshotID b = []))) \<and>
    (\<forall>i \<in> set (res_Kept res). \<exists>b \<in> set bs. rooted policy now bs b \<and> (linked bs)\<^sup>*\<^sup>* (bm_ID b) i)"
proof -
  define k where "k = keepLadder srt rng bs policy now (keepNewest rng bs (keepActive bs []))"
  have base: "keys k = bm_ID ` {b \<in> set bs. rooted policy now bs b}"
    unfolding k_def by (rule start_keys [OF assms(2,1,3)])
  then have "keys k \<subseteq> universe bs" by (auto simp: universe_def)
  from fixLoop_spec [OF assms(4,2) this, of 2] obtain k' where k': "fixLoop rng bs 2 k = Some k'"
    "keys k \<subseteq> keys k'" "within bs (keys k) (keys k')" "closed bs (keys k')" by blast
  define F where "F = sort (map bm_ID (filter (\<lambda>b. \<not> isKept k' (bm_ID b)) bs))"
  have sel: "Select srt rng bs policy now = Some \<lparr> res_Kept = map fst k', res_Forget = F, res_Reasons = k' \<rparr>"
    using k'(1) by (simp add: Select_def Let_def F_def k_def)
  have kept: "set (map fst k') = keys k'" by (rule keys_set)
  have F: "set F = bm_ID ` set bs - keys k'" "sorted F" "distinct F"
    using assms(3) by (auto simp: F_def distinct_of_source)
  have forgotten: "completed b \<and> 0 < cadenceFor policy (timeSub now (bm_CompletedAt b)) \<and>
      (\<exists>c \<in> set bs. completed c \<and> bm_Source c = bm_Source b \<and> bucketOf policy now c = bucketOf policy now b \<and>
          newer c b \<and> bm_ID c \<in> keys k')"
    if b: "b \<in> set bs" "bm_ID b \<notin> keys k'" for b
  proof -
    have nr: "\<not> rooted policy now bs b" using b k'(2) base by blast
    then obtain c where c: "c \<in> set bs" "completed c" "bm_Source c = bm_Source b" "bucketOf policy now c = bucketOf policy now b" "newer c b"
      and b': "completed b" "0 < cadenceFor policy (timeSub now (bm_CompletedAt b))"
      unfolding rooted_def by force
    obtain m where m: "m \<in> set bs" "completed m" "bm_Source m = bm_Source b" "bucketOf policy now m = bucketOf policy now b"
      "newer m b" "rooted policy now bs m" using bucket_newest [OF c] by blast
    then have "bm_ID m \<in> keys k'" using base k'(2) by blast
    with m b' show ?thesis by blast
  qed
  have links: "(bm_ParentID c = bm_ID b \<longrightarrow> bm_ID b = []) \<and> (bm_SnapshotID c = bm_SnapshotID b \<longrightarrow> bm_SnapshotID b = [])"
    if "b \<in> set bs" "bm_ID b \<notin> keys k'" "c \<in> set bs" "bm_ID c \<in> keys k'" for b c
    using that k'(4) unfolding closed_def
    by (metis byID_distinct [OF assms(3)] link_parent link_sibling option.case(2) parentOf_def snapshotOf_def)
  have "\<exists>b \<in> set bs. rooted policy now bs b \<and> (linked bs)\<^sup>*\<^sup>* (bm_ID b) i" if "i \<in> keys k'" for i
    using k'(3) that unfolding within_def base by blast
  with sel F kept forgotten links show ?thesis by (intro exI [of _ "\<lparr> res_Kept = map fst k', res_Forget = F, res_Reasons = k' \<rparr>"]) auto
qed

text \<open>A source with three daily backups and a weekly ladder, the middle one the parent of the last.\<close>

definition daily :: "string \<Rightarrow> int \<Rightarrow> string \<Rightarrow> BackupMeta" where
  "daily i day parent = \<lparr> bm_ID = i, bm_Source = ''C:'', bm_Status = ''completed'', bm_StartedAt = day * 24 * hour,
     bm_CompletedAt = day * 24 * hour + hour, bm_ParentID = parent, bm_SnapshotID = [] \<rparr>"

definition three_days :: "BackupMeta list" where
  "three_days = [daily ''a'' 1 [], daily ''b'' 2 [], daily ''c'' 3 ''b'']"

theorem retention_prime_directive_witness:
  "\<exists>res. Select insertion in_order three_days
       \<lparr> lp_WithinWeek = 7 * 24 * hour, lp_AfterWeek = 1, lp_After90Days = 1, lp_AfterYear = 1 \<rparr> (4 * 24 * hour) = Some res \<and>
     set (res_Forget res) = bm_ID ` set three_days - set (res_Kept res) \<and> ''a'' \<in> bm_ID ` set three_days"
proof -
  have d: "distinct (map bm_ID three_days)" by (simp add: three_days_def daily_def)
  have p: "parentOf three_days ''b'' = []" by (simp add: parentOf_def byID_def three_days_def daily_def)
  have "chain_ends three_days ''b''" by (rule chain_step) (simp_all add: p chain_end)
  then have "\<forall>b \<in> set three_days. chain_ends three_days (bm_ParentID b)"
    by (simp add: three_days_def daily_def chain_end)
  from retention_prime_directive [OF slice_sorter_insertion map_range_in_order d this,
      of "\<lparr> lp_WithinWeek = 7 * 24 * hour, lp_AfterWeek = 1, lp_After90Days = 1, lp_AfterYear = 1 \<rparr>" "4 * 24 * hour"]
  show ?thesis by (auto simp: three_days_def daily_def)
qed



end
