(* ===== verification/Dnm_Codec.thy ===== *)
theory Dnm_Codec
  imports Engine_Prelude "HOL-Library.Sublist"
begin

text \<open>
  The binary encodings of a backup manifest (core/manifest/dnm.go and the types of
  core/manifest/manifest.go): length-prefixed strings, escaped counts, timestamps, the
  metadata section and the records of the file catalog.  An encoder gives the bytes it
  appends to its buffer; a decoder is a function of the bytes a reader has left.  A Go
  string is the list of its bytes read as characters, a floating-point number is its
  64-bit pattern, and a time is None when it is the zero time and otherwise its
  nanoseconds since the epoch.
\<close>

section \<open>The records of a manifest\<close>

type_synonym gotime = "int option"

record VolumeExtent =
  ext_FileOffset :: int
  ext_VolumeOffset :: int
  ext_Length :: int

record FileEntry =
  fe_Path :: string
  fe_SourceIndex :: int
  fe_Size :: int
  fe_Mode :: u32
  fe_ModTime :: gotime
  fe_IsDir :: bool
  fe_IsSymlink :: bool
  fe_LinkTarget :: string
  fe_StreamOffset :: int
  fe_StreamLength :: int
  fe_ContentHash :: bytes
  fe_Unchanged :: bool
  fe_DataBackupID :: string
  fe_VolumeExtents :: "VolumeExtent list"
  fe_InlineData :: bytes
  fe_IsExcluded :: bool

record Entry =
  e_VolumeOffset :: int
  e_ChunkHash :: bytes
  e_ChunkLength :: int
  e_IsExcluded :: bool

text \<open>
  The transient field \<^verbatim>\<open>CatalogSidecarPath\<close> names a temporary file; it is the contents of
  that file here, None when the path is empty.
\<close>

record Backup =
  b_BackupID :: string
  b_Timestamp :: gotime
  b_SourceVolume :: string
  b_SectorSize :: int
  b_ClusterSize :: int
  b_TotalBytes :: int
  b_Entries :: "Entry list"
  b_ParentBackupID :: string
  b_BackupType :: string
  b_TotalChunks :: int
  b_UniqueChunks :: int
  b_DedupChunks :: int
  b_RawBytes :: int
  b_StoredBytes :: int
  b_DedupRatio :: u64
  b_CompRatio :: u64
  b_Duration :: string
  b_ContentDigest :: string
  b_ContentDigestCovers :: string
  b_ExcludePaths :: "string list"
  b_ExcludeWarnings :: "string list"
  b_ChangedChunks :: int
  b_UnchangedChunks :: int
  b_BackupMode :: string
  b_SourcePaths :: "string list"
  b_FileCatalog :: "FileEntry list"
  b_CatalogSidecar :: "bytes option"
  b_CatalogCount :: int
  b_WrappedDEK :: bytes


section \<open>Writing\<close>

definition count16Sentinel :: u16 where
  "count16Sentinel = 0xFFFF"

definition zeroTimeNano :: int where
  "zeroTimeNano = - 9223372036854775808"

definition str_bytes :: "string \<Rightarrow> bytes" where
  "str_bytes s = map (\<lambda>c. of_nat (of_char c)) s"

definition bytes_str :: "bytes \<Rightarrow> string" where
  "bytes_str bs = map (\<lambda>b. char_of (unat b)) bs"

definition writeStr8 :: "string \<Rightarrow> bytes" where
  "writeStr8 s = (let s = (if 255 < length s then take 255 s else s) in of_nat (length s) # str_bytes s)"

definition writeStr16 :: "string \<Rightarrow> bytes" where
  "writeStr16 s = (let s = (if 65535 < length s then take 65535 s else s) in put16 (of_nat (length s)) @ str_bytes s)"

definition writeUint16 :: "u16 \<Rightarrow> bytes" where
  "writeUint16 v = put16 v"

definition writeUint32 :: "u32 \<Rightarrow> bytes" where
  "writeUint32 v = put32 v"

definition writeInt32 :: "int \<Rightarrow> bytes" where
  "writeInt32 v = writeUint32 (of_int v)"

definition writeInt64 :: "int \<Rightarrow> bytes" where
  "writeInt64 v = put64 (of_int v)"

definition writeFloat64 :: "u64 \<Rightarrow> bytes" where
  "writeFloat64 v = writeInt64 (sint v)"

definition writeCount16 :: "nat \<Rightarrow> bytes" where
  "writeCount16 n =
     (if n < unat count16Sentinel then writeUint16 (of_nat n)
      else writeUint16 count16Sentinel @ writeUint32 (of_nat n))"

definition writeTimeNano :: "gotime \<Rightarrow> bytes" where
  "writeTimeNano t = (case t of None \<Rightarrow> writeInt64 zeroTimeNano | Some n \<Rightarrow> writeInt64 n)"


section \<open>Reading\<close>

text \<open>
  \<^verbatim>\<open>io.ReadFull\<close> on the bytes that are left: the end of the input is an error of its own
  only when no byte was read.
\<close>

datatype rd_err = IoEOF | IoUnexpectedEOF

type_synonym 'a rd = "bytes \<Rightarrow> rd_err + ('a \<times> bytes)"

definition readFull :: "nat \<Rightarrow> bytes rd" where
  "readFull n r =
     (if n = 0 then Inr ([], r)
      else if r = [] then Inl IoEOF
      else if length r < n then Inl IoUnexpectedEOF
      else Inr (take n r, drop n r))"

definition rd_bind :: "'a rd \<Rightarrow> ('a \<Rightarrow> 'b rd) \<Rightarrow> 'b rd" where
  "rd_bind m k r = (case m r of Inl e \<Rightarrow> Inl e | Inr (x, r') \<Rightarrow> k x r')"

definition rd_return :: "'a \<Rightarrow> 'a rd" where
  "rd_return x r = Inr (x, r)"

definition readStr8 :: "string rd" where
  "readStr8 = rd_bind (readFull 1) (\<lambda>lenBuf.
     if lenBuf ! 0 = 0 then rd_return []
     else rd_bind (readFull (unat (lenBuf ! 0))) (\<lambda>d. rd_return (bytes_str d)))"

definition readStr16 :: "string rd" where
  "readStr16 = rd_bind (readFull 2) (\<lambda>lenBuf. let n = get16 lenBuf in
     if n = 0 then rd_return []
     else rd_bind (readFull (unat n)) (\<lambda>d. rd_return (bytes_str d)))"

definition readUint16 :: "u16 rd" where
  "readUint16 = rd_bind (readFull 2) (\<lambda>buf. rd_return (get16 buf))"

definition readUint32 :: "u32 rd" where
  "readUint32 = rd_bind (readFull 4) (\<lambda>buf. rd_return (get32 buf))"

definition readInt32 :: "int rd" where
  "readInt32 = rd_bind readUint32 (\<lambda>v. rd_return (sint v))"

definition readInt64 :: "int rd" where
  "readInt64 = rd_bind (readFull 8) (\<lambda>buf. rd_return (sint (get64 buf)))"

definition readFloat64 :: "u64 rd" where
  "readFloat64 = rd_bind readInt64 (\<lambda>v. rd_return (of_int v))"

definition readCount16 :: "nat rd" where
  "readCount16 = rd_bind readUint16 (\<lambda>v.
     if v \<noteq> count16Sentinel then rd_return (unat v)
     else rd_bind readUint32 (\<lambda>v32. rd_return (unat v32)))"

definition readTimeNano :: "gotime rd" where
  "readTimeNano = rd_bind readInt64 (\<lambda>v. rd_return (if v = zeroTimeNano then None else Some v))"


section \<open>What a reader gets back from a writer\<close>

text \<open>
  A stream codec reads back the normal form of what was written and leaves the rest of
  the input.  The normal form is where the format loses information: strings beyond their
  length field are cut, integers wrap at their width.
\<close>

locale stream_codec =
  fixes wr :: "'a \<Rightarrow> bytes" and rd :: "'a rd" and ok :: "'a \<Rightarrow> bool" and norm :: "'a \<Rightarrow> 'a"
  assumes read_write: "ok x \<Longrightarrow> rd (wr x @ rest) = Inr (norm x, rest)"
begin

lemma bind_write: "ok x \<Longrightarrow> rd_bind rd k (wr x @ rest) = k (norm x) rest"
  by (simp add: rd_bind_def read_write)

end

named_theorems codec_field \<open>reading back one written field\<close>

lemma readFull_append [codec_field]: "length bs = n \<Longrightarrow> readFull n (bs @ rest) = Inr (bs, rest)"
  by (cases "bs = []") (auto simp: readFull_def)

lemma rd_bind_return [codec_field]: "rd_bind (rd_return x) k = k x"
  by (simp add: rd_bind_def rd_return_def fun_eq_iff)

lemma rd_bind_readFull [codec_field]: "length bs = n \<Longrightarrow> rd_bind (readFull n) k (bs @ rest) = k bs rest"
  by (simp add: rd_bind_def readFull_append)

lemma rd_bind_readByte [codec_field]: "rd_bind (readFull 1) k (b # rest) = k [b] rest"
  by (simp add: rd_bind_def readFull_def)

lemma str_bytes_Nil [simp]: "str_bytes [] = []"
  by (simp add: str_bytes_def)

lemma length_str_bytes [simp]: "length (str_bytes s) = length s"
  by (simp add: str_bytes_def)

lemma bytes_str_bytes [simp]: "bytes_str (str_bytes s) = s"
  by (simp add: bytes_str_def str_bytes_def comp_def take_bit_nat_eq_self unat_of_nat of_char_of map_idI)

lemma word_zero_iff: "w = 0 \<longleftrightarrow> unat w = 0"
  by (simp add: unat_eq_zero)

definition i32 :: "int \<Rightarrow> int" where
  "i32 x = (x + 2147483648) mod 4294967296 - 2147483648"

lemma sint_of_int_i64: "sint (of_int k :: u64) = i64 k"
  by (simp add: sint_sbintrunc' signed_take_bit_eq_take_bit_shift take_bit_eq_mod i64_def)

lemma sint_of_int_i32: "sint (of_int k :: u32) = i32 k"
  by (simp add: sint_sbintrunc' signed_take_bit_eq_take_bit_shift take_bit_eq_mod i32_def)

definition timeNorm :: "gotime \<Rightarrow> gotime" where
  "timeNorm t = (case t of None \<Rightarrow> None | Some n \<Rightarrow> if i64 n = zeroTimeNano then None else Some (i64 n))"

interpretation str8: stream_codec writeStr8 readStr8 "\<lambda>_. True" "take 255"
proof
  fix s :: string and rest
  define t where "t = take 255 s"
  have w: "writeStr8 s = of_nat (length t) # str_bytes t" by (simp add: writeStr8_def t_def Let_def)
  have u: "unat (of_nat (length t) :: byte) = length t" by (simp add: unat_of_nat t_def)
  have z: "(of_nat (length t) :: byte) = 0 \<longleftrightarrow> t = []" unfolding word_zero_iff u by simp
  have "readStr8 (writeStr8 s @ rest) = Inr (t, rest)"
    unfolding readStr8_def w append_Cons rd_bind_readByte
    by (simp add: z u rd_bind_readFull rd_return_def)
  then show "readStr8 (writeStr8 s @ rest) = Inr (take 255 s, rest)" by (simp add: t_def)
qed

interpretation str16: stream_codec writeStr16 readStr16 "\<lambda>_. True" "take 65535"
proof
  fix s :: string and rest
  define t where "t = take 65535 s"
  have w: "writeStr16 s = put16 (of_nat (length t)) @ str_bytes t" by (simp add: writeStr16_def t_def Let_def)
  have u: "unat (of_nat (length t) :: u16) = length t" by (simp add: unat_of_nat t_def)
  have z: "(of_nat (length t) :: u16) = 0 \<longleftrightarrow> t = []" unfolding word_zero_iff u by simp
  have "readStr16 (writeStr16 s @ rest) = Inr (t, rest)"
    by (simp add: readStr16_def w z u rd_bind_readFull rd_return_def)
  then show "readStr16 (writeStr16 s @ rest) = Inr (take 65535 s, rest)" by (simp add: t_def)
qed

interpretation u16: stream_codec writeUint16 readUint16 "\<lambda>_. True" "\<lambda>v. v"
  by unfold_locales (simp add: readUint16_def writeUint16_def rd_bind_readFull rd_return_def)

interpretation u32: stream_codec writeUint32 readUint32 "\<lambda>_. True" "\<lambda>v. v"
  by unfold_locales (simp add: readUint32_def writeUint32_def rd_bind_readFull rd_return_def)

interpretation int32: stream_codec writeInt32 readInt32 "\<lambda>_. True" i32
  by unfold_locales (simp add: readInt32_def writeInt32_def u32.bind_write rd_return_def sint_of_int_i32)

interpretation int64: stream_codec writeInt64 readInt64 "\<lambda>_. True" i64
  by unfold_locales (simp add: readInt64_def writeInt64_def rd_bind_readFull rd_return_def sint_of_int_i64)

interpretation float64: stream_codec writeFloat64 readFloat64 "\<lambda>_. True" "\<lambda>v. v"
  by unfold_locales (simp add: readFloat64_def writeFloat64_def int64.bind_write rd_return_def
      sint_of_int_i64 [symmetric])

interpretation count16: stream_codec writeCount16 readCount16 "\<lambda>n. n < 4294967296" "\<lambda>n. n"
proof
  fix n :: nat and rest :: bytes
  assume n: "n < 4294967296"
  show "readCount16 (writeCount16 n @ rest) = Inr (n, rest)"
  proof (cases "n < 65535")
    case True
    then have "unat (of_nat n :: u16) = n" by (simp add: unat_of_nat)
    moreover have "(of_nat n :: u16) \<noteq> count16Sentinel"
    proof
      assume "(of_nat n :: u16) = count16Sentinel"
      then have "unat (of_nat n :: u16) = unat count16Sentinel" by simp
      with True show False by (simp add: unat_of_nat count16Sentinel_def)
    qed
    ultimately show ?thesis
      using True by (simp add: readCount16_def writeCount16_def u16.bind_write rd_return_def) (simp add: count16Sentinel_def)
  next
    case False
    then have "\<not> n < unat count16Sentinel" by (simp add: count16Sentinel_def)
    moreover have "unat (of_nat n :: u32) = n" using n by (simp add: unat_of_nat)
    ultimately show ?thesis
      by (simp add: readCount16_def writeCount16_def u16.bind_write u32.bind_write rd_return_def)
  qed
qed

interpretation time: stream_codec writeTimeNano readTimeNano "\<lambda>_. True" timeNorm
  by unfold_locales (auto simp: readTimeNano_def writeTimeNano_def int64.bind_write rd_return_def timeNorm_def
      zeroTimeNano_def i64_def split: option.split)

lemmas read_fields [codec_field] =
  str8.read_write [OF TrueI] str16.read_write [OF TrueI] u16.read_write [OF TrueI] u32.read_write [OF TrueI]
  int32.read_write [OF TrueI] int64.read_write [OF TrueI] float64.read_write [OF TrueI] count16.read_write time.read_write [OF TrueI]


section \<open>The metadata section\<close>

definition encodeStrs :: "string list \<Rightarrow> bytes" where
  "encodeStrs ps = writeCount16 (length ps) @ concat (map writeStr16 ps)"

definition metaCore :: "Backup \<Rightarrow> bytes" where
  "metaCore b =
     writeStr8 (b_BackupID b) @ writeStr16 (b_SourceVolume b) @ writeStr8 (b_BackupType b) @
     writeStr8 (b_BackupMode b) @ writeStr8 (b_ParentBackupID b) @ writeTimeNano (b_Timestamp b) @
     writeUint32 (of_int (b_SectorSize b)) @ writeUint32 (of_int (b_ClusterSize b)) @ writeInt64 (b_TotalBytes b) @
     writeInt64 (b_TotalChunks b) @ writeInt64 (b_UniqueChunks b) @ writeInt64 (b_DedupChunks b) @
     writeInt64 (b_RawBytes b) @ writeInt64 (b_StoredBytes b) @ writeFloat64 (b_DedupRatio b) @
     writeFloat64 (b_CompRatio b) @ writeStr8 (b_Duration b) @ writeInt64 (b_ChangedChunks b) @
     writeInt64 (b_UnchangedChunks b) @
     encodeStrs (b_SourcePaths b) @ writeCount16 (length (b_WrappedDEK b)) @ b_WrappedDEK b"

definition metaDigest :: "Backup \<Rightarrow> bytes" where
  "metaDigest b = writeStr8 (b_ContentDigest b) @ writeStr8 (b_ContentDigestCovers b)"

definition metaExclusions :: "Backup \<Rightarrow> bytes" where
  "metaExclusions b = encodeStrs (b_ExcludePaths b) @ encodeStrs (b_ExcludeWarnings b)"

definition encodeMetadata :: "Backup \<Rightarrow> bytes" where
  "encodeMetadata b = metaCore b @ metaDigest b @ metaExclusions b"

text \<open>
  A decoding error names the field, the index where the field is a list, and the error of
  the reader it wraps.
\<close>

type_synonym dec_err = "string \<times> nat option \<times> rd_err"

definition fld :: "string \<Rightarrow> 'a rd \<Rightarrow> ('a \<Rightarrow> bytes \<Rightarrow> dec_err + 'b) \<Rightarrow> bytes \<Rightarrow> dec_err + 'b" where
  "fld l rd k r = (case rd r of Inl e \<Rightarrow> Inl (l, None, e) | Inr (x, r') \<Rightarrow> k x r')"

fun readStrs :: "string \<Rightarrow> nat \<Rightarrow> nat \<Rightarrow> bytes \<Rightarrow> dec_err + (string list \<times> bytes)" where
  "readStrs l i 0 r = Inr ([], r)"
| "readStrs l i (Suc n) r =
     (case readStr16 r of Inl e \<Rightarrow> Inl (l, Some i, e)
      | Inr (p, r') \<Rightarrow> (case readStrs l (Suc i) n r' of Inl e \<Rightarrow> Inl e | Inr (ps, r'') \<Rightarrow> Inr (p # ps, r'')))"

definition flds :: "string \<Rightarrow> nat \<Rightarrow> (string list \<Rightarrow> bytes \<Rightarrow> dec_err + 'b) \<Rightarrow> bytes \<Rightarrow> dec_err + 'b" where
  "flds l n k r = (case readStrs l 0 n r of Inl e \<Rightarrow> Inl e | Inr (ps, r') \<Rightarrow> k ps r')"

definition decodeCore :: "bytes \<Rightarrow> dec_err + (Backup \<times> bytes)" where
  "decodeCore =
     fld ''BackupID'' readStr8 (\<lambda>v0.
     fld ''SourceVolume'' readStr16 (\<lambda>v1.
     fld ''BackupType'' readStr8 (\<lambda>v2.
     fld ''BackupMode'' readStr8 (\<lambda>v3.
     fld ''ParentBackupID'' readStr8 (\<lambda>v4.
     fld ''Timestamp'' readTimeNano (\<lambda>v5.
     fld ''SectorSize'' readUint32 (\<lambda>v6.
     fld ''ClusterSize'' readUint32 (\<lambda>v7.
     fld ''TotalBytes'' readInt64 (\<lambda>v8.
     fld ''TotalChunks'' readInt64 (\<lambda>v9.
     fld ''UniqueChunks'' readInt64 (\<lambda>v10.
     fld ''DedupChunks'' readInt64 (\<lambda>v11.
     fld ''RawBytes'' readInt64 (\<lambda>v12.
     fld ''StoredBytes'' readInt64 (\<lambda>v13.
     fld ''DedupRatio'' readFloat64 (\<lambda>v14.
     fld ''CompRatio'' readFloat64 (\<lambda>v15.
     fld ''Duration'' readStr8 (\<lambda>v16.
     fld ''ChangedChunks'' readInt64 (\<lambda>v17.
     fld ''UnchangedChunks'' readInt64 (\<lambda>v18.
     fld ''SourcePathCount'' readCount16 (\<lambda>pathCount. flds ''SourcePaths'' pathCount (\<lambda>ps.
     fld ''WrappedDEKLen'' readCount16 (\<lambda>dekLen. fld ''WrappedDEK'' (readFull dekLen) (\<lambda>dek r. Inr (
       \<lparr> b_BackupID = v0, b_Timestamp = v5, b_SourceVolume = v1, b_SectorSize = (uint v6),
         b_ClusterSize = (uint v7), b_TotalBytes = v8, b_Entries = [], b_ParentBackupID = v4,
         b_BackupType = v2, b_TotalChunks = v9, b_UniqueChunks = v10, b_DedupChunks = v11, b_RawBytes = v12,
         b_StoredBytes = v13, b_DedupRatio = v14, b_CompRatio = v15, b_Duration = v16, b_ContentDigest = [],
         b_ContentDigestCovers = [], b_ExcludePaths = [], b_ExcludeWarnings = [], b_ChangedChunks = v17,
         b_UnchangedChunks = v18, b_BackupMode = v3, b_SourcePaths = ps, b_FileCatalog = [],
         b_CatalogSidecar = None, b_CatalogCount = 0, b_WrappedDEK = dek \<rparr>, r))))))))))))))))))))))))"

definition decodeTail :: "Backup \<Rightarrow> bytes \<Rightarrow> dec_err + Backup" where
  "decodeTail b r =
     (case readStr8 r of
        Inl e \<Rightarrow> if e = IoEOF then Inr b else Inl (''ContentDigest'', None, e)
      | Inr (digest, r1) \<Rightarrow>
     (case readStr8 r1 of
        Inl e \<Rightarrow> if e = IoEOF then Inr b else Inl (''ContentDigestCovers'', None, e)
      | Inr (covers, r2) \<Rightarrow> let b = b\<lparr> b_ContentDigest := digest, b_ContentDigestCovers := covers \<rparr> in
     (case readCount16 r2 of
        Inl e \<Rightarrow> if e = IoEOF then Inr b else Inl (''ExcludePaths count'', None, e)
      | Inr (n, r3) \<Rightarrow> flds ''ExcludePaths'' n (\<lambda>ps. fld ''ExcludeWarnings count'' readCount16 (\<lambda>n'.
          flds ''ExcludeWarnings'' n' (\<lambda>ws r4. Inr (b\<lparr> b_ExcludePaths := ps, b_ExcludeWarnings := ws \<rparr>)))) r3)))"

definition decodeMetadata :: "bytes \<Rightarrow> dec_err + Backup" where
  "decodeMetadata data = (case decodeCore data of Inl e \<Rightarrow> Inl e | Inr (b, r) \<Rightarrow> decodeTail b r)"

text \<open>
  The normal form of the metadata: what a manifest keeps of the fields of a backup.  The
  limits of the format are the cut of strings at 255 or 65535 bytes and the wrap-around
  of sizes at 32 bits.
\<close>

definition storedCore :: "Backup \<Rightarrow> Backup" where
  "storedCore b = \<lparr> b_BackupID = take 255 (b_BackupID b), b_Timestamp = timeNorm (b_Timestamp b),
     b_SourceVolume = take 65535 (b_SourceVolume b), b_SectorSize = b_SectorSize b mod 4294967296,
     b_ClusterSize = b_ClusterSize b mod 4294967296, b_TotalBytes = i64 (b_TotalBytes b), b_Entries = [],
     b_ParentBackupID = take 255 (b_ParentBackupID b), b_BackupType = take 255 (b_BackupType b),
     b_TotalChunks = i64 (b_TotalChunks b), b_UniqueChunks = i64 (b_UniqueChunks b),
     b_DedupChunks = i64 (b_DedupChunks b), b_RawBytes = i64 (b_RawBytes b),
     b_StoredBytes = i64 (b_StoredBytes b), b_DedupRatio = b_DedupRatio b, b_CompRatio = b_CompRatio b,
     b_Duration = take 255 (b_Duration b), b_ContentDigest = [], b_ContentDigestCovers = [],
     b_ExcludePaths = [], b_ExcludeWarnings = [], b_ChangedChunks = i64 (b_ChangedChunks b),
     b_UnchangedChunks = i64 (b_UnchangedChunks b), b_BackupMode = take 255 (b_BackupMode b),
     b_SourcePaths = map (take 65535) (b_SourcePaths b), b_FileCatalog = [], b_CatalogSidecar = None,
     b_CatalogCount = 0, b_WrappedDEK = b_WrappedDEK b \<rparr>"

definition storedMeta :: "Backup \<Rightarrow> Backup" where
  "storedMeta b = (storedCore b)\<lparr> b_ContentDigest := take 255 (b_ContentDigest b), b_ContentDigestCovers := take 255 (b_ContentDigestCovers b),
     b_ExcludePaths := map (take 65535) (b_ExcludePaths b), b_ExcludeWarnings := map (take 65535) (b_ExcludeWarnings b) \<rparr>"

definition countable :: "Backup \<Rightarrow> bool" where
  "countable b \<longleftrightarrow> length (b_SourcePaths b) < 4294967296 \<and> length (b_WrappedDEK b) < 4294967296 \<and>
     length (b_ExcludePaths b) < 4294967296 \<and> length (b_ExcludeWarnings b) < 4294967296"

context stream_codec
begin

lemma fld_write: "ok x \<Longrightarrow> fld l rd k (wr x @ rest) = k (norm x) rest"
  by (simp add: fld_def read_write)

end

lemmas fld_fields =
  str8.fld_write [OF TrueI] str16.fld_write [OF TrueI] u32.fld_write [OF TrueI] int32.fld_write [OF TrueI]
  int64.fld_write [OF TrueI] float64.fld_write [OF TrueI] time.fld_write [OF TrueI]

lemma fld_bytes: "length bs = n \<Longrightarrow> fld l (readFull n) k (bs @ rest) = k bs rest"
  by (simp add: fld_def readFull_append)

lemma readStrs_written: "readStrs l i (length ps) (concat (map writeStr16 ps) @ rest) = Inr (map (take 65535) ps, rest)"
  by (induction ps arbitrary: i) (simp_all add: str16.read_write)

lemma flds_written: "flds l (length ps) k (concat (map writeStr16 ps) @ rest) = k (map (take 65535) ps) rest"
  by (simp add: flds_def readStrs_written)

lemma uint_of_int_u32: "uint (of_int v :: u32) = v mod 4294967296"
  by (simp add: unsigned_of_int take_bit_eq_mod)

lemma decodeCore_written:
  assumes "length (b_SourcePaths b) < 4294967296" "length (b_WrappedDEK b) < 4294967296"
  shows "decodeCore (metaCore b @ rest) = Inr (storedCore b, rest)"
  unfolding decodeCore_def metaCore_def encodeStrs_def append_assoc fld_fields count16.fld_write [OF assms(1)] count16.fld_write [OF assms(2)]
    flds_written fld_bytes [OF refl] storedCore_def uint_of_int_u32 ..

lemma decodeTail_written:
  assumes "length (b_ExcludePaths c) < 4294967296" "length (b_ExcludeWarnings c) < 4294967296"
  shows "decodeTail b (metaDigest c @ metaExclusions c @ rest) =
    Inr (b\<lparr> b_ContentDigest := take 255 (b_ContentDigest c), b_ContentDigestCovers := take 255 (b_ContentDigestCovers c),
      b_ExcludePaths := map (take 65535) (b_ExcludePaths c), b_ExcludeWarnings := map (take 65535) (b_ExcludeWarnings c) \<rparr>)"
  using assms
  by (simp add: decodeTail_def metaDigest_def metaExclusions_def encodeStrs_def str8.read_write count16.read_write
      flds_written count16.fld_write Let_def)


section \<open>The records of the file catalog\<close>

definition flagIsDir :: byte where
  "flagIsDir = 1"

definition flagIsSymlink :: byte where
  "flagIsSymlink = 2"

definition flagUnchanged :: byte where
  "flagUnchanged = 4"

definition flagExcluded :: byte where
  "flagExcluded = 8"

definition feFlags :: "FileEntry \<Rightarrow> byte" where
  "feFlags fe =
     or (or (or (if fe_IsDir fe then flagIsDir else 0) (if fe_IsSymlink fe then flagIsSymlink else 0))
       (if fe_Unchanged fe then flagUnchanged else 0)) (if fe_IsExcluded fe then flagExcluded else 0)"

definition writeExtent :: "VolumeExtent \<Rightarrow> bytes" where
  "writeExtent ext = writeInt64 (ext_FileOffset ext) @ writeInt64 (ext_VolumeOffset ext) @ writeInt64 (ext_Length ext)"

definition feCore :: "FileEntry \<Rightarrow> bytes" where
  "feCore fe =
     writeStr16 (fe_Path fe) @ writeInt32 (fe_SourceIndex fe) @ writeInt64 (fe_Size fe) @
     writeUint32 (fe_Mode fe) @ writeTimeNano (fe_ModTime fe) @ [feFlags fe] @
     writeStr16 (fe_LinkTarget fe) @ writeInt64 (fe_StreamOffset fe) @ writeInt64 (fe_StreamLength fe) @
     fe_ContentHash fe @ writeStr8 (fe_DataBackupID fe) @
     writeCount16 (length (fe_VolumeExtents fe)) @ concat (map writeExtent (fe_VolumeExtents fe))"

definition encodeFileEntry :: "FileEntry \<Rightarrow> bytes" where
  "encodeFileEntry fe = feCore fe @ writeCount16 (length (fe_InlineData fe)) @ fe_InlineData fe"

fun readExtents :: "nat \<Rightarrow> nat \<Rightarrow> bytes \<Rightarrow> dec_err + (VolumeExtent list \<times> bytes)" where
  "readExtents i 0 r = Inr ([], r)"
| "readExtents i (Suc n) r =
     (case readInt64 r of Inl e \<Rightarrow> Inl (''FileOffset'', Some i, e)
      | Inr (fo, r1) \<Rightarrow>
     (case readInt64 r1 of Inl e \<Rightarrow> Inl (''VolumeOffset'', Some i, e)
      | Inr (vo, r2) \<Rightarrow>
     (case readInt64 r2 of Inl e \<Rightarrow> Inl (''Length'', Some i, e)
      | Inr (ln, r3) \<Rightarrow>
     (case readExtents (Suc i) n r3 of Inl e \<Rightarrow> Inl e
      | Inr (xs, r4) \<Rightarrow> Inr (\<lparr> ext_FileOffset = fo, ext_VolumeOffset = vo, ext_Length = ln \<rparr> # xs, r4)))))"

definition decodeInline :: "FileEntry \<Rightarrow> bytes \<Rightarrow> dec_err + FileEntry" where
  "decodeInline fe r =
     (if 2 \<le> length r
      then fld ''InlineDataLen'' readCount16 (\<lambda>inlineLen. fld ''InlineData'' (readFull inlineLen) (\<lambda>inl _.
             Inr (fe\<lparr> fe_InlineData := inl \<rparr>))) r
      else Inr fe)"

definition decodeFileEntry :: "bytes \<Rightarrow> dec_err + FileEntry" where
  "decodeFileEntry =
     fld ''Path'' readStr16 (\<lambda>path.
     fld ''SourceIndex'' readInt32 (\<lambda>si.
     fld ''Size'' readInt64 (\<lambda>sz.
     fld ''Mode'' readUint32 (\<lambda>mode.
     fld ''ModTime'' readTimeNano (\<lambda>mt.
     fld ''Flags'' (readFull 1) (\<lambda>flags.
     fld ''LinkTarget'' readStr16 (\<lambda>lt.
     fld ''StreamOffset'' readInt64 (\<lambda>so.
     fld ''StreamLength'' readInt64 (\<lambda>sl.
     fld ''ContentHash'' (readFull 32) (\<lambda>ch.
     fld ''DataBackupID'' readStr8 (\<lambda>db.
     fld ''ExtentCount'' readCount16 (\<lambda>extCount r.
       (case readExtents 0 extCount r of
          Inl e \<Rightarrow> Inl e
        | Inr (exts, r') \<Rightarrow> decodeInline
            \<lparr> fe_Path = path, fe_SourceIndex = si, fe_Size = sz, fe_Mode = mode, fe_ModTime = mt,
              fe_IsDir = and (flags ! 0) flagIsDir \<noteq> 0, fe_IsSymlink = and (flags ! 0) flagIsSymlink \<noteq> 0,
              fe_LinkTarget = lt, fe_StreamOffset = so, fe_StreamLength = sl, fe_ContentHash = ch,
              fe_Unchanged = and (flags ! 0) flagUnchanged \<noteq> 0, fe_DataBackupID = db, fe_VolumeExtents = exts,
              fe_InlineData = [], fe_IsExcluded = and (flags ! 0) flagExcluded \<noteq> 0 \<rparr> r')))))))))))))"

definition extNorm :: "VolumeExtent \<Rightarrow> VolumeExtent" where
  "extNorm x = \<lparr> ext_FileOffset = i64 (ext_FileOffset x), ext_VolumeOffset = i64 (ext_VolumeOffset x), ext_Length = i64 (ext_Length x) \<rparr>"

definition storedFile :: "FileEntry \<Rightarrow> FileEntry" where
  "storedFile fe = fe\<lparr> fe_Path := take 65535 (fe_Path fe), fe_SourceIndex := i32 (fe_SourceIndex fe), fe_Size := i64 (fe_Size fe),
     fe_ModTime := timeNorm (fe_ModTime fe), fe_LinkTarget := take 65535 (fe_LinkTarget fe),
     fe_StreamOffset := i64 (fe_StreamOffset fe), fe_StreamLength := i64 (fe_StreamLength fe),
     fe_DataBackupID := take 255 (fe_DataBackupID fe), fe_VolumeExtents := map extNorm (fe_VolumeExtents fe) \<rparr>"

text \<open>
  A content hash is an array of 32 bytes, and a record of the catalog is below 4 GiB, the
  range of its length prefix.
\<close>

definition fileOK :: "FileEntry \<Rightarrow> bool" where
  "fileOK fe \<longleftrightarrow> length (fe_ContentHash fe) = 32 \<and> length (encodeFileEntry fe) < 4294967296"

lemma feFlags_bits:
  "and (feFlags fe) flagIsDir \<noteq> 0 \<longleftrightarrow> fe_IsDir fe"
  "and (feFlags fe) flagIsSymlink \<noteq> 0 \<longleftrightarrow> fe_IsSymlink fe"
  "and (feFlags fe) flagUnchanged \<noteq> 0 \<longleftrightarrow> fe_Unchanged fe"
  "and (feFlags fe) flagExcluded \<noteq> 0 \<longleftrightarrow> fe_IsExcluded fe"
  by (simp_all add: feFlags_def flagIsDir_def flagIsSymlink_def flagUnchanged_def flagExcluded_def)

lemma readExtents_written:
  "readExtents i (length xs) (concat (map writeExtent xs) @ rest) = Inr (map extNorm xs, rest)"
  by (induction xs arbitrary: i) (simp_all add: writeExtent_def int64.read_write extNorm_def)

lemma length_writeExtent [simp]: "length (writeExtent x) = 24"
  by (simp add: writeExtent_def writeInt64_def)

lemma fileOK_counts:
  assumes "fileOK fe"
  shows "length (fe_VolumeExtents fe) < 4294967296" "length (fe_InlineData fe) < 4294967296"
proof -
  have "length (concat (map writeExtent xs)) = 24 * length xs" for xs by (induction xs) simp_all
  then have "24 * length (fe_VolumeExtents fe) + length (fe_InlineData fe) \<le> length (encodeFileEntry fe)"
    by (simp add: encodeFileEntry_def feCore_def)
  with assms show "length (fe_VolumeExtents fe) < 4294967296" "length (fe_InlineData fe) < 4294967296"
    by (simp_all add: fileOK_def)
qed

lemma fld_byte: "fld l (readFull 1) k (b # rest) = k [b] rest"
  by (simp add: fld_def readFull_def)

lemma decodeFileEntry_core:
  assumes "length (fe_ContentHash fe) = 32" "length (fe_VolumeExtents fe) < 4294967296"
  shows "decodeFileEntry (feCore fe @ rest) = decodeInline ((storedFile fe)\<lparr> fe_InlineData := [] \<rparr>) rest"
  unfolding decodeFileEntry_def feCore_def append_assoc append_Cons append_Nil fld_fields fld_byte fld_bytes [OF assms(1)]
    count16.fld_write [OF assms(2)] readExtents_written
  by (cases fe) (simp add: storedFile_def feFlags_bits)

lemma writeCount16_length: "2 \<le> length (writeCount16 n)"
  by (simp add: writeCount16_def writeUint16_def writeUint32_def)

lemma decodeInline_written:
  assumes "length inl < 4294967296"
  shows "decodeInline fe (writeCount16 (length inl) @ inl @ rest) = Inr (fe\<lparr> fe_InlineData := inl \<rparr>)"
  using writeCount16_length [of "length inl"]
  by (simp add: decodeInline_def count16.fld_write [OF assms] fld_bytes)

lemma decodeFileEntry_written:
  assumes "fileOK fe"
  shows "decodeFileEntry (encodeFileEntry fe @ rest) = Inr (storedFile fe)"
  using assms decodeInline_written [OF fileOK_counts(2) [OF assms], of _ rest]
  unfolding encodeFileEntry_def append_assoc
  by (simp add: decodeFileEntry_core fileOK_def fileOK_counts) (cases fe, simp add: storedFile_def)


section \<open>Truncated input\<close>

definition cut_fails :: "(bytes \<Rightarrow> 'e + 'a) \<Rightarrow> bytes \<Rightarrow> bool" where
  "cut_fails f w \<longleftrightarrow> (\<forall>p. strict_prefix p w \<longrightarrow> (\<exists>e. f p = Inl e))"

lemma strict_prefix_append_cases:
  assumes "strict_prefix p (u @ v)"
  obtains "strict_prefix p u" | q where "p = u @ q" "strict_prefix q v"
proof -
  from assms have "prefix p u \<or> (\<exists>q. p = u @ q \<and> prefix q v)" "p \<noteq> u @ v" by (auto simp: strict_prefix_def prefix_append)
  then show ?thesis using that by (cases "p = u") (auto simp: strict_prefix_def)
qed

lemma cut_fails_Nil [simp, intro]: "cut_fails f []"
  by (simp add: cut_fails_def)

lemma cut_fails_readFull: "length w = n \<Longrightarrow> cut_fails (readFull n) w"
  unfolding cut_fails_def by (auto simp: readFull_def dest: prefix_length_less)

lemma cut_fails_bind:
  assumes "\<And>r. m (w1 @ r) = Inr (x, r)" "cut_fails m w1" "cut_fails (k x) w2"
  shows "cut_fails (rd_bind m k) (w1 @ w2)"
  unfolding cut_fails_def
proof (intro allI impI)
  fix p
  assume "strict_prefix p (w1 @ w2)"
  then show "\<exists>e. rd_bind m k p = Inl e"
  proof (cases rule: strict_prefix_append_cases)
    case 1
    then show ?thesis using assms(2) by (auto simp: cut_fails_def rd_bind_def)
  next
    case (2 q)
    then show ?thesis using assms(1) [of q] assms(3) by (simp add: cut_fails_def rd_bind_def)
  qed
qed

lemma cut_fails_bind_return:
  assumes "cut_fails m w"
  shows "cut_fails (rd_bind m (\<lambda>x. rd_return (f x))) w"
  using assms by (fastforce simp: cut_fails_def rd_bind_def)

lemma cut_fails_fld:
  assumes "\<And>r. fld l rd k (w1 @ r) = k x r" "cut_fails rd w1" "cut_fails (k x) w2"
  shows "cut_fails (fld l rd k) (w1 @ w2)"
  unfolding cut_fails_def
proof (intro allI impI)
  fix p
  assume "strict_prefix p (w1 @ w2)"
  then show "\<exists>e. fld l rd k p = Inl e"
  proof (cases rule: strict_prefix_append_cases)
    case 1
    then show ?thesis using assms(2) by (auto simp: cut_fails_def fld_def)
  next
    case (2 q)
    then show ?thesis using assms(1) [of q] assms(3) by (simp add: cut_fails_def)
  qed
qed

locale strict_codec = stream_codec +
  assumes read_cut: "ok x \<Longrightarrow> cut_fails rd (wr x)"
begin

lemma fld_cut: "ok x \<Longrightarrow> cut_fails (k (norm x)) w \<Longrightarrow> cut_fails (fld l rd k) (wr x @ w)"
  by (rule cut_fails_fld) (simp_all add: fld_write read_cut)

end

interpretation u16: strict_codec writeUint16 readUint16 "\<lambda>_. True" "\<lambda>v. v"
  by unfold_locales (simp add: readUint16_def writeUint16_def cut_fails_bind_return cut_fails_readFull)

interpretation u32: strict_codec writeUint32 readUint32 "\<lambda>_. True" "\<lambda>v. v"
  by unfold_locales (simp add: readUint32_def writeUint32_def cut_fails_bind_return cut_fails_readFull)

interpretation int32: strict_codec writeInt32 readInt32 "\<lambda>_. True" i32
  by unfold_locales (simp add: readInt32_def writeInt32_def cut_fails_bind_return u32.read_cut)

interpretation int64: strict_codec writeInt64 readInt64 "\<lambda>_. True" i64
  by unfold_locales (simp add: readInt64_def writeInt64_def cut_fails_bind_return cut_fails_readFull)

interpretation float64: strict_codec writeFloat64 readFloat64 "\<lambda>_. True" "\<lambda>v. v"
  by unfold_locales (simp add: readFloat64_def writeFloat64_def cut_fails_bind_return int64.read_cut)

interpretation time: strict_codec writeTimeNano readTimeNano "\<lambda>_. True" timeNorm
  by unfold_locales (simp add: readTimeNano_def writeTimeNano_def cut_fails_bind_return int64.read_cut split: option.split)

lemma cut_fails_str:
  assumes "length w1 = n" "P w1 = (t = [])" "N w1 = length t"
  shows "cut_fails (rd_bind (readFull n) (\<lambda>buf. if P buf then rd_return []
     else rd_bind (readFull (N buf)) (\<lambda>d. rd_return (bytes_str d)))) (w1 @ str_bytes t)"
proof (rule cut_fails_bind)
  show "readFull n (w1 @ r) = Inr (w1, r)" for r using assms(1) by (rule readFull_append)
  show "cut_fails (readFull n) w1" using assms(1) by (rule cut_fails_readFull)
  show "cut_fails (if P w1 then rd_return [] else rd_bind (readFull (N w1)) (\<lambda>d. rd_return (bytes_str d))) (str_bytes t)"
    using assms(2,3) by (cases "t = []") (simp_all add: cut_fails_bind_return cut_fails_readFull)
qed

interpretation str8: strict_codec writeStr8 readStr8 "\<lambda>_. True" "take 255"
proof
  fix s :: string
  define t where "t = take 255 s"
  have w: "writeStr8 s = [of_nat (length t)] @ str_bytes t" by (simp add: writeStr8_def t_def Let_def)
  have u: "unat (of_nat (length t) :: byte) = length t" by (simp add: unat_of_nat t_def)
  show "cut_fails readStr8 (writeStr8 s)"
    unfolding readStr8_def w by (rule cut_fails_str) (simp_all add: u word_zero_iff)
qed

interpretation str16: strict_codec writeStr16 readStr16 "\<lambda>_. True" "take 65535"
proof
  fix s :: string
  define t where "t = take 65535 s"
  have w: "writeStr16 s = put16 (of_nat (length t)) @ str_bytes t" by (simp add: writeStr16_def t_def Let_def)
  have u: "unat (of_nat (length t) :: u16) = length t" by (simp add: unat_of_nat t_def)
  show "cut_fails readStr16 (writeStr16 s)"
    unfolding readStr16_def w Let_def by (rule cut_fails_str) (simp_all add: u word_zero_iff)
qed

interpretation count16: strict_codec writeCount16 readCount16 "\<lambda>n. n < 4294967296" "\<lambda>n. n"
proof
  fix n :: nat
  show "cut_fails readCount16 (writeCount16 n)"
  proof (cases "n < unat count16Sentinel")
    case True
    then show ?thesis unfolding readCount16_def writeCount16_def
      using u16.read_cut [of "of_nat n"] by (fastforce simp: cut_fails_def rd_bind_def)
  next
    case False
    have "cut_fails (rd_bind readUint16 (\<lambda>v. if v \<noteq> count16Sentinel then rd_return (unat v)
        else rd_bind readUint32 (\<lambda>v32. rd_return (unat v32)))) (writeUint16 count16Sentinel @ writeUint32 (of_nat n))"
      by (rule cut_fails_bind [where x = count16Sentinel])
        (simp_all add: u16.read_write u16.read_cut u32.read_cut cut_fails_bind_return)
    with False show ?thesis by (simp add: readCount16_def writeCount16_def)
  qed
qed

lemma cut_fails_strs: "cut_fails (readStrs l i (length ps)) (concat (map writeStr16 ps))"
proof (induction ps arbitrary: i)
  case (Cons p ps)
  show ?case unfolding cut_fails_def
  proof (intro allI impI)
    fix q
    assume "strict_prefix q (concat (map writeStr16 (p # ps)))"
    then have "strict_prefix q (writeStr16 p @ concat (map writeStr16 ps))" by simp
    then show "\<exists>e. readStrs l i (length (p # ps)) q = Inl e"
    proof (cases rule: strict_prefix_append_cases)
      case 1
      then show ?thesis using str16.read_cut [of p] by (auto simp: cut_fails_def)
    next
      case (2 q')
      then show ?thesis using Cons [of "Suc i"] by (fastforce simp: cut_fails_def str16.read_write)
    qed
  qed
qed simp

lemma cut_fails_flds:
  assumes "cut_fails (k (map (take 65535) ps)) w"
  shows "cut_fails (flds l (length ps) k) (concat (map writeStr16 ps) @ w)"
  unfolding cut_fails_def
proof (intro allI impI)
  fix q
  assume "strict_prefix q (concat (map writeStr16 ps) @ w)"
  then show "\<exists>e. flds l (length ps) k q = Inl e"
  proof (cases rule: strict_prefix_append_cases)
    case 1
    then show ?thesis using cut_fails_strs [of l 0 ps] by (auto simp: cut_fails_def flds_def)
  next
    case (2 q')
    then show ?thesis using assms by (simp add: cut_fails_def flds_written)
  qed
qed

lemma cut_fails_bytes: "cut_fails (fld l (readFull (length bs)) k) bs"
  using cut_fails_fld [of l "readFull (length bs)" k bs bs "[]"] by (simp add: fld_bytes cut_fails_readFull)

lemmas cut_fields =
  str8.fld_cut [OF TrueI] str16.fld_cut [OF TrueI] u32.fld_cut [OF TrueI] int32.fld_cut [OF TrueI]
  int64.fld_cut [OF TrueI] float64.fld_cut [OF TrueI] time.fld_cut [OF TrueI]

lemma decodeCore_cut:
  assumes "length (b_SourcePaths b) < 4294967296" "length (b_WrappedDEK b) < 4294967296"
  shows "cut_fails decodeCore (metaCore b)"
  unfolding decodeCore_def metaCore_def encodeStrs_def append_assoc
  by (intro cut_fields count16.fld_cut cut_fails_flds cut_fails_bytes assms)

lemma cut_fails_extents: "cut_fails (readExtents i (length xs)) (concat (map writeExtent xs))"
proof (induction xs arbitrary: i)
  case (Cons x xs)
  let ?w = "\<lambda>f. writeInt64 (f x)"
  show ?case unfolding cut_fails_def
  proof (intro allI impI)
    fix q
    assume "strict_prefix q (concat (map writeExtent (x # xs)))"
    then have "strict_prefix q (?w ext_FileOffset @ ?w ext_VolumeOffset @ ?w ext_Length @ concat (map writeExtent xs))"
      by (simp add: writeExtent_def)
    then show "\<exists>e. readExtents i (length (x # xs)) q = Inl e"
      using Cons [of "Suc i"] int64.read_cut [of "ext_FileOffset x"] int64.read_cut [of "ext_VolumeOffset x"]
        int64.read_cut [of "ext_Length x"]
      by (elim strict_prefix_append_cases) (auto simp: cut_fails_def int64.read_write)
  qed
qed simp

lemma cut_fails_decode_extents:
  "cut_fails (\<lambda>r. case readExtents i (length xs) r of Inl e \<Rightarrow> Inl e | Inr (ys, r') \<Rightarrow> f ys r') (concat (map writeExtent xs))"
  using cut_fails_extents [of i xs] by (fastforce simp: cut_fails_def)

lemma decodeFileEntry_cut:
  assumes "fileOK fe"
  shows "cut_fails decodeFileEntry (feCore fe)"
proof -
  have "length (fe_ContentHash fe) = 32" using assms by (simp add: fileOK_def)
  then have hash: "cut_fails (k (fe_ContentHash fe)) w \<Longrightarrow> cut_fails (fld l (readFull 32) k) (fe_ContentHash fe @ w)"
    for l w and k :: "bytes \<Rightarrow> bytes \<Rightarrow> dec_err + FileEntry"
    by (intro cut_fails_fld [where x = "fe_ContentHash fe"]) (simp_all add: fld_bytes cut_fails_readFull)
  have flag: "cut_fails (k [b]) w \<Longrightarrow> cut_fails (fld l (readFull 1) k) ([b] @ w)"
    for l w b and k :: "bytes \<Rightarrow> bytes \<Rightarrow> dec_err + FileEntry"
    by (intro cut_fails_fld [where x = "[b]"]) (simp_all add: fld_byte [unfolded One_nat_def] cut_fails_readFull)
  show ?thesis
    unfolding decodeFileEntry_def feCore_def
    by (intro cut_fields hash flag count16.fld_cut cut_fails_decode_extents fileOK_counts [OF assms])
qed

lemma decodeMetadata_cut:
  assumes "countable b" "strict_prefix p (metaCore b)"
  shows "\<exists>e. decodeMetadata p = Inl e"
  using decodeCore_cut [of b] assms by (auto simp: countable_def cut_fails_def decodeMetadata_def)

definition int64OK :: "int \<Rightarrow> bool" where
  "int64OK v \<longleftrightarrow> - 9223372036854775808 \<le> v \<and> v < 9223372036854775808"

definition timeOK :: "gotime \<Rightarrow> bool" where
  "timeOK t \<longleftrightarrow> (case t of None \<Rightarrow> True | Some n \<Rightarrow> int64OK n \<and> n \<noteq> zeroTimeNano)"

text \<open>The backups and files that fit the format without loss.\<close>

definition metaFits :: "Backup \<Rightarrow> bool" where
  "metaFits b \<longleftrightarrow> countable b \<and> timeOK (b_Timestamp b) \<and>
     (\<forall>s \<in> {b_BackupID b, b_BackupType b, b_BackupMode b, b_ParentBackupID b, b_Duration b, b_ContentDigest b, b_ContentDigestCovers b}.
        length s \<le> 255) \<and>
     (\<forall>s \<in> {b_SourceVolume b} \<union> set (b_SourcePaths b) \<union> set (b_ExcludePaths b) \<union> set (b_ExcludeWarnings b). length s \<le> 65535) \<and>
     (\<forall>v \<in> {b_TotalBytes b, b_TotalChunks b, b_UniqueChunks b, b_DedupChunks b, b_RawBytes b, b_StoredBytes b,
        b_ChangedChunks b, b_UnchangedChunks b}. int64OK v) \<and>
     (\<forall>v \<in> {b_SectorSize b, b_ClusterSize b}. 0 \<le> v \<and> v < 4294967296)"

definition fileFits :: "FileEntry \<Rightarrow> bool" where
  "fileFits fe \<longleftrightarrow> fileOK fe \<and> timeOK (fe_ModTime fe) \<and> length (fe_Path fe) \<le> 65535 \<and> length (fe_LinkTarget fe) \<le> 65535 \<and>
     length (fe_DataBackupID fe) \<le> 255 \<and> - 2147483648 \<le> fe_SourceIndex fe \<and> fe_SourceIndex fe < 2147483648 \<and>
     int64OK (fe_Size fe) \<and> int64OK (fe_StreamOffset fe) \<and> int64OK (fe_StreamLength fe) \<and>
     (\<forall>x \<in> set (fe_VolumeExtents fe). int64OK (ext_FileOffset x) \<and> int64OK (ext_VolumeOffset x) \<and> int64OK (ext_Length x))"

definition metaOnly :: "Backup \<Rightarrow> Backup" where
  "metaOnly b = b\<lparr> b_Entries := [], b_FileCatalog := [], b_CatalogSidecar := None, b_CatalogCount := 0 \<rparr>"

lemma i64_fits [simp]: "int64OK v \<Longrightarrow> i64 v = v"
  by (simp add: int64OK_def i64_id)

lemma timeNorm_fits [simp]: "timeOK t \<Longrightarrow> timeNorm t = t"
  by (auto simp: timeOK_def timeNorm_def split: option.splits)

lemma map_take_fits: "\<forall>s \<in> set ps. length s \<le> n \<Longrightarrow> map (take n) ps = ps"
  by (induction ps) simp_all

lemma storedMeta_fits:
  assumes "metaFits b"
  shows "storedMeta b = metaOnly b"
  using assms unfolding metaFits_def by (cases b) (simp add: storedMeta_def storedCore_def metaOnly_def map_take_fits)

lemma extNorm_fits: "\<forall>x \<in> set xs. int64OK (ext_FileOffset x) \<and> int64OK (ext_VolumeOffset x) \<and> int64OK (ext_Length x) \<Longrightarrow>
    map extNorm xs = xs"
  by (induction xs) (simp_all add: extNorm_def)

lemma storedFile_fits:
  assumes "fileFits fe"
  shows "storedFile fe = fe"
  using assms unfolding fileFits_def by (cases fe) (simp add: storedFile_def extNorm_fits i32_def)

definition zeroBackup :: Backup where
  "zeroBackup = \<lparr> b_BackupID = [], b_Timestamp = None, b_SourceVolume = [], b_SectorSize = 0, b_ClusterSize = 0,
     b_TotalBytes = 0, b_Entries = [], b_ParentBackupID = [], b_BackupType = [], b_TotalChunks = 0,
     b_UniqueChunks = 0, b_DedupChunks = 0, b_RawBytes = 0, b_StoredBytes = 0, b_DedupRatio = 0,
     b_CompRatio = 0, b_Duration = [], b_ContentDigest = [], b_ContentDigestCovers = [],
     b_ExcludePaths = [], b_ExcludeWarnings = [], b_ChangedChunks = 0, b_UnchangedChunks = 0,
     b_BackupMode = [], b_SourcePaths = [], b_FileCatalog = [], b_CatalogSidecar = None,
     b_CatalogCount = 0, b_WrappedDEK = [] \<rparr>"

definition zeroFile :: FileEntry where
  "zeroFile = \<lparr> fe_Path = [], fe_SourceIndex = 0, fe_Size = 0, fe_Mode = 0, fe_ModTime = None, fe_IsDir = False, fe_IsSymlink = False,
     fe_LinkTarget = [], fe_StreamOffset = 0, fe_StreamLength = 0, fe_ContentHash = replicate 32 0, fe_Unchanged = False,
     fe_DataBackupID = [], fe_VolumeExtents = [], fe_InlineData = [], fe_IsExcluded = False \<rparr>"

lemma zeroBackup_fits: "metaFits zeroBackup"
  by (simp add: zeroBackup_def metaFits_def countable_def timeOK_def int64OK_def)

lemma zeroFile_fits: "fileFits zeroFile"
  by (simp add: zeroFile_def fileFits_def fileOK_def encodeFileEntry_def feCore_def timeOK_def int64OK_def
      writeStr16_def writeInt32_def writeInt64_def writeUint32_def writeTimeNano_def writeStr8_def writeCount16_def
      writeUint16_def count16Sentinel_def)


section \<open>Properties\<close>

text \<open>
  C18: The records of a manifest survive being written.  The metadata section decodes to the
  backup it was encoded from, also when a later version appended fields; without the
  exclusions, or without the digest and the exclusions, it decodes as an older manifest
  that has none.  A catalog record decodes to its file entry, with or without inline
  data.  Fields beyond the limits of the format are cut or wrapped, and nothing changes
  when they are within them.
\<close>

theorem manifest_records_roundtrip:
  assumes "countable b" "fileOK fe"
  shows "decodeMetadata (encodeMetadata b @ later) = Inr (storedMeta b) \<and>
    decodeMetadata (metaCore b @ metaDigest b) = Inr ((storedMeta b)\<lparr> b_ExcludePaths := [], b_ExcludeWarnings := [] \<rparr>) \<and>
    decodeMetadata (metaCore b) = Inr (storedCore b) \<and>
    decodeFileEntry (encodeFileEntry fe @ later) = Inr (storedFile fe) \<and>
    decodeFileEntry (feCore fe) = Inr ((storedFile fe)\<lparr> fe_InlineData := [] \<rparr>) \<and>
    (metaFits b \<longrightarrow> storedMeta b = metaOnly b) \<and> (fileFits fe \<longrightarrow> storedFile fe = fe)"
proof -
  note c = assms(1) [unfolded countable_def]
  have "decodeMetadata (encodeMetadata b @ later) = Inr (storedMeta b)"
    using c by (simp add: decodeMetadata_def encodeMetadata_def decodeCore_written decodeTail_written storedMeta_def)
  moreover have "decodeMetadata (metaCore b @ metaDigest b) = Inr ((storedMeta b)\<lparr> b_ExcludePaths := [], b_ExcludeWarnings := [] \<rparr>)"
    using c str8.read_write [OF TrueI, of "b_ContentDigestCovers b" "[]"]
    by (simp add: decodeMetadata_def decodeCore_written decodeTail_def metaDigest_def str8.read_write Let_def
        readCount16_def readUint16_def rd_bind_def readFull_def storedMeta_def storedCore_def)
  moreover have "decodeMetadata (metaCore b) = Inr (storedCore b)"
    using c decodeCore_written [of b "[]"]
    by (simp add: decodeMetadata_def decodeTail_def readStr8_def rd_bind_def readFull_def)
  moreover have "decodeFileEntry (feCore fe) = Inr ((storedFile fe)\<lparr> fe_InlineData := [] \<rparr>)"
    using decodeFileEntry_core [of fe "[]"] fileOK_counts [OF assms(2)] assms(2) by (simp add: fileOK_def decodeInline_def)
  ultimately show ?thesis
    by (simp add: decodeFileEntry_written [OF assms(2)] storedMeta_fits storedFile_fits)
qed

theorem manifest_records_roundtrip_witness:
  "decodeMetadata (encodeMetadata zeroBackup @ [7]) = Inr (metaOnly zeroBackup) \<and>
   decodeFileEntry (encodeFileEntry zeroFile @ [7]) = Inr zeroFile"
  using manifest_records_roundtrip [of zeroBackup zeroFile "[7]"] zeroBackup_fits zeroFile_fits
  by (simp add: metaFits_def fileFits_def)

text \<open>
  C31: Truncated records are rejected up to the fields older manifests end with, and not
  beyond.  Every proper prefix of the mandatory part of a metadata section or of a catalog
  record is an error.  A metadata section cut right behind the length byte of the content
  digest is read as a manifest from before the digest, and a digest without its
  definition is dropped.
\<close>

theorem manifest_truncation:
  assumes "countable b" "fileOK fe"
  shows "(\<forall>p. strict_prefix p (metaCore b) \<longrightarrow> (\<exists>e. decodeMetadata p = Inl e)) \<and>
    (\<forall>p. strict_prefix p (feCore fe) \<longrightarrow> (\<exists>e. decodeFileEntry p = Inl e)) \<and>
    (\<forall>n. decodeMetadata (metaCore b @ [n]) = Inr (storedCore b)) \<and>
    decodeMetadata (metaCore b @ writeStr8 (b_ContentDigest b)) = Inr (storedCore b)"
proof -
  note c = assms(1) [unfolded countable_def]
  have "decodeMetadata (metaCore b @ [n]) = Inr (storedCore b)" for n
    using c by (simp add: decodeMetadata_def decodeCore_written decodeTail_def readStr8_def rd_bind_def readFull_def rd_return_def)
  moreover have "decodeMetadata (metaCore b @ writeStr8 (b_ContentDigest b)) = Inr (storedCore b)"
    using c str8.read_write [OF TrueI, of "b_ContentDigest b" "[]"]
    by (simp add: decodeMetadata_def decodeCore_written decodeTail_def) (simp add: readStr8_def rd_bind_def readFull_def)
  ultimately show ?thesis
    using decodeMetadata_cut [OF assms(1)] decodeFileEntry_cut [OF assms(2)] by (simp add: cut_fails_def)
qed

theorem manifest_truncation_witness:
  "(\<exists>e. decodeMetadata [] = Inl e) \<and> decodeMetadata (metaCore zeroBackup @ [64]) = Inr (storedCore zeroBackup)"
proof -
  have "strict_prefix [] (metaCore zeroBackup)" by (simp add: metaCore_def writeStr8_def strict_prefix_def Let_def)
  then show ?thesis
    using manifest_truncation [of zeroBackup zeroFile] zeroBackup_fits zeroFile_fits by (simp add: metaFits_def fileFits_def)
qed

end
