(* ===== verification/Dnm_File.thy ===== *)
theory Dnm_File
  imports Dnm_Codec
begin

text \<open>
  The manifest file (core/manifest/dnm.go, dnm_writer.go, dnm_stream.go, dnm_reader.go,
  dnm_ranged.go, catalog_sidecar.go): header, sections and section index, written as one
  file or streamed in parts, and read whole, by section or through ranged reads.  A file is
  its contents.  An allocation that the runtime refuses, because a damaged file declares an
  absurd size, is the error \<open>DnmPanic\<close>; buffering and the errors of the operating system
  are not modelled.
\<close>

section \<open>Header and section index\<close>

definition dnmMagic :: bytes where
  "dnmMagic = [68, 78, 77, 65, 78, 73, 70, 0]"

definition dnmVersion :: u16 where
  "dnmVersion = 1"

definition fileHeaderSize :: nat where
  "fileHeaderSize = 32"

definition sectionIndexSize :: nat where
  "sectionIndexSize = 36"

definition numSections :: nat where
  "numSections = 3"

definition sectionMetadata :: byte where
  "sectionMetadata = 1"

definition sectionCatalog :: byte where
  "sectionCatalog = 2"

definition sectionEntries :: byte where
  "sectionEntries = 3"

definition encodeHeader :: "u64 \<Rightarrow> bytes" where
  "encodeHeader sectionIndexOffset =
     dnmMagic @ put16 dnmVersion @ [0, 0] @ put64 sectionIndexOffset @ put32 (of_nat numSections) @ replicate 8 0"

record sectionInfo =
  si_typ :: byte
  si_offset :: u64
  si_length :: u64
  si_count :: u64

definition encodeSectionIndex :: "byte \<Rightarrow> u64 \<Rightarrow> u64 \<Rightarrow> u64 \<Rightarrow> bytes" where
  "encodeSectionIndex typ off len cnt = typ # replicate 7 0 @ put64 off @ put64 len @ put64 cnt @ replicate 4 0"

definition decodeSectionIndex :: "bytes \<Rightarrow> sectionInfo" where
  "decodeSectionIndex buf = \<lparr> si_typ = buf ! 0, si_offset = get64 (bslice 8 16 buf), si_length = get64 (bslice 16 24 buf),
     si_count = get64 (bslice 24 32 buf) \<rparr>"


section \<open>Entry records\<close>

definition EntryRecordSize :: nat where
  "EntryRecordSize = 45"

definition encodeEntryRecord :: "Entry \<Rightarrow> bytes" where
  "encodeEntryRecord e = put64 (of_int (e_VolumeOffset e)) @ e_ChunkHash e @ put32 (of_int (e_ChunkLength e)) @
     [if e_IsExcluded e then 1 else 0]"

definition decodeEntryRecord :: "bytes \<Rightarrow> Entry" where
  "decodeEntryRecord buf = \<lparr> e_VolumeOffset = sint (get64 (bslice 0 8 buf)), e_ChunkHash = bslice 8 40 buf,
     e_ChunkLength = uint (get32 (bslice 40 44 buf)), e_IsExcluded = buf ! 44 \<noteq> 0 \<rparr>"

definition entryOK :: "Entry \<Rightarrow> bool" where
  "entryOK e \<longleftrightarrow> int64OK (e_VolumeOffset e) \<and> length (e_ChunkHash e) = 32 \<and> 0 \<le> e_ChunkLength e \<and> e_ChunkLength e < 4294967296"

text \<open>
  The last byte of a record is read as a flag, so a record need not be what its entry is
  encoded to.
\<close>

interpretation entries: fixed_codec encodeEntryRecord decodeEntryRecord 45 entryOK
proof
  fix e assume e: "entryOK e"
  then show "length (encodeEntryRecord e) = 45" by (simp add: encodeEntryRecord_def entryOK_def)
  show "decodeEntryRecord (encodeEntryRecord e) = e"
    using e by (cases e) (auto simp: encodeEntryRecord_def decodeEntryRecord_def entryOK_def codec_simps sint_of_int_i64
        uint_of_int_u32 nth_append)
next
  fix bs :: bytes assume bs: "length bs = 45"
  have "- 9223372036854775808 \<le> sint w" "sint w < 9223372036854775808" for w :: u64
    using sint_greater_eq [of w] sint_less [of w] by simp_all
  moreover have "0 \<le> uint v" "uint v < 4294967296" for v :: u32
    using unsigned_less [of v, where ?'a = int] by simp_all
  ultimately show "entryOK (decodeEntryRecord bs)"
    using bs by (simp add: entryOK_def decodeEntryRecord_def int64OK_def length_bslice)
qed simp


section \<open>The catalog\<close>

definition catalogRecord :: "FileEntry \<Rightarrow> bytes" where
  "catalogRecord fe = (let rec = encodeFileEntry fe in put32 (of_nat (length rec)) @ rec)"

definition catalogBytes :: "FileEntry list \<Rightarrow> bytes" where
  "catalogBytes files = concat (map catalogRecord files)"

definition WriteCatalogSidecar :: "FileEntry list \<Rightarrow> int \<times> bytes" where
  "WriteCatalogSidecar files =
     (int (length files), pwrite (replicate 8 0 @ catalogBytes files) 0 (put64 (of_nat (length files))))"

definition streamCatalogSidecar :: "bytes \<Rightarrow> rd_err + (u64 \<times> bytes)" where
  "streamCatalogSidecar f = (case readFull 8 f of Inl e \<Rightarrow> Inl e | Inr (countBuf, rest) \<Rightarrow> Inr (get64 countBuf, rest))"


section \<open>Writing a file\<close>

datatype dnm_err =
    DnmSidecar rd_err
  | DnmFinished
  | DnmCatalogSidecar
  | DnmSink
  | DnmHeader
  | DnmMagic
  | DnmVersion
  | DnmTrailer
  | DnmSeek
  | DnmIndex nat
  | DnmMetadata
  | DnmDecode dec_err
  | DnmEntry
  | DnmRange
  | DnmBounds
  | DnmCatalogLength
  | DnmCatalogData
  | DnmPanic

text \<open>
  The entries section: the entries in memory, and without any the sidecar file that was
  streamed during the backup, if there is one.
\<close>

definition writeEntriesSection :: "Backup \<Rightarrow> bytes option \<Rightarrow> bytes \<times> u64 \<times> u64" where
  "writeEntriesSection b sidecar =
     (if b_Entries b \<noteq> []
      then let cnt = of_nat (length (b_Entries b)) in
        (concat (map encodeEntryRecord (b_Entries b)), cnt, cnt * of_nat EntryRecordSize)
      else case sidecar of
        None \<Rightarrow> ([], 0, 0)
      | Some sf \<Rightarrow> (sf, of_nat (length sf) div of_nat EntryRecordSize, of_nat (length sf)))"

definition writeDNM :: "Backup \<Rightarrow> bytes option \<Rightarrow> dnm_err + bytes" where
  "writeDNM b sidecar =
     (let metaBytes = encodeMetadata b;
          metaOffset = of_nat fileHeaderSize :: u64;
          catalogOffset = metaOffset + of_nat (length metaBytes)
      in case (case b_CatalogSidecar b of
            Some sc \<Rightarrow> streamCatalogSidecar sc
          | None \<Rightarrow> Inr (of_nat (length (b_FileCatalog b)), catalogBytes (b_FileCatalog b))) of
        Inl e \<Rightarrow> Inl (DnmSidecar e)
      | Inr (catalogCount, cat) \<Rightarrow>
          let entriesOffset = catalogOffset + of_nat (length cat);
              (ents, entriesCount, entriesLen) = writeEntriesSection b sidecar;
              sectionIndexOffset = entriesOffset + entriesLen;
              body = replicate fileHeaderSize 0 @ metaBytes @ cat @ ents @
                encodeSectionIndex sectionMetadata metaOffset (of_nat (length metaBytes)) 1 @
                encodeSectionIndex sectionCatalog catalogOffset (entriesOffset - catalogOffset) catalogCount @
                encodeSectionIndex sectionEntries entriesOffset entriesLen entriesCount
          in Inr (pwrite body 0 (encodeHeader sectionIndexOffset)))"


section \<open>Writing in parts\<close>

text \<open>
  The sink is a parameter that says of each part, by its number, whether it is accepted;
  the parts it was given are kept in order.
\<close>

record DNMStreamer =
  ds_window :: int
  ds_buf :: bytes
  ds_entriesLen :: u64
  ds_count :: u64
  ds_finished :: bool
  ds_parts :: "bytes list"

definition NewDNMStreamer :: "int \<Rightarrow> DNMStreamer" where
  "NewDNMStreamer window = \<lparr> ds_window = window, ds_buf = encodeHeader 0, ds_entriesLen = 0, ds_count = 0,
     ds_finished = False, ds_parts = [] \<rparr>"

definition ds_Buffered :: "DNMStreamer \<Rightarrow> nat" where
  "ds_Buffered d = length (ds_buf d)"

definition ds_sink :: "(nat \<Rightarrow> bytes \<Rightarrow> bool) \<Rightarrow> DNMStreamer \<Rightarrow> bool \<times> DNMStreamer" where
  "ds_sink sink d = (sink (length (ds_parts d)) (ds_buf d), d\<lparr> ds_parts := ds_parts d @ [ds_buf d] \<rparr>)"

definition ds_WriteEntry :: "(nat \<Rightarrow> bytes \<Rightarrow> bool) \<Rightarrow> Entry \<Rightarrow> DNMStreamer \<Rightarrow> dnm_err option \<times> DNMStreamer" where
  "ds_WriteEntry sink e d =
     (if ds_finished d then (Some DnmFinished, d)
      else let d = d\<lparr> ds_buf := ds_buf d @ encodeEntryRecord e, ds_entriesLen := ds_entriesLen d + of_nat EntryRecordSize,
             ds_count := ds_count d + 1 \<rparr>
        in if ds_window d \<le> int (length (ds_buf d))
           then (case ds_sink sink d of (ok, d') \<Rightarrow>
             if ok then (None, d'\<lparr> ds_buf := [] \<rparr>) else (Some DnmSink, d'))
           else (None, d))"

definition ds_Finish :: "(nat \<Rightarrow> bytes \<Rightarrow> bool) \<Rightarrow> Backup \<Rightarrow> DNMStreamer \<Rightarrow> dnm_err option \<times> DNMStreamer" where
  "ds_Finish sink b d =
     (if ds_finished d then (Some DnmFinished, d)
      else if b_CatalogSidecar b \<noteq> None then (Some DnmCatalogSidecar, d)
      else let entriesOffset = of_nat fileHeaderSize :: u64;
               metaOffset = entriesOffset + ds_entriesLen d;
               metaBytes = encodeMetadata b;
               catalogOffset = metaOffset + of_nat (length metaBytes);
               cat = catalogBytes (b_FileCatalog b);
               sectionIndexOffset = catalogOffset + of_nat (length cat);
               buf = ds_buf d @ metaBytes @ cat @
                 encodeSectionIndex sectionMetadata metaOffset (of_nat (length metaBytes)) 1 @
                 encodeSectionIndex sectionCatalog catalogOffset (sectionIndexOffset - catalogOffset)
                   (of_nat (length (b_FileCatalog b))) @
                 encodeSectionIndex sectionEntries entriesOffset (ds_entriesLen d) (ds_count d) @
                 put64 sectionIndexOffset
        in (case ds_sink sink (d\<lparr> ds_finished := True, ds_buf := buf \<rparr>) of (ok, d') \<Rightarrow>
              (if ok then None else Some DnmSink, d'\<lparr> ds_buf := [] \<rparr>)))"


section \<open>Opening a file\<close>

text \<open>
  The largest allocation the runtime accepts on a 64-bit machine, and the sizes of the
  structures that are allocated by a declared count.
\<close>

definition maxAlloc :: nat where
  "maxAlloc = 281474976710656"

definition sizeofEntry :: nat where
  "sizeofEntry = 56"

definition sizeofFileEntry :: nat where
  "sizeofFileEntry = 216"

definition seekTo :: "bytes \<Rightarrow> int \<Rightarrow> dnm_err + bytes" where
  "seekTo f off = (if off < 0 then Inl DnmSeek else Inr (drop (nat off) f))"

record DNMReader =
  dr_f :: bytes
  dr_meta :: sectionInfo
  dr_catalog :: sectionInfo
  dr_entries :: sectionInfo

definition noSection :: sectionInfo where
  "noSection = \<lparr> si_typ = 0, si_offset = 0, si_length = 0, si_count = 0 \<rparr>"

definition setSection :: "DNMReader \<Rightarrow> sectionInfo \<Rightarrow> DNMReader" where
  "setSection r s =
     (if si_typ s = sectionMetadata then r\<lparr> dr_meta := s \<rparr>
      else if si_typ s = sectionCatalog then r\<lparr> dr_catalog := s \<rparr>
      else if si_typ s = sectionEntries then r\<lparr> dr_entries := s \<rparr>
      else r)"

fun readIndex :: "nat \<Rightarrow> nat \<Rightarrow> bytes \<Rightarrow> DNMReader \<Rightarrow> dnm_err + DNMReader" where
  "readIndex i 0 rest r = Inr r"
| "readIndex i (Suc n) rest r =
     (case readFull sectionIndexSize rest of
        Inl e \<Rightarrow> Inl (DnmIndex i)
      | Inr (idxBuf, rest') \<Rightarrow> readIndex (Suc i) n rest' (setSection r (decodeSectionIndex idxBuf)))"

definition indexOffset :: "bytes \<Rightarrow> bytes \<Rightarrow> dnm_err + u64" where
  "indexOffset f hdrBuf =
     (let sectionIndexOffset = get64 (bslice 12 20 hdrBuf); sectionIndexCount = get32 (bslice 20 24 hdrBuf) in
      if sectionIndexOffset \<noteq> 0 then Inr sectionIndexOffset
      else case fileReadAt f (int (length f) - 8) 8 of
        None \<Rightarrow> Inl DnmTrailer
      | Some trailer \<Rightarrow>
          if get64 trailer \<noteq> of_nat (length f) - 8 - of_nat (unat sectionIndexCount) * of_nat sectionIndexSize
          then Inl DnmTrailer else Inr (get64 trailer))"

definition OpenDNMReader :: "bytes \<Rightarrow> dnm_err + DNMReader" where
  "OpenDNMReader f =
     (case readFull fileHeaderSize f of
        Inl e \<Rightarrow> Inl DnmHeader
      | Inr (hdrBuf, _) \<Rightarrow>
          if bslice 0 8 hdrBuf \<noteq> dnmMagic then Inl DnmMagic
          else if get16 (bslice 8 10 hdrBuf) \<noteq> dnmVersion then Inl DnmVersion
          else case indexOffset f hdrBuf of
            Inl e \<Rightarrow> Inl e
          | Inr off \<Rightarrow>
              (case seekTo f (sint off) of
                 Inl e \<Rightarrow> Inl e
               | Inr rest \<Rightarrow> readIndex 0 (unat (get32 (bslice 20 24 hdrBuf))) rest
                   \<lparr> dr_f = f, dr_meta = noSection, dr_catalog = noSection, dr_entries = noSection \<rparr>))"

definition dr_EntriesCount :: "DNMReader \<Rightarrow> int" where
  "dr_EntriesCount r = sint (si_count (dr_entries r))"

definition dr_CatalogCount :: "DNMReader \<Rightarrow> int" where
  "dr_CatalogCount r = sint (si_count (dr_catalog r))"


section \<open>Reading sections\<close>

definition readMetadata :: "DNMReader \<Rightarrow> dnm_err + Backup" where
  "readMetadata r =
     (case seekTo (dr_f r) (sint (si_offset (dr_meta r))) of
        Inl e \<Rightarrow> Inl e
      | Inr rest \<Rightarrow>
          if maxAlloc < unat (si_length (dr_meta r)) then Inl DnmPanic
          else case readFull (unat (si_length (dr_meta r))) rest of
            Inl e \<Rightarrow> Inl DnmMetadata
          | Inr (data, _) \<Rightarrow> (case decodeMetadata data of Inl e \<Rightarrow> Inl (DnmDecode e) | Inr b \<Rightarrow> Inr b))"

text \<open>
  The next record of a catalog, from any source of bytes: \<open>rf\<close> is the \<^verbatim>\<open>io.ReadFull\<close> of the
  source.
\<close>

definition nextRecord :: "(nat \<Rightarrow> 'r \<Rightarrow> 'e + (bytes \<times> 'r)) \<Rightarrow> 'r \<Rightarrow> dnm_err + (FileEntry \<times> 'r)" where
  "nextRecord rf r =
     (case rf 4 r of
        Inl e \<Rightarrow> Inl DnmCatalogLength
      | Inr (lenBuf, r1) \<Rightarrow>
          (case rf (unat (get32 lenBuf)) r1 of
             Inl e \<Rightarrow> Inl DnmCatalogData
           | Inr (data, r2) \<Rightarrow> (case decodeFileEntry data of Inl e \<Rightarrow> Inl (DnmDecode e) | Inr fe \<Rightarrow> Inr (fe, r2))))"

fun readRecords :: "nat \<Rightarrow> bytes \<Rightarrow> dnm_err + FileEntry list" where
  "readRecords 0 r = Inr []"
| "readRecords (Suc n) r =
     (case nextRecord readFull r of
        Inl e \<Rightarrow> Inl e
      | Inr (fe, r') \<Rightarrow> (case readRecords n r' of Inl e \<Rightarrow> Inl e | Inr fs \<Rightarrow> Inr (fe # fs)))"

definition readAllCatalog :: "DNMReader \<Rightarrow> dnm_err + FileEntry list" where
  "readAllCatalog r =
     (if si_count (dr_catalog r) = 0 then Inr []
      else case seekTo (dr_f r) (sint (si_offset (dr_catalog r))) of
        Inl e \<Rightarrow> Inl e
      | Inr rest \<Rightarrow>
          if maxAlloc < unat (si_count (dr_catalog r)) * sizeofFileEntry then Inl DnmPanic
          else readRecords (unat (si_count (dr_catalog r))) rest)"

text \<open>A visitor is a function on a state of its own that says whether to go on.\<close>

fun visitRecords :: "(nat \<Rightarrow> 'r \<Rightarrow> 'e + (bytes \<times> 'r)) \<Rightarrow> ('s \<Rightarrow> FileEntry \<Rightarrow> 's \<times> bool) \<Rightarrow> nat \<Rightarrow> 'r \<Rightarrow> 's \<Rightarrow> dnm_err option \<times> 's" where
  "visitRecords rf visit 0 r s = (None, s)"
| "visitRecords rf visit (Suc n) r s =
     (case nextRecord rf r of
        Inl e \<Rightarrow> (Some e, s)
      | Inr (fe, r') \<Rightarrow> (case visit s fe of (s', go) \<Rightarrow> if go then visitRecords rf visit n r' s' else (None, s')))"

definition StreamCatalog :: "DNMReader \<Rightarrow> ('s \<Rightarrow> FileEntry \<Rightarrow> 's \<times> bool) \<Rightarrow> 's \<Rightarrow> dnm_err option \<times> 's" where
  "StreamCatalog r visit s =
     (if si_count (dr_catalog r) = 0 then (None, s)
      else case seekTo (dr_f r) (sint (si_offset (dr_catalog r))) of
        Inl e \<Rightarrow> (Some e, s)
      | Inr rest \<Rightarrow> visitRecords readFull visit (unat (si_count (dr_catalog r))) rest s)"

definition EntryAt :: "DNMReader \<Rightarrow> u64 \<Rightarrow> dnm_err + Entry" where
  "EntryAt r i =
     (if si_count (dr_entries r) \<le> i then Inl DnmRange
      else case seekTo (dr_f r) (i64 (sint (si_offset (dr_entries r)) + i64 (sint i * int EntryRecordSize))) of
        Inl e \<Rightarrow> Inl e
      | Inr rest \<Rightarrow> (case readFull EntryRecordSize rest of Inl e \<Rightarrow> Inl DnmEntry | Inr (buf, _) \<Rightarrow> Inr (decodeEntryRecord buf)))"

definition EntriesRange :: "DNMReader \<Rightarrow> u64 \<Rightarrow> u64 \<Rightarrow> dnm_err + Entry list" where
  "EntriesRange r start end' =
     (if end' \<le> start then Inr []
      else if si_count (dr_entries r) < end' then Inl DnmRange
      else let cnt = end' - start in
        case seekTo (dr_f r) (i64 (sint (si_offset (dr_entries r)) + i64 (sint start * int EntryRecordSize))) of
          Inl e \<Rightarrow> Inl e
        | Inr rest \<Rightarrow>
            let size = unat (cnt * of_nat EntryRecordSize) in
            if maxAlloc < size then Inl DnmPanic
            else case readFull size rest of
              Inl e \<Rightarrow> Inl DnmEntry
            | Inr (buf, _) \<Rightarrow>
                if maxAlloc < unat cnt * sizeofEntry \<or> size < unat cnt * EntryRecordSize then Inl DnmPanic
                else Inr (map decodeEntryRecord (records EntryRecordSize buf)))"

fun readEntryRecords :: "nat \<Rightarrow> bytes \<Rightarrow> dnm_err + Entry list" where
  "readEntryRecords 0 r = Inr []"
| "readEntryRecords (Suc n) r =
     (case readFull EntryRecordSize r of
        Inl e \<Rightarrow> Inl DnmEntry
      | Inr (buf, r') \<Rightarrow> (case readEntryRecords n r' of Inl e \<Rightarrow> Inl e | Inr es \<Rightarrow> Inr (decodeEntryRecord buf # es)))"

definition readAllEntries :: "DNMReader \<Rightarrow> dnm_err + Entry list" where
  "readAllEntries r =
     (if si_count (dr_entries r) = 0 then Inr []
      else case seekTo (dr_f r) (sint (si_offset (dr_entries r))) of
        Inl e \<Rightarrow> Inl e
      | Inr rest \<Rightarrow>
          if maxAlloc < unat (si_count (dr_entries r)) * sizeofEntry then Inl DnmPanic
          else readEntryRecords (unat (si_count (dr_entries r))) rest)"

fun hashRecords :: "('s \<Rightarrow> bytes \<Rightarrow> dnm_err option \<times> 's) \<Rightarrow> nat \<Rightarrow> bytes \<Rightarrow> 's \<Rightarrow> dnm_err option \<times> 's" where
  "hashRecords fn 0 r s = (None, s)"
| "hashRecords fn (Suc n) r s =
     (case readFull EntryRecordSize r of
        Inl e \<Rightarrow> (Some DnmEntry, s)
      | Inr (buf, r') \<Rightarrow>
          (case fn s (bslice 8 40 buf) of (None, s') \<Rightarrow> hashRecords fn n r' s' | (Some e, s') \<Rightarrow> (Some e, s')))"

definition StreamChunkHashes :: "DNMReader \<Rightarrow> ('s \<Rightarrow> bytes \<Rightarrow> dnm_err option \<times> 's) \<Rightarrow> 's \<Rightarrow> dnm_err option \<times> 's" where
  "StreamChunkHashes r fn s =
     (if si_count (dr_entries r) = 0 then (None, s)
      else case seekTo (dr_f r) (sint (si_offset (dr_entries r))) of
        Inl e \<Rightarrow> (Some e, s)
      | Inr rest \<Rightarrow> hashRecords fn (unat (si_count (dr_entries r))) rest s)"

definition loadDNM :: "bytes \<Rightarrow> dnm_err + Backup" where
  "loadDNM f =
     (case OpenDNMReader f of
        Inl e \<Rightarrow> Inl e
      | Inr r \<Rightarrow>
     (case readMetadata r of
        Inl e \<Rightarrow> Inl e
      | Inr b \<Rightarrow>
     (case (if 0 < si_count (dr_catalog r) then readAllCatalog r else Inr []) of
        Inl e \<Rightarrow> Inl e
      | Inr files \<Rightarrow>
     (case readAllEntries r of
        Inl e \<Rightarrow> Inl e
      | Inr es \<Rightarrow> Inr (b\<lparr> b_FileCatalog := files, b_Entries := es \<rparr>)))))"


section \<open>Ranged reads\<close>

definition catalogRangeWindow :: int where
  "catalogRangeWindow = 1048576"

type_synonym RangeReadFunc = "int \<Rightarrow> int \<Rightarrow> bytes option"

definition sectionAt :: "bytes \<Rightarrow> nat \<Rightarrow> sectionInfo" where
  "sectionAt idxData i =
     (let buf = take sectionIndexSize (drop (i * sectionIndexSize) idxData) in
      decodeSectionIndex (buf @ replicate (sectionIndexSize - length buf) 0))"

fun findCatalog :: "nat \<Rightarrow> nat \<Rightarrow> bytes \<Rightarrow> sectionInfo \<Rightarrow> dnm_err + sectionInfo" where
  "findCatalog i 0 idxData catalog = Inr catalog"
| "findCatalog i (Suc n) idxData catalog =
     (if length idxData < i * sectionIndexSize then Inl DnmPanic
      else let s = sectionAt idxData i in
        findCatalog (Suc i) n idxData (if si_typ s = sectionCatalog then s else catalog))"

definition indexOffsetRanged :: "int \<Rightarrow> RangeReadFunc \<Rightarrow> bytes \<Rightarrow> dnm_err + u64" where
  "indexOffsetRanged objSize readRange hdr =
     (let sectionIndexOffset = get64 (bslice 12 20 hdr); sectionIndexCount = get32 (bslice 20 24 hdr) in
      if sectionIndexOffset \<noteq> 0 then Inr sectionIndexOffset
      else case readRange (objSize - 8) 8 of
        None \<Rightarrow> Inl DnmTrailer
      | Some tr \<Rightarrow>
          if length tr < 8 then Inl DnmPanic
          else if get64 tr \<noteq> of_int objSize - 8 - of_nat (unat sectionIndexCount) * of_nat sectionIndexSize
          then Inl DnmTrailer else Inr (get64 tr))"

definition locateCatalogRanged :: "int \<Rightarrow> RangeReadFunc \<Rightarrow> dnm_err + sectionInfo" where
  "locateCatalogRanged objSize readRange =
     (if objSize < int fileHeaderSize then Inl DnmHeader
      else case readRange 0 (int fileHeaderSize) of
        None \<Rightarrow> Inl DnmHeader
      | Some hdr \<Rightarrow>
          if length hdr < fileHeaderSize \<or> bslice 0 8 hdr \<noteq> dnmMagic then Inl DnmMagic
          else if get16 (bslice 8 10 hdr) \<noteq> dnmVersion then Inl DnmVersion
          else case indexOffsetRanged objSize readRange hdr of
            Inl e \<Rightarrow> Inl e
          | Inr off \<Rightarrow>
              let sectionIndexCount = unat (get32 (bslice 20 24 hdr));
                  idxLen = int sectionIndexCount * int sectionIndexSize
              in if objSize < i64 (sint off + idxLen) then Inl DnmBounds
                 else case readRange (sint off) idxLen of
                   None \<Rightarrow> Inl (DnmIndex 0)
                 | Some idxData \<Rightarrow>
                     (case findCatalog 0 sectionIndexCount idxData noSection of
                        Inl e \<Rightarrow> Inl e
                      | Inr catalog \<Rightarrow>
                          if 0 < si_count catalog \<and> objSize < i64 (sint (si_offset catalog) + sint (si_length catalog))
                          then Inl DnmBounds else Inr catalog))"

record rangeSectionReader =
  rs_off :: int
  rs_end :: int
  rs_window :: int
  rs_buf :: bytes

datatype rng_err = RngEOF | RngUnexpectedEOF | RngFail

definition rs_Read :: "RangeReadFunc \<Rightarrow> nat \<Rightarrow> rangeSectionReader \<Rightarrow> rng_err + (bytes \<times> rangeSectionReader)" where
  "rs_Read readRange plen r =
     (case (if rs_buf r = []
        then if rs_end r \<le> rs_off r then Inl RngEOF
          else let n = min (rs_window r) (rs_end r - rs_off r) in
            (case readRange (rs_off r) n of
               None \<Rightarrow> Inl RngFail
             | Some b \<Rightarrow>
                 if b = [] then Inl RngUnexpectedEOF
                 else let b = (if n < int (length b) then take (nat n) b else b) in
                   Inr (r\<lparr> rs_off := rs_off r + int (length b), rs_buf := b \<rparr>))
        else Inr r) of
        Inl e \<Rightarrow> Inl e
      | Inr r \<Rightarrow> Inr (take plen (rs_buf r), r\<lparr> rs_buf := drop plen (rs_buf r) \<rparr>))"

text \<open>
  \<^verbatim>\<open>io.ReadFull\<close> over this reader.  The buffered reader in between asks for the next window
  exactly when the bytes of the last one are used up and more are needed, as this loop
  does.  A read that gives no bytes ends the loop; it happens only with an empty window.
\<close>

function rs_full :: "RangeReadFunc \<Rightarrow> nat \<Rightarrow> bytes \<Rightarrow> rangeSectionReader \<Rightarrow> rng_err + (bytes \<times> rangeSectionReader)" where
  "rs_full readRange n acc r =
     (if n = 0 then Inr (acc, r)
      else case rs_Read readRange n r of
        Inl e \<Rightarrow> Inl (if e = RngEOF \<and> acc \<noteq> [] then RngUnexpectedEOF else e)
      | Inr (bs, r') \<Rightarrow> if bs = [] then Inl RngFail else rs_full readRange (n - length bs) (acc @ bs) r')"
  by pat_completeness auto
termination
  by (relation "measure (\<lambda>(_, n, _, _). n)") auto

declare rs_full.simps [simp del]

definition StreamCatalogRanged :: "int \<Rightarrow> RangeReadFunc \<Rightarrow> ('s \<Rightarrow> FileEntry \<Rightarrow> 's \<times> bool) \<Rightarrow> 's \<Rightarrow> dnm_err option \<times> 's" where
  "StreamCatalogRanged objSize readRange visit s =
     (case locateCatalogRanged objSize readRange of
        Inl e \<Rightarrow> (Some e, s)
      | Inr catalog \<Rightarrow>
          if si_count catalog = 0 then (None, s)
          else visitRecords (\<lambda>n. rs_full readRange n []) visit (unat (si_count catalog))
            \<lparr> rs_off = sint (si_offset catalog), rs_end = i64 (sint (si_offset catalog) + sint (si_length catalog)),
              rs_window = catalogRangeWindow, rs_buf = [] \<rparr> s)"

end
