(* ===== verification/Dnm_Correct.thy ===== *)
theory Dnm_Correct
  imports Dnm_File
begin

text \<open>
  The manifest file is read back as it was written: the two layouts, whole or by section,
  directly or through ranged reads.
\<close>

section \<open>Words and slices\<close>

lemma unat_of_nat_u64: "n < 18446744073709551616 \<Longrightarrow> unat (of_nat n :: u64) = n"
  by (simp add: unat_of_nat)

lemma sint_small:
  assumes "unat (w :: u64) < 9223372036854775808"
  shows "sint w = int (unat w)"
proof -
  have u: "int (unat w) = uint w" by simp
  moreover have "int (unat w) < 9223372036854775808" using assms by linarith
  ultimately have "uint w < 9223372036854775808" by simp
  moreover have "- 9223372036854775808 \<le> uint w" using unsigned_greater_eq [of w, where ?'a = int] by linarith
  ultimately have "signed_take_bit 63 (uint w) = uint w" by (simp add: signed_take_bit_int_eq_self)
  then show ?thesis unfolding u by (simp add: sint_uint)
qed

lemma sint_of_nat_small: "n < 9223372036854775808 \<Longrightarrow> sint (of_nat n :: u64) = int n"
  using sint_small [of "of_nat n"] by (simp add: unat_of_nat_u64)

lemma u64_zero_iff: "n < 18446744073709551616 \<Longrightarrow> (of_nat n :: u64) = 0 \<longleftrightarrow> n = 0"
  by (simp add: word_zero_iff unat_of_nat_u64)

lemma of_nat_div_u64:
  assumes "n < 18446744073709551616" "0 < m" "m < 18446744073709551616"
  shows "(of_nat n :: u64) div of_nat m = of_nat (n div m)"
proof -
  have "n div m < 18446744073709551616" using assms(1) div_le_dividend [of n m] by linarith
  then have "unat ((of_nat n :: u64) div of_nat m) = unat (of_nat (n div m) :: u64)"
    using assms by (simp add: unat_div unat_of_nat_u64)
  then show ?thesis by (rule unsigned_word_eqI)
qed


lemma bslice_Cons: "0 < a \<Longrightarrow> bslice a b (x # xs) = bslice (a - 1) (b - 1) xs"
  by (cases b) (simp_all add: bslice_def drop_Cons')


section \<open>Header and index\<close>

lemma length_encodeHeader [simp]: "length (encodeHeader off) = 32"
  by (simp add: encodeHeader_def dnmMagic_def)

lemma header_fields:
  "bslice 0 8 (encodeHeader off) = dnmMagic"
  "get16 (bslice 8 10 (encodeHeader off)) = dnmVersion"
  "get64 (bslice 12 20 (encodeHeader off)) = off"
  "unat (get32 (bslice 20 24 (encodeHeader off))) = 3"
  by (simp_all add: encodeHeader_def dnmMagic_def numSections_def codec_simps bslice_Cons)

lemma length_encodeSectionIndex [simp]: "length (encodeSectionIndex t off len cnt) = 36"
  by (simp add: encodeSectionIndex_def)

lemma decode_encodeSectionIndex [simp]:
  "decodeSectionIndex (encodeSectionIndex t off len cnt) = \<lparr> si_typ = t, si_offset = off, si_length = len, si_count = cnt \<rparr>"
  by (simp add: encodeSectionIndex_def decodeSectionIndex_def codec_simps bslice_Cons)

lemma readIndex_written:
  "readIndex 0 3 (encodeSectionIndex sectionMetadata o1 l1 c1 @ encodeSectionIndex sectionCatalog o2 l2 c2 @
     encodeSectionIndex sectionEntries o3 l3 c3 @ rest) r =
   Inr (r\<lparr> dr_meta := \<lparr> si_typ = sectionMetadata, si_offset = o1, si_length = l1, si_count = c1 \<rparr>,
     dr_catalog := \<lparr> si_typ = sectionCatalog, si_offset = o2, si_length = l2, si_count = c2 \<rparr>,
     dr_entries := \<lparr> si_typ = sectionEntries, si_offset = o3, si_length = l3, si_count = c3 \<rparr> \<rparr>)"
  by (simp add: numeral_3_eq_3 sectionIndexSize_def readFull_append setSection_def sectionMetadata_def sectionCatalog_def sectionEntries_def)

lemma open_header:
  "OpenDNMReader (encodeHeader off @ rest) =
     (case indexOffset (encodeHeader off @ rest) (encodeHeader off) of
        Inl e \<Rightarrow> Inl e
      | Inr off' \<Rightarrow>
          (case seekTo (encodeHeader off @ rest) (sint off') of
             Inl e \<Rightarrow> Inl e
           | Inr rd \<Rightarrow> readIndex 0 3 rd
               \<lparr> dr_f = encodeHeader off @ rest, dr_meta = noSection, dr_catalog = noSection, dr_entries = noSection \<rparr>))"
  unfolding OpenDNMReader_def fileHeaderSize_def readFull_append [OF length_encodeHeader] sum.case prod.case header_fields
  by simp


section \<open>The two layouts\<close>

text \<open>
  The sections of a manifest: the bytes of the metadata, the catalog with its record count
  and the entries.
\<close>

definition sectionIndexes :: "nat \<Rightarrow> nat \<Rightarrow> nat \<Rightarrow> bytes \<Rightarrow> bytes \<Rightarrow> u64 \<Rightarrow> bytes \<Rightarrow> bytes" where
  "sectionIndexes om oc oe M C nc E =
     encodeSectionIndex sectionMetadata (of_nat om) (of_nat (length M)) 1 @
     encodeSectionIndex sectionCatalog (of_nat oc) (of_nat (length C)) nc @
     encodeSectionIndex sectionEntries (of_nat oe) (of_nat (length E)) (of_nat (length E div 45))"

definition classicFile :: "bytes \<Rightarrow> bytes \<Rightarrow> u64 \<Rightarrow> bytes \<Rightarrow> bytes" where
  "classicFile M C nc E = encodeHeader (of_nat (32 + length M + length C + length E)) @ M @ C @ E @
     sectionIndexes 32 (32 + length M) (32 + length M + length C) M C nc E"

definition streamedFile :: "bytes \<Rightarrow> bytes \<Rightarrow> u64 \<Rightarrow> bytes \<Rightarrow> bytes" where
  "streamedFile M C nc E = encodeHeader 0 @ E @ M @ C @
     sectionIndexes (32 + length E) (32 + length E + length M) 32 M C nc E @
     put64 (of_nat (32 + length E + length M + length C))"

definition readerOf :: "bytes \<Rightarrow> nat \<Rightarrow> nat \<Rightarrow> nat \<Rightarrow> bytes \<Rightarrow> bytes \<Rightarrow> u64 \<Rightarrow> bytes \<Rightarrow> DNMReader" where
  "readerOf f om oc oe M C nc E = \<lparr> dr_f = f,
     dr_meta = \<lparr> si_typ = sectionMetadata, si_offset = of_nat om, si_length = of_nat (length M), si_count = 1 \<rparr>,
     dr_catalog = \<lparr> si_typ = sectionCatalog, si_offset = of_nat oc, si_length = of_nat (length C), si_count = nc \<rparr>,
     dr_entries = \<lparr> si_typ = sectionEntries, si_offset = of_nat oe, si_length = of_nat (length E), si_count = of_nat (length E div 45) \<rparr> \<rparr>"

lemma length_sectionIndexes [simp]: "length (sectionIndexes om oc oe M C nc E) = 108"
  by (simp add: sectionIndexes_def)

lemma readIndex_sections:
  "readIndex 0 3 (sectionIndexes om oc oe M C nc E @ rest)
     \<lparr> dr_f = f, dr_meta = noSection, dr_catalog = noSection, dr_entries = noSection \<rparr> = Inr (readerOf f om oc oe M C nc E)"
  unfolding sectionIndexes_def append_assoc readIndex_written by (simp add: readerOf_def)

text \<open>The bound on the size of a file, 64 TiB, keeps every allocation within the runtime's limit.\<close>

definition dnmSmall :: "bytes \<Rightarrow> bool" where
  "dnmSmall f \<longleftrightarrow> length f \<le> 70368744177664"

lemma open_classicFile:
  assumes "dnmSmall (classicFile M C nc E)"
  shows "OpenDNMReader (classicFile M C nc E) = Inr (readerOf (classicFile M C nc E) 32 (32 + length M) (32 + length M + length C) M C nc E)"
proof -
  let ?n = "32 + length M + length C + length E"
  let ?idx = "sectionIndexes 32 (32 + length M) (32 + length M + length C) M C nc E"
  have small: "?n < 9223372036854775808" using assms by (simp add: dnmSmall_def classicFile_def)
  have s: "sint (of_nat ?n :: u64) = int ?n" using small by (rule sint_of_nat_small)
  have f: "classicFile M C nc E = encodeHeader (of_nat ?n) @ (M @ C @ E @ ?idx)" by (simp add: classicFile_def)
  have "indexOffset (classicFile M C nc E) (encodeHeader (of_nat ?n)) = Inr (of_nat ?n)"
    using small u64_zero_iff [of ?n] by (simp add: indexOffset_def header_fields Let_def)
  moreover have "seekTo (classicFile M C nc E) (int ?n) = Inr ?idx"
    by (simp add: seekTo_def classicFile_def nat_int_add)
  ultimately show ?thesis
    unfolding f open_header using readIndex_sections [where rest = "[]"] by (simp only: f [symmetric] s sum.case append_Nil2)
qed

lemma open_streamedFile:
  assumes "dnmSmall (streamedFile M C nc E)"
  shows "OpenDNMReader (streamedFile M C nc E) =
    Inr (readerOf (streamedFile M C nc E) (32 + length E) (32 + length E + length M) 32 M C nc E)"
proof -
  let ?n = "32 + length E + length M + length C"
  let ?idx = "sectionIndexes (32 + length E) (32 + length E + length M) 32 M C nc E"
  let ?tr = "put64 (of_nat ?n)"
  let ?f = "streamedFile M C nc E"
  have len: "length ?f = ?n + 108 + 8" by (simp add: streamedFile_def)
  have small: "?n < 9223372036854775808" using assms by (simp add: dnmSmall_def streamedFile_def)
  have s: "sint (of_nat ?n :: u64) = int ?n" using small by (rule sint_of_nat_small)
  have f: "?f = encodeHeader 0 @ (E @ M @ C @ ?idx @ ?tr)" by (simp add: streamedFile_def)
  have "fileReadAt ?f (int (length ?f) - 8) 8 = Some ?tr"
  proof -
    have "nat (int (length ?f) - 8) = length (encodeHeader 0 @ E @ M @ C @ ?idx)" by (simp add: len)
    then show ?thesis by (simp add: fileReadAt_def pread_def len) (simp add: streamedFile_def)
  qed
  moreover have "(of_nat ?n :: u64) = of_nat (length ?f) - 8 - of_nat 3 * of_nat sectionIndexSize"
    unfolding len by (simp add: sectionIndexSize_def)
  ultimately have "indexOffset ?f (encodeHeader 0) = Inr (of_nat ?n)"
    by (simp add: indexOffset_def header_fields Let_def)
  moreover have "seekTo ?f (int ?n) = Inr (?idx @ ?tr)"
    by (simp add: seekTo_def streamedFile_def nat_int_add)
  ultimately show ?thesis
    unfolding f open_header using readIndex_sections by (simp only: f [symmetric] s sum.case)
qed


section \<open>Sources of catalog bytes\<close>

text \<open>
  The interface the catalog decoder has of its input: a source that stands for a byte
  string yields any number of the bytes it has left and then stands for the rest.
\<close>

locale byte_source =
  fixes rf :: "nat \<Rightarrow> 'r \<Rightarrow> 'e + (bytes \<times> 'r)" and repr :: "'r \<Rightarrow> bytes \<Rightarrow> bool"
  assumes source_read: "repr r bs \<Longrightarrow> n \<le> length bs \<Longrightarrow> \<exists>r'. rf n r = Inr (take n bs, r') \<and> repr r' (drop n bs)"
begin

lemma source_append:
  assumes "repr r (as @ bs)" "length as = n"
  obtains r' where "rf n r = Inr (as, r')" "repr r' bs"
  using source_read [OF assms(1), of n] assms(2) by auto

lemma next_written:
  assumes "repr r (catalogRecord fe @ rest)" "fileOK fe"
  obtains r' where "nextRecord rf r = Inr (storedFile fe, r')" "repr r' rest"
proof -
  let ?rec = "encodeFileEntry fe"
  have "length ?rec < 4294967296" using assms(2) by (simp add: fileOK_def)
  then have u: "unat (of_nat (length ?rec) :: u32) = length ?rec" by (simp add: unat_of_nat)
  have "repr r (put32 (of_nat (length ?rec)) @ ?rec @ rest)" using assms(1) by (simp add: catalogRecord_def Let_def)
  then obtain r1 where r1: "rf 4 r = Inr (put32 (of_nat (length ?rec)), r1)" "repr r1 (?rec @ rest)"
    by (rule source_append) simp
  obtain r2 where r2: "rf (length ?rec) r1 = Inr (?rec, r2)" "repr r2 rest"
    using r1(2) by (rule source_append) simp
  have "nextRecord rf r = Inr (storedFile fe, r2)"
    using decodeFileEntry_written [OF assms(2), of "[]"] by (simp add: nextRecord_def r1(1) u r2(1))
  then show thesis using r2(2) by (rule that)
qed

end

fun visitAll :: "('s \<Rightarrow> FileEntry \<Rightarrow> 's \<times> bool) \<Rightarrow> FileEntry list \<Rightarrow> 's \<Rightarrow> 's" where
  "visitAll visit [] s = s"
| "visitAll visit (fe # fs) s = (case visit s fe of (s', go) \<Rightarrow> if go then visitAll visit fs s' else s')"

context byte_source
begin

lemma visit_written:
  assumes "repr r (catalogBytes fs @ rest)" "\<forall>fe \<in> set fs. fileOK fe"
  shows "visitRecords rf visit (length fs) r s = (None, visitAll visit (map storedFile fs) s)"
  using assms
proof (induction fs arbitrary: r s)
  case (Cons fe fs)
  from Cons.prems have "repr r (catalogRecord fe @ catalogBytes fs @ rest)" by (simp add: catalogBytes_def)
  then obtain r' where r': "nextRecord rf r = Inr (storedFile fe, r')" "repr r' (catalogBytes fs @ rest)"
    by (rule next_written) (use Cons.prems in auto)
  from Cons.IH [OF r'(2)] Cons.prems show ?case by (auto simp: r'(1) split: prod.split)
qed simp

end

interpretation inMemory: byte_source readFull "(=)"
  by unfold_locales (auto simp: readFull_def)

lemma readRecords_written:
  assumes "\<forall>fe \<in> set fs. fileOK fe"
  shows "readRecords (length fs) (catalogBytes fs @ rest) = Inr (map storedFile fs)"
  using assms
proof (induction fs)
  case (Cons fe fs)
  have "catalogBytes (fe # fs) @ rest = catalogRecord fe @ catalogBytes fs @ rest" by (simp add: catalogBytes_def)
  then obtain r' where "nextRecord readFull (catalogBytes (fe # fs) @ rest) = Inr (storedFile fe, r')" "r' = catalogBytes fs @ rest"
    using inMemory.next_written [of _ fe "catalogBytes fs @ rest"] Cons.prems by (metis list.set_intros(1))
  with Cons show ?case by simp
qed simp


section \<open>Reading the sections\<close>

definition placed :: "bytes \<Rightarrow> nat \<Rightarrow> bytes \<Rightarrow> bool" where
  "placed f off X \<longleftrightarrow> off + length X \<le> length f \<and> take (length X) (drop off f) = X"

lemma placed_append [intro]: "length pre = off \<Longrightarrow> placed (pre @ X @ post) off X"
  by (auto simp: placed_def)

lemma placed_rest: "placed f off X \<Longrightarrow> drop off f = X @ drop (off + length X) f"
  unfolding placed_def by (metis append_take_drop_id drop_drop add.commute)

lemma placedE:
  assumes "placed f off X"
  obtains pre post where "f = pre @ X @ post" "length pre = off"
proof -
  have "f = take off f @ X @ drop (off + length X) f"
    using placed_rest [OF assms] append_take_drop_id [of off f] by metis
  moreover have "length (take off f) = off" using assms by (simp add: placed_def)
  ultimately show thesis by (rule that)
qed

lemma placed_seek:
  assumes "placed f off X" "dnmSmall f"
  shows "seekTo f (sint (of_nat off :: u64)) = Inr (X @ drop (off + length X) f)"
proof -
  have "off < 9223372036854775808" using assms by (simp add: placed_def dnmSmall_def)
  then show ?thesis using placed_rest [OF assms(1)] by (simp add: seekTo_def sint_of_nat_small)
qed

lemma catalogRecord_length: "86 \<le> length (catalogRecord fe)" if "fileOK fe"
  using that writeCount16_length [of "length (fe_VolumeExtents fe)"] writeCount16_length [of "length (fe_InlineData fe)"]
  by (simp add: catalogRecord_def Let_def encodeFileEntry_def feCore_def fileOK_def writeStr16_def writeStr8_def writeInt32_def
      writeInt64_def writeUint32_def writeTimeNano_def split: option.split)

lemma catalogBytes_length: "\<forall>fe \<in> set fs. fileOK fe \<Longrightarrow> 86 * length fs \<le> length (catalogBytes fs)"
proof (induction fs)
  case (Cons fe fs)
  then show ?case using catalogRecord_length [of fe] by (simp add: catalogBytes_def)
qed (simp add: catalogBytes_def)

lemma readEntryRecords_take:
  "n * 45 \<le> length E \<Longrightarrow> readEntryRecords n (E @ rest) = Inr (map decodeEntryRecord (take n (records 45 E)))"
proof (induction n arbitrary: E)
  case (Suc n)
  then obtain a E' where E: "E = a @ E'" "length a = 45" 
    by (metis append_take_drop_id length_take min_absorb2 mult_Suc le_add1 le_trans)
  then show ?case using Suc by (simp add: EntryRecordSize_def readFull_append records_Cons)
qed simp

lemma length_div_45: "length E div 45 * 45 \<le> length E"
  by simp

lemma hashRecords_take:
  assumes "n * 45 \<le> length E" "\<And>s h. fst (fn s h) = None"
  shows "hashRecords fn n (E @ rest) s = (None, foldl (\<lambda>s r. snd (fn s (e_ChunkHash (decodeEntryRecord r)))) s (take n (records 45 E)))"
  using assms(1)
proof (induction n arbitrary: E s)
  case (Suc n)
  then obtain a E' where E: "E = a @ E'" "length a = 45"
    by (metis append_take_drop_id length_take min_absorb2 mult_Suc le_add1 le_trans)
  obtain s' where "fn s (bslice 8 40 a) = (None, s')" using assms(2) by (metis prod.collapse)
  with E Suc show ?case by (simp add: EntryRecordSize_def readFull_append records_Cons decodeEntryRecord_def)
qed simp

definition laid :: "bytes \<Rightarrow> nat \<Rightarrow> nat \<Rightarrow> nat \<Rightarrow> bytes \<Rightarrow> bytes \<Rightarrow> bytes \<Rightarrow> bool" where
  "laid f om oc oe M C E \<longleftrightarrow> dnmSmall f \<and> placed f om M \<and> placed f oc C \<and> placed f oe E"

definition entriesOf :: "bytes \<Rightarrow> Entry list" where
  "entriesOf E = map decodeEntryRecord (records 45 E)"

lemma length_entriesOf [simp]: "length (entriesOf E) = length E div 45"
  by (simp add: entriesOf_def length_records)

lemma laid_small:
  assumes "laid f om oc oe M C E"
  shows "length M \<le> 70368744177664" "length C \<le> 70368744177664" "length E \<le> 70368744177664"
    "om \<le> 70368744177664" "oc \<le> 70368744177664" "oe + length E \<le> 70368744177664"
  using assms by (auto simp: laid_def placed_def dnmSmall_def)

lemma readMetadata_laid:
  assumes "laid f om oc oe M C E" "decodeMetadata M = Inr b"
  shows "readMetadata (readerOf f om oc oe M C nc E) = Inr b"
proof -
  have "unat (of_nat (length M) :: u64) = length M" using laid_small(1) [OF assms(1)] by (simp add: unat_of_nat_u64)
  moreover have "placed f om M" "dnmSmall f" using assms(1) by (simp_all add: laid_def)
  ultimately show ?thesis
    using assms laid_small(1) [OF assms(1)] placed_seek [of f om M]
    by (simp add: readMetadata_def readerOf_def maxAlloc_def readFull_append)
qed

lemma catalog_counts:
  assumes "laid f om oc oe M (catalogBytes fs) E" "\<forall>fe \<in> set fs. fileOK fe"
  shows "length fs < 18446744073709551616" "length fs * 216 \<le> 281474976710656"
  using catalogBytes_length [OF assms(2)] laid_small(2) [OF assms(1)] by linarith+

lemma readAllCatalog_laid:
  assumes "laid f om oc oe M (catalogBytes fs) E" "\<forall>fe \<in> set fs. fileOK fe"
  shows "readAllCatalog (readerOf f om oc oe M (catalogBytes fs) (of_nat (length fs)) E) = Inr (map storedFile fs)"
proof -
  have "placed f oc (catalogBytes fs)" "dnmSmall f" using assms(1) by (simp_all add: laid_def)
  from placed_seek [OF this] catalog_counts [OF assms] show ?thesis
    by (simp add: readAllCatalog_def readerOf_def u64_zero_iff unat_of_nat_u64 maxAlloc_def sizeofFileEntry_def
        readRecords_written [OF assms(2)])
qed

lemma StreamCatalog_laid:
  assumes "laid f om oc oe M (catalogBytes fs) E" "\<forall>fe \<in> set fs. fileOK fe"
  shows "StreamCatalog (readerOf f om oc oe M (catalogBytes fs) (of_nat (length fs)) E) visit s =
    (None, visitAll visit (map storedFile fs) s)"
proof -
  have "placed f oc (catalogBytes fs)" "dnmSmall f" using assms(1) by (simp_all add: laid_def)
  from placed_seek [OF this] catalog_counts [OF assms] show ?thesis
    by (simp add: StreamCatalog_def readerOf_def u64_zero_iff unat_of_nat_u64 inMemory.visit_written [OF refl assms(2)])
qed

lemma readAllEntries_laid:
  assumes "laid f om oc oe M C E"
  shows "readAllEntries (readerOf f om oc oe M C nc E) = Inr (entriesOf E)"
proof -
  have "placed f oe E" "dnmSmall f" using assms by (simp_all add: laid_def)
  note seek = placed_seek [OF this]
  have small: "length E div 45 < 18446744073709551616" "length E div 45 * 56 \<le> 281474976710656"
    using laid_small(3) [OF assms] by (auto intro: le_less_trans [OF div_le_dividend])
  show ?thesis
  proof (cases "length E div 45 = 0")
    case True
    then have "length E < 45" by simp
    with True show ?thesis by (simp add: readAllEntries_def readerOf_def entriesOf_def)
  next
    case False
    then show ?thesis
      using small readEntryRecords_take [OF length_div_45, of E "drop (oe + length E) f"] length_records [of 45 E]
      by (simp add: readAllEntries_def readerOf_def u64_zero_iff unat_of_nat_u64 seek maxAlloc_def sizeofEntry_def entriesOf_def)
  qed
qed

lemma placed_entry:
  assumes "placed f oe E" "dnmSmall f" "a \<le> b" "b \<le> length E div 45"
  shows "seekTo f (i64 (sint (of_nat oe :: u64) + i64 (sint (of_nat a :: u64) * int EntryRecordSize))) =
     Inr (take ((b - a) * 45) (drop (a * 45) E) @ drop (oe + b * 45) f)"
proof -
  have b: "b * 45 \<le> length E" using assms(4) length_div_45 [of E] by linarith
  have le: "oe + length E \<le> 70368744177664" using assms(1,2) by (simp add: placed_def dnmSmall_def)
  have "sint (of_nat oe :: u64) = int oe" "sint (of_nat a :: u64) = int a"
    using b le assms(3) by (auto intro!: sint_of_nat_small)
  moreover have "i64 (int a * 45) = int a * 45" "i64 (int oe + int a * 45) = int oe + int a * 45"
    using b le assms(3) by (auto intro!: i64_id)
  moreover have "drop (oe + a * 45) f = take ((b - a) * 45) (drop (a * 45) E) @ drop (oe + b * 45) f"
  proof -
    obtain pre post where f: "f = pre @ E @ post" "length pre = oe" using assms(1) by (rule placedE)
    have "a * 45 + (b - a) * 45 = b * 45" using assms(3) by (simp flip: add_mult_distrib)
    then have "drop (a * 45) E = take ((b - a) * 45) (drop (a * 45) E) @ drop (b * 45) E"
      using append_take_drop_id [of "(b - a) * 45" "drop (a * 45) E"] by (simp add: add.commute)
    moreover have "a * 45 \<le> length E" using b assms(3) by linarith
    ultimately show ?thesis using b by (simp add: f)
  qed
  moreover have "nat (int oe + int a * 45) = oe + a * 45" by linarith
  ultimately show ?thesis by (simp add: seekTo_def EntryRecordSize_def)
qed

lemma records_take_drop:
  assumes "b * 45 \<le> length E" "a \<le> b"
  shows "records 45 (take ((b - a) * 45) (drop (a * 45) E)) = take (b - a) (drop a (records 45 E))"
proof (rule nth_equalityI)
  let ?X = "take ((b - a) * 45) (drop (a * 45) E)"
  have X: "length ?X = (b - a) * 45" using assms by (simp add: diff_mult_distrib)
  have n: "b \<le> length E div 45" using assms(1) by (simp add: less_eq_div_iff_mult_less_eq)
  show len: "length (records 45 ?X) = length (take (b - a) (drop a (records 45 E)))"
    unfolding length_take length_drop length_records [OF zero_less_numeral] X using n by simp
  fix i assume "i < length (records 45 ?X)"
  then have i: "i < b - a" by (simp only: length_records [OF zero_less_numeral] X)
  then have "Suc i * 45 \<le> (b - a) * 45" "Suc (a + i) * 45 \<le> b * 45" by (intro mult_le_mono1; simp)+
  then have "Suc i * 45 \<le> length ?X" "Suc (a + i) * 45 \<le> length E" using X assms(1) by linarith+
  then have "records 45 ?X ! i = take 45 (drop (i * 45) ?X)" "records 45 E ! (a + i) = take 45 (drop ((a + i) * 45) E)"
    by (simp_all only: records_nth [OF zero_less_numeral])
  moreover have "take 45 (drop (i * 45) ?X) = take 45 (drop ((a + i) * 45) E)"
    using \<open>Suc i * 45 \<le> (b - a) * 45\<close> by (simp add: drop_take add_mult_distrib add.commute min_absorb1)
  ultimately show "records 45 ?X ! i = take (b - a) (drop a (records 45 E)) ! i"
    using i n by (simp add: length_records)
qed

lemma EntriesRange_laid:
  assumes "laid f om oc oe M C E" "a \<le> b" "b \<le> length E div 45"
  shows "EntriesRange (readerOf f om oc oe M C nc E) (of_nat a) (of_nat b) = Inr (take (b - a) (drop a (entriesOf E)))"
proof (cases "a = b")
  case True
  then show ?thesis by (simp add: EntriesRange_def)
next
  case False
  have E: "length E \<le> 70368744177664" by (rule laid_small(3) [OF assms(1)])
  have b45: "b * 45 \<le> length E" using assms(3) length_div_45 [of E] by linarith
  have u: "unat (of_nat a :: u64) = a" "unat (of_nat b :: u64) = b" "unat (of_nat (length E div 45) :: u64) = length E div 45"
    using E b45 assms(2) by (auto intro!: unat_of_nat_u64 intro: le_less_trans [OF div_le_dividend])
  have le: "\<not> (of_nat b :: u64) \<le> of_nat a" "\<not> of_nat (length E div 45) < (of_nat b :: u64)"
    unfolding word_le_nat_alt word_less_nat_alt u using False assms(2,3) by simp_all
  have cnt: "(of_nat b :: u64) - of_nat a = of_nat (b - a)" using assms(2) by (simp add: of_nat_diff)
  have "(b - a) * 45 \<le> length E" using b45 by linarith
  then have sz: "unat (of_nat (b - a) * of_nat 45 :: u64) = (b - a) * 45" "unat (of_nat (b - a) :: u64) = b - a"
    using E by (simp_all only: of_nat_mult [symmetric], intro unat_of_nat_u64, simp_all add: unat_of_nat_u64)
  have lenX: "length (take ((b - a) * 45) (drop (a * 45) E)) = (b - a) * 45" using b45 assms(2) by (simp add: diff_mult_distrib)
  have "placed f oe E" "dnmSmall f" using assms(1) by (simp_all add: laid_def)
  note seek = placed_entry [OF this assms(2,3), unfolded EntryRecordSize_def]
  show ?thesis
    using \<open>(b - a) * 45 \<le> length E\<close> E
    by (simp only: EntriesRange_def readerOf_def DNMReader.simps sectionInfo.simps le if_False Let_def cnt EntryRecordSize_def seek
        sum.case sz readFull_append [OF lenX] prod.case maxAlloc_def sizeofEntry_def)
      (simp add: records_take_drop [OF b45 assms(2)] entriesOf_def take_map drop_map)
qed

lemma EntryAt_laid:
  assumes "laid f om oc oe M C E" "i < 18446744073709551616"
  shows "EntryAt (readerOf f om oc oe M C nc E) (of_nat i) = (if i < length E div 45 then Inr (entriesOf E ! i) else Inl DnmRange)"
proof -
  have E: "length E \<le> 70368744177664" by (rule laid_small(3) [OF assms(1)])
  have u: "unat (of_nat i :: u64) = i" "unat (of_nat (length E div 45) :: u64) = length E div 45"
    using E assms(2) by (auto intro!: unat_of_nat_u64 intro: le_less_trans [OF div_le_dividend])
  have le: "(of_nat (length E div 45) :: u64) \<le> of_nat i \<longleftrightarrow> length E div 45 \<le> i"
    unfolding word_le_nat_alt u ..
  show ?thesis
  proof (cases "i < length E div 45")
    case True
    have "placed f oe E" "dnmSmall f" using assms(1) by (simp_all add: laid_def)
    note seek = placed_entry [OF this, of i "Suc i"]
    have i45: "Suc i * 45 \<le> length E" using True length_div_45 [of E] by (metis Suc_leI le_trans mult_le_mono1)
    then have len: "length (take 45 (drop (i * 45) E)) = 45" by simp
    have "records 45 E ! i = take 45 (drop (i * 45) E)" using i45 by (rule records_nth [OF zero_less_numeral])
    with True seek show ?thesis
      by (simp add: EntryAt_def readerOf_def le EntryRecordSize_def readFull_append [OF len] entriesOf_def length_records)
  next
    case False
    then show ?thesis by (simp add: EntryAt_def readerOf_def le)
  qed
qed


section \<open>Ranged reads\<close>

text \<open>
  The contract of a range-read primitive over an object: a range within the object is
  served in full.
\<close>

definition serves :: "bytes \<Rightarrow> RangeReadFunc \<Rightarrow> bool" where
  "serves f readRange \<longleftrightarrow> (\<forall>off n. 0 \<le> off \<and> 0 \<le> n \<and> off + n \<le> int (length f) \<longrightarrow>
     readRange off n = Some (take (nat n) (drop (nat off) f)))"

definition rs_repr :: "RangeReadFunc \<Rightarrow> bytes \<Rightarrow> rangeSectionReader \<Rightarrow> bytes \<Rightarrow> bool" where
  "rs_repr readRange f r bs \<longleftrightarrow> serves f readRange \<and> 0 \<le> rs_off r \<and> rs_off r \<le> rs_end r \<and> rs_end r \<le> int (length f) \<and> 0 < rs_window r \<and>
     bs = rs_buf r @ take (nat (rs_end r - rs_off r)) (drop (nat (rs_off r)) f)"

lemma rs_take:
  assumes "rs_repr readRange f r bs" "rs_buf r \<noteq> []" "0 < n"
  shows "take n (rs_buf r) \<noteq> []" "length (take n (rs_buf r)) \<le> n" "take n (rs_buf r) = take (length (take n (rs_buf r))) bs"
    "rs_repr readRange f (r\<lparr> rs_buf := drop n (rs_buf r) \<rparr>) (drop (length (take n (rs_buf r))) bs)"
  using assms by (auto simp: rs_repr_def min_def)

lemma take_take_drop: "k \<le> m \<Longrightarrow> take k xs @ take (m - k) (drop k xs) = take m xs"
  using take_add [of k "m - k" xs] by simp

lemma rs_fill:
  assumes "rs_repr readRange f r bs" "rs_buf r = []" "bs \<noteq> []"
  obtains b where "b \<noteq> []" "rs_repr readRange f (r\<lparr> rs_off := rs_off r + int (length b), rs_buf := b \<rparr>) bs"
    "\<And>n. rs_Read readRange n r = Inr (take n b, r\<lparr> rs_off := rs_off r + int (length b), rs_buf := drop n b \<rparr>)"
proof -
  define m where "m = nat (min (rs_window r) (rs_end r - rs_off r))"
  define o' e' where "o' = nat (rs_off r)" and "e' = nat (rs_end r)"
  have r: "0 \<le> rs_off r" "rs_end r \<le> int (length f)" "0 < rs_window r" "serves f readRange"
    and bs: "bs = take (nat (rs_end r - rs_off r)) (drop (nat (rs_off r)) f)"
    using assms(1,2) by (simp_all add: rs_repr_def)
  have lt: "rs_off r < rs_end r" using assms(3) bs by (auto simp: not_less)
  then have n: "min (rs_window r) (rs_end r - rs_off r) = int m" "0 < m" using r(3) by (auto simp: m_def)
  have oe: "rs_off r = int o'" "rs_end r = int e'" using r(1) lt by (simp_all add: o'_def e'_def)
  have le: "o' + m \<le> e'" "e' \<le> length f" using n(1) r(2) unfolding oe by linarith+
  let ?b = "take m (drop o' f)"
  have len: "length ?b = m" using le by simp
  have read: "readRange (rs_off r) (int m) = Some ?b" using r(4) le unfolding serves_def oe by simp
  have "bs = ?b @ take (e' - (o' + m)) (drop (o' + m) f)"
    using take_take_drop [of m "e' - o'" "drop o' f"] le unfolding bs oe by (simp add: add.commute nat_diff_distrib)
  then have repr: "rs_repr readRange f (r\<lparr> rs_off := rs_off r + int (length ?b), rs_buf := ?b \<rparr>) bs"
    using r le by (simp add: rs_repr_def oe len nat_diff_distrib)
      (metis nat_int_add of_nat_add nat_int of_nat_diff)
  have "rs_Read readRange k r = Inr (take k ?b, r\<lparr> rs_off := rs_off r + int (length ?b), rs_buf := drop k ?b \<rparr>)" for k
    using lt len n(2) assms(2) by (simp add: rs_Read_def n(1) read Let_def)
  moreover have "?b \<noteq> []" using len n(2) by auto
  ultimately show thesis using that [OF _ repr] by blast
qed

lemma rs_Read_repr:
  assumes "rs_repr readRange f r bs" "bs \<noteq> []" "0 < n"
  obtains as r' where "rs_Read readRange n r = Inr (as, r')" "as \<noteq> []" "length as \<le> n" "as = take (length as) bs"
    "rs_repr readRange f r' (drop (length as) bs)"
proof (cases "rs_buf r = []")
  case False
  then have "rs_Read readRange n r = Inr (take n (rs_buf r), r\<lparr> rs_buf := drop n (rs_buf r) \<rparr>)" by (simp add: rs_Read_def)
  then show thesis using rs_take [OF assms(1) False assms(3)] by (rule that)
next
  case True
  then obtain b where b: "b \<noteq> []" "rs_repr readRange f (r\<lparr> rs_off := rs_off r + int (length b), rs_buf := b \<rparr>) bs"
    "rs_Read readRange n r = Inr (take n b, r\<lparr> rs_off := rs_off r + int (length b), rs_buf := drop n b \<rparr>)"
    using rs_fill [OF assms(1) _ assms(2)] by metis
  then show thesis using that [OF b(3)] rs_take [OF b(2) _ assms(3)] by simp
qed

lemma rs_full_repr:
  assumes "rs_repr readRange f r bs" "n \<le> length bs"
  shows "\<exists>r'. rs_full readRange n acc r = Inr (acc @ take n bs, r') \<and> rs_repr readRange f r' (drop n bs)"
  using assms
proof (induction n arbitrary: acc r bs rule: less_induct)
  case (less n)
  show ?case
  proof (cases "n = 0")
    case True
    then show ?thesis using less.prems by (simp add: rs_full.simps)
  next
    case False
    with less.prems have "bs \<noteq> []" by auto
    with less.prems False obtain as r' where r': "rs_Read readRange n r = Inr (as, r')" "as \<noteq> []" "length as \<le> n"
      "as = take (length as) bs" "rs_repr readRange f r' (drop (length as) bs)"
      by (metis rs_Read_repr neq0_conv)
    have "n - length as < n" "n - length as \<le> length (drop (length as) bs)" using r'(2,3) less.prems(2) False by auto
    from less.IH [OF this(1) r'(5) this(2), of "acc @ as"] obtain r'' where r'':
      "rs_full readRange (n - length as) (acc @ as) r' = Inr (acc @ as @ take (n - length as) (drop (length as) bs), r'')"
      "rs_repr readRange f r'' (drop (n - length as) (drop (length as) bs))" by auto
    have "as @ take (n - length as) (drop (length as) bs) = take n bs"
      using take_take_drop [OF r'(3), of bs] r'(4) by simp
    moreover have "rs_full readRange n acc r = rs_full readRange (n - length as) (acc @ as) r'"
      using False r'(1,2) by (subst rs_full.simps) simp
    ultimately show ?thesis using r'' r'(3) by simp
  qed
qed

interpretation ranged: byte_source "\<lambda>n. rs_full readRange n []" "rs_repr readRange f" for readRange f
  by unfold_locales (use rs_full_repr [where acc = "[]"] in simp)

lemma findCatalog_sections:
  "findCatalog 0 3 (sectionIndexes om oc oe M C nc E) noSection =
     Inr \<lparr> si_typ = sectionCatalog, si_offset = of_nat oc, si_length = of_nat (length C), si_count = nc \<rparr>"
  by (simp add: numeral_3_eq_3 sectionIndexes_def sectionAt_def sectionIndexSize_def Let_def
      sectionMetadata_def sectionCatalog_def sectionEntries_def)

lemma serves_at:
  assumes "serves f readRange" "placed f off X" "n = int (length X)" "o' = int off"
  shows "readRange o' n = Some X"
  using assms unfolding serves_def placed_def by simp

lemma locate_sections:
  assumes "f = encodeHeader off @ rest" "serves f readRange" "dnmSmall f"
    "indexOffsetRanged (int (length f)) readRange (encodeHeader off) = Inr (of_nat p)"
    "placed f p (sectionIndexes om oc oe M C nc E)" "placed f oc C"
  shows "locateCatalogRanged (int (length f)) readRange =
     Inr \<lparr> si_typ = sectionCatalog, si_offset = of_nat oc, si_length = of_nat (length C), si_count = nc \<rparr>"
proof -
  let ?idx = "sectionIndexes om oc oe M C nc E"
  have "placed ([] @ encodeHeader off @ rest) 0 (encodeHeader off)" by (rule placed_append) simp
  then have hdr: "readRange 0 (int fileHeaderSize) = Some (encodeHeader off)"
    using assms(1,2) by (intro serves_at [where off = 0]) (simp_all add: fileHeaderSize_def)
  have small: "length f \<le> 70368744177664" using assms(3) by (simp add: dnmSmall_def)
  have p: "p + 108 \<le> length f" "oc + length C \<le> length f" using assms(5,6) by (simp_all add: placed_def)
  have s: "sint (of_nat p :: u64) = int p" "sint (of_nat oc :: u64) = int oc" "sint (of_nat (length C) :: u64) = int (length C)"
    using p small by (auto intro!: sint_of_nat_small)
  have i: "i64 (int p + 108) = int p + 108" "i64 (int oc + int (length C)) = int oc + int (length C)"
    using p small by (auto intro!: i64_id)
  have "readRange (int p) 108 = Some ?idx" by (rule serves_at [OF assms(2,5)]) simp_all
  moreover have "\<not> int (length f) < int fileHeaderSize" by (simp add: assms(1) fileHeaderSize_def)
  moreover have "\<not> (length (encodeHeader off) < fileHeaderSize \<or> bslice 0 8 (encodeHeader off) \<noteq> dnmMagic)"
    unfolding header_fields by (simp add: fileHeaderSize_def)
  ultimately show ?thesis
    using p
    by (simp only: locateCatalogRanged_def hdr option.case header_fields if_False assms(4) sum.case Let_def sectionIndexSize_def s)
      (simp add: i s findCatalog_sections)
qed

lemma StreamCatalogRanged_laid:
  assumes "locateCatalogRanged (int (length f)) readRange =
     Inr \<lparr> si_typ = sectionCatalog, si_offset = of_nat oc, si_length = of_nat (length (catalogBytes fs)), si_count = of_nat (length fs) \<rparr>"
    "serves f readRange" "laid f om oc oe M (catalogBytes fs) E" "\<forall>fe \<in> set fs. fileOK fe"
  shows "StreamCatalogRanged (int (length f)) readRange visit s = (None, visitAll visit (map storedFile fs) s)"
proof (cases "fs = []")
  case True
  then show ?thesis using assms(1) by (simp add: StreamCatalogRanged_def)
next
  case False
  let ?C = "catalogBytes fs"
  have pl: "placed f oc ?C" and small: "length f \<le> 70368744177664" using assms(3) by (simp_all add: laid_def dnmSmall_def)
  have oc: "oc + length ?C \<le> length f" using pl by (simp add: placed_def)
  have s: "sint (of_nat oc :: u64) = int oc" "sint (of_nat (length ?C) :: u64) = int (length ?C)"
    "i64 (int oc + int (length ?C)) = int oc + int (length ?C)"
    using oc small by (auto intro!: sint_of_nat_small i64_id)
  have "rs_repr readRange f \<lparr> rs_off = int oc, rs_end = int oc + int (length ?C), rs_window = catalogRangeWindow, rs_buf = [] \<rparr> (?C @ [])"
    using pl assms(2) by (simp add: rs_repr_def catalogRangeWindow_def placed_def)
  then show ?thesis
    using False assms(1) catalog_counts [OF assms(3,4)] ranged.visit_written [OF _ assms(4), of readRange f _ "[]" visit s]
    by (simp add: StreamCatalogRanged_def s u64_zero_iff unat_of_nat_u64)
qed

lemma indexOffsetRanged_classic:
  assumes "0 < n" "n < 18446744073709551616"
  shows "indexOffsetRanged sz readRange (encodeHeader (of_nat n)) = Inr (of_nat n)"
  using u64_zero_iff [OF assms(2)] assms(1) by (simp add: indexOffsetRanged_def header_fields Let_def)


section \<open>What the writers produce\<close>

lemma laid_classicFile:
  assumes "dnmSmall (classicFile M C nc E)"
  shows "laid (classicFile M C nc E) 32 (32 + length M) (32 + length M + length C) M C E"
proof -
  let ?h = "encodeHeader (of_nat (32 + length M + length C + length E))"
  let ?i = "sectionIndexes 32 (32 + length M) (32 + length M + length C) M C nc E"
  have "placed (?h @ M @ C @ E @ ?i) 32 M" by (rule placed_append) simp
  moreover have "placed ((?h @ M) @ C @ E @ ?i) (32 + length M) C" by (rule placed_append) simp
  moreover have "placed ((?h @ M @ C) @ E @ ?i) (32 + length M + length C) E" by (rule placed_append) simp
  ultimately show ?thesis using assms by (simp add: laid_def classicFile_def)
qed

lemma laid_streamedFile:
  assumes "dnmSmall (streamedFile M C nc E)"
  shows "laid (streamedFile M C nc E) (32 + length E) (32 + length E + length M) 32 M C E"
proof -
  let ?h = "encodeHeader 0"
  let ?i = "sectionIndexes (32 + length E) (32 + length E + length M) 32 M C nc E @ put64 (of_nat (32 + length E + length M + length C))"
  have "placed (?h @ E @ M @ C @ ?i) 32 E" by (rule placed_append) simp
  moreover have "placed ((?h @ E) @ M @ C @ ?i) (32 + length E) M" by (rule placed_append) simp
  moreover have "placed ((?h @ E @ M) @ C @ ?i) (32 + length E + length M) C" by (rule placed_append) simp
  ultimately show ?thesis using assms by (simp add: laid_def streamedFile_def)
qed

lemma ranged_classicFile:
  assumes "dnmSmall (classicFile M C nc E)" "serves (classicFile M C nc E) readRange"
  shows "locateCatalogRanged (int (length (classicFile M C nc E))) readRange =
     Inr \<lparr> si_typ = sectionCatalog, si_offset = of_nat (32 + length M), si_length = of_nat (length C), si_count = nc \<rparr>"
proof (rule locate_sections [where p = "32 + length M + length C + length E"])
  let ?i = "sectionIndexes 32 (32 + length M) (32 + length M + length C) M C nc E"
  let ?h = "encodeHeader (of_nat (32 + length M + length C + length E))"
  show "classicFile M C nc E = ?h @ M @ C @ E @ ?i" by (simp add: classicFile_def)
  have "placed ((?h @ M @ C @ E) @ ?i @ []) (32 + length M + length C + length E) ?i" by (rule placed_append) simp
  then show "placed (classicFile M C nc E) (32 + length M + length C + length E) ?i" by (simp add: classicFile_def)
  show "indexOffsetRanged (int (length (classicFile M C nc E))) readRange ?h = Inr (of_nat (32 + length M + length C + length E))"
    using assms(1) by (intro indexOffsetRanged_classic) (simp_all add: dnmSmall_def classicFile_def)
qed (use assms laid_classicFile [OF assms(1)] in \<open>simp_all add: laid_def\<close>)

lemma ranged_streamedFile:
  assumes "dnmSmall (streamedFile M C nc E)" "serves (streamedFile M C nc E) readRange"
  shows "locateCatalogRanged (int (length (streamedFile M C nc E))) readRange =
     Inr \<lparr> si_typ = sectionCatalog, si_offset = of_nat (32 + length E + length M), si_length = of_nat (length C), si_count = nc \<rparr>"
proof (rule locate_sections [where p = "32 + length E + length M + length C"])
  let ?n = "32 + length E + length M + length C"
  let ?i = "sectionIndexes (32 + length E) (32 + length E + length M) 32 M C nc E"
  let ?f = "streamedFile M C nc E"
  show "?f = encodeHeader 0 @ E @ M @ C @ ?i @ put64 (of_nat ?n)" by (simp add: streamedFile_def)
  have "placed ((encodeHeader 0 @ E @ M @ C) @ ?i @ put64 (of_nat ?n)) ?n ?i" by (rule placed_append) simp
  then show "placed ?f ?n ?i" by (simp add: streamedFile_def)
  have len: "length ?f = ?n + 116" by (simp add: streamedFile_def)
  have "placed ((encodeHeader 0 @ E @ M @ C @ ?i) @ put64 (of_nat ?n) @ []) (?n + 108) (put64 (of_nat ?n))"
    by (rule placed_append) simp
  then have "placed ?f (?n + 108) (put64 (of_nat ?n))" by (simp add: streamedFile_def)
  from serves_at [OF assms(2) this, of 8 "int (length ?f) - 8"] have "readRange (int (length ?f) - 8) 8 = Some (put64 (of_nat ?n))"
    by (simp add: len)
  moreover have "(of_nat ?n :: u64) = of_int (int (length ?f)) - 8 - of_nat 3 * of_nat sectionIndexSize"
    unfolding len by (simp add: sectionIndexSize_def)
  ultimately show "indexOffsetRanged (int (length ?f)) readRange (encodeHeader 0) = Inr (of_nat ?n)"
    by (simp add: indexOffsetRanged_def header_fields Let_def)
qed (use assms laid_streamedFile [OF assms(1)] in \<open>simp_all add: laid_def\<close>)

definition entrySection :: "Backup \<Rightarrow> bytes option \<Rightarrow> bytes" where
  "entrySection b sidecar =
     (if b_Entries b \<noteq> [] then concat (map encodeEntryRecord (b_Entries b)) else case sidecar of None \<Rightarrow> [] | Some sf \<Rightarrow> sf)"

lemma writeEntriesSection_bytes:
  assumes "\<forall>e \<in> set (b_Entries b). entryOK e" "length (entrySection b sidecar) < 18446744073709551616"
  shows "writeEntriesSection b sidecar =
    (entrySection b sidecar, of_nat (length (entrySection b sidecar) div 45), of_nat (length (entrySection b sidecar)))"
proof (cases "b_Entries b = []")
  case True
  then show ?thesis using assms(2) of_nat_div_u64 [of "length (entrySection b sidecar)" 45]
    by (simp add: writeEntriesSection_def entrySection_def EntryRecordSize_def split: option.splits)
next
  case False
  then show ?thesis using entries.array_length [OF assms(1)]
    by (simp add: writeEntriesSection_def entrySection_def EntryRecordSize_def Let_def)
qed

text \<open>The catalog a backup is saved with: in memory, or in the sidecar file it was written to before.\<close>

definition catalogSource :: "Backup \<Rightarrow> FileEntry list \<Rightarrow> bool" where
  "catalogSource b fs \<longleftrightarrow> (case b_CatalogSidecar b of None \<Rightarrow> b_FileCatalog b = fs | Some sc \<Rightarrow> sc = snd (WriteCatalogSidecar fs))"

lemma streamCatalogSidecar_written:
  "streamCatalogSidecar (snd (WriteCatalogSidecar fs)) = Inr (of_nat (length fs), catalogBytes fs)"
  by (simp add: streamCatalogSidecar_def WriteCatalogSidecar_def pwrite_def readFull_append)

lemma writeDNM_classic:
  assumes "\<forall>e \<in> set (b_Entries b). entryOK e" "catalogSource b fs"
    "dnmSmall (classicFile (encodeMetadata b) (catalogBytes fs) (of_nat (length fs)) (entrySection b sidecar))"
  shows "writeDNM b sidecar = Inr (classicFile (encodeMetadata b) (catalogBytes fs) (of_nat (length fs)) (entrySection b sidecar))"
proof -
  have len: "length (entrySection b sidecar) < 18446744073709551616" using assms(3) by (simp add: dnmSmall_def classicFile_def)
  have cat: "(case b_CatalogSidecar b of Some sc \<Rightarrow> streamCatalogSidecar sc
      | None \<Rightarrow> Inr (of_nat (length (b_FileCatalog b)), catalogBytes (b_FileCatalog b))) = Inr (of_nat (length fs), catalogBytes fs)"
    using assms(2) by (simp add: catalogSource_def streamCatalogSidecar_written split: option.splits)
  have "pwrite (replicate 32 0 @ X) 0 (encodeHeader off) = encodeHeader off @ X" for X off
    by (simp add: pwrite_def)
  then show ?thesis
    unfolding writeDNM_def Let_def cat sum.case prod.case writeEntriesSection_bytes [OF assms(1) len]
    by (simp add: classicFile_def sectionIndexes_def fileHeaderSize_def)
qed

lemma loadDNM_laid:
  assumes "OpenDNMReader f = Inr (readerOf f om oc oe M (catalogBytes fs) (of_nat (length fs)) E)"
    "laid f om oc oe M (catalogBytes fs) E" "decodeMetadata M = Inr b" "\<forall>fe \<in> set fs. fileOK fe"
  shows "loadDNM f = Inr (b\<lparr> b_FileCatalog := map storedFile fs, b_Entries := entriesOf E \<rparr>)"
proof -
  let ?r = "readerOf f om oc oe M (catalogBytes fs) (of_nat (length fs)) E"
  have n: "si_count (dr_catalog ?r) = of_nat (length fs)" by (simp add: readerOf_def)
  have "(if 0 < si_count (dr_catalog ?r) then readAllCatalog ?r else Inr []) = Inr (map storedFile fs)"
  proof (cases "fs = []")
    case True
    then show ?thesis unfolding n by simp
  next
    case False
    then have "0 < (of_nat (length fs) :: u64)"
      using u64_zero_iff [of "length fs"] catalog_counts [OF assms(2,4)] unfolding word_neq_0_conv [symmetric] by simp
    then show ?thesis unfolding n using readAllCatalog_laid [OF assms(2,4)] by (simp only: if_True)
  qed
  then show ?thesis
    by (simp add: loadDNM_def assms(1) readMetadata_laid [OF assms(2,3)] readAllEntries_laid [OF assms(2)])
qed


section \<open>Streaming in parts\<close>

fun ds_WriteAll :: "(nat \<Rightarrow> bytes \<Rightarrow> bool) \<Rightarrow> Entry list \<Rightarrow> DNMStreamer \<Rightarrow> dnm_err option \<times> DNMStreamer" where
  "ds_WriteAll sink [] d = (None, d)"
| "ds_WriteAll sink (e # es) d =
     (case ds_WriteEntry sink e d of (None, d') \<Rightarrow> ds_WriteAll sink es d' | (Some err, d') \<Rightarrow> (Some err, d'))"

definition ds_inv :: "int \<Rightarrow> Entry list \<Rightarrow> DNMStreamer \<Rightarrow> bool" where
  "ds_inv w es d \<longleftrightarrow> \<not> ds_finished d \<and> ds_window d = w \<and> concat (ds_parts d) @ ds_buf d = encodeHeader 0 @ concat (map encodeEntryRecord es) \<and>
     ds_entriesLen d = of_nat (45 * length es) \<and> ds_count d = of_nat (length es) \<and>
     int (ds_Buffered d) < max w 33 \<and> (\<forall>p \<in> set (ds_parts d). w \<le> int (length p) \<and> int (length p) < max w 33 + 45)"

lemma ds_inv_new: "ds_inv w [] (NewDNMStreamer w)"
  by (simp add: ds_inv_def NewDNMStreamer_def ds_Buffered_def)

lemma ds_inv_append:
  assumes "ds_inv w es d" "length (encodeEntryRecord e) = 45"
    "ds_buf d @ encodeEntryRecord e = concat ps @ buf" "\<forall>p \<in> set ps. w \<le> int (length p) \<and> int (length p) < max w 33 + 45"
    "int (length buf) < max w 33"
  shows "ds_inv w (es @ [e]) (d\<lparr> ds_buf := buf, ds_entriesLen := ds_entriesLen d + 45, ds_count := ds_count d + 1,
    ds_parts := ds_parts d @ ps \<rparr>)"
proof -
  have "concat (ds_parts d) @ ds_buf d = encodeHeader 0 @ concat (map encodeEntryRecord es)"
    using assms(1) by (simp add: ds_inv_def)
  then have "concat (ds_parts d) @ ds_buf d @ encodeEntryRecord e = encodeHeader 0 @ concat (map encodeEntryRecord es) @ encodeEntryRecord e"
    by (metis append_assoc)
  then have "concat (ds_parts d @ ps) @ buf = encodeHeader 0 @ concat (map encodeEntryRecord (es @ [e]))"
    unfolding assms(3) by simp
  then show ?thesis using assms(1,4,5) by (auto simp: ds_inv_def ds_Buffered_def)
qed

lemma ds_WriteEntry_inv:
  assumes "ds_inv w es d" "entryOK e" "\<forall>n p. sink n p"
  obtains d' where "ds_WriteEntry sink e d = (None, d')" "ds_inv w (es @ [e]) d'"
proof -
  let ?r = "encodeEntryRecord e"
  have r: "length ?r = 45" using assms(2) by (rule entries.enc_length)
  have d: "\<not> ds_finished d" "ds_window d = w" "int (length (ds_buf d)) < max w 33"
    using assms(1) by (simp_all add: ds_inv_def ds_Buffered_def)
  show thesis
  proof (cases "w \<le> int (length (ds_buf d) + 45)")
    case True
    have "ds_WriteEntry sink e d = (None, d\<lparr> ds_buf := [], ds_entriesLen := ds_entriesLen d + 45, ds_count := ds_count d + 1,
        ds_parts := ds_parts d @ [ds_buf d @ ?r] \<rparr>)"
      using d True assms(3) by (simp add: ds_WriteEntry_def Let_def ds_sink_def r EntryRecordSize_def)
    moreover have "int (length (ds_buf d @ ?r)) < max w 33 + 45" using d(3) r by simp
    ultimately show thesis
      using ds_inv_append [OF assms(1) r, of "[ds_buf d @ ?r]" "[]"] True r by (intro that) auto
  next
    case False
    have "ds_WriteEntry sink e d = (None, d\<lparr> ds_buf := ds_buf d @ ?r, ds_entriesLen := ds_entriesLen d + 45,
        ds_count := ds_count d + 1, ds_parts := ds_parts d @ [] \<rparr>)"
      using d False by (simp add: ds_WriteEntry_def Let_def r EntryRecordSize_def)
    then show thesis
      using ds_inv_append [OF assms(1) r, of "[]" "ds_buf d @ ?r"] False r by (intro that) auto
  qed
qed

lemma ds_WriteAll_inv:
  assumes "ds_inv w es0 d" "\<forall>e \<in> set es. entryOK e" "\<forall>n p. sink n p"
  shows "\<exists>d'. ds_WriteAll sink es d = (None, d') \<and> ds_inv w (es0 @ es) d'"
  using assms
proof (induction es arbitrary: es0 d)
  case (Cons e es)
  from Cons.prems(2) have "entryOK e" by simp
  from Cons.prems(1) this Cons.prems(3) obtain d1 where
    d1: "ds_WriteEntry sink e d = (None, d1)" "ds_inv w (es0 @ [e]) d1" by (rule ds_WriteEntry_inv)
  from Cons.IH [OF d1(2) _ Cons.prems(3)] Cons.prems(2) show ?case by (simp add: d1(1))
qed simp

lemma ds_Finish_inv:
  assumes "ds_inv w es d" "\<forall>e \<in> set es. entryOK e" "b_CatalogSidecar b = None" "\<forall>n p. sink n p"
  obtains d' p where "ds_Finish sink b d = (None, d')" "ds_finished d'" "ds_parts d' = ds_parts d @ [p]"
    "concat (ds_parts d') = streamedFile (encodeMetadata b) (catalogBytes (b_FileCatalog b)) (of_nat (length (b_FileCatalog b)))
      (concat (map encodeEntryRecord es))"
proof -
  let ?E = "concat (map encodeEntryRecord es)" and ?M = "encodeMetadata b" and ?C = "catalogBytes (b_FileCatalog b)"
  let ?n = "32 + length ?E + length ?M + length ?C"
  let ?i = "sectionIndexes (32 + length ?E) (32 + length ?E + length ?M) 32 ?M ?C (of_nat (length (b_FileCatalog b))) ?E"
  have d: "\<not> ds_finished d" "concat (ds_parts d) @ ds_buf d = encodeHeader 0 @ ?E"
    "ds_entriesLen d = of_nat (45 * length es)" "ds_count d = of_nat (length es)"
    using assms(1) by (simp_all add: ds_inv_def)
  have E: "length ?E = 45 * length es" using entries.array_length [OF assms(2)] by simp
  let ?p = "ds_buf d @ ?M @ ?C @ ?i @ put64 (of_nat ?n)"
  let ?d = "d\<lparr> ds_finished := True, ds_buf := [], ds_parts := ds_parts d @ [?p] \<rparr>"
  have "ds_Finish sink b d = (None, ?d)"
    using d(1) assms(3,4)
    by (simp add: ds_Finish_def Let_def ds_sink_def d(3,4) fileHeaderSize_def sectionIndexes_def E)
  moreover have "concat (ds_parts ?d) = streamedFile ?M ?C (of_nat (length (b_FileCatalog b))) ?E"
    using d(2) by (simp add: streamedFile_def)
  ultimately show thesis by (intro that [of ?d ?p]) simp_all
qed

definition in_memory :: "bytes \<Rightarrow> RangeReadFunc" where
  "in_memory f off n = Some (take (nat n) (drop (nat off) f))"

lemma serves_in_memory: "serves f (in_memory f)"
  by (simp add: serves_def in_memory_def)

lemma decodeMetadata_written: "countable b \<Longrightarrow> decodeMetadata (encodeMetadata b) = Inr (storedMeta b)"
  using decodeTail_written [of b _ "[]"]
  by (simp add: countable_def decodeMetadata_def encodeMetadata_def decodeCore_written storedMeta_def)

text \<open>What a manifest with these entries and this catalog is loaded as.\<close>

definition storedBackup :: "Backup \<Rightarrow> FileEntry list \<Rightarrow> Entry list \<Rightarrow> Backup" where
  "storedBackup b fs es = (storedMeta b)\<lparr> b_FileCatalog := map storedFile fs, b_Entries := es \<rparr>"

definition savedEntries :: "Backup \<Rightarrow> bytes option \<Rightarrow> Entry list" where
  "savedEntries b sidecar = (if b_Entries b \<noteq> [] then b_Entries b else case sidecar of None \<Rightarrow> [] | Some sf \<Rightarrow> entriesOf sf)"

lemma entriesOf_section:
  "\<forall>e \<in> set (b_Entries b). entryOK e \<Longrightarrow> entriesOf (entrySection b sidecar) = savedEntries b sidecar"
  using entries.array_decode [of "b_Entries b"]
  by (simp add: entriesOf_def entrySection_def savedEntries_def split: option.split)

lemma sections_read_back:
  assumes "OpenDNMReader f = Inr (readerOf f om oc oe (encodeMetadata b) (catalogBytes fs) (of_nat (length fs)) E)"
    and laid: "laid f om oc oe (encodeMetadata b) (catalogBytes fs) E"
    and "\<forall>readRange. serves f readRange \<longrightarrow> locateCatalogRanged (int (length f)) readRange =
     Inr \<lparr> si_typ = sectionCatalog, si_offset = of_nat oc, si_length = of_nat (length (catalogBytes fs)), si_count = of_nat (length fs) \<rparr>"
    and "countable b" and fs: "\<forall>fe \<in> set fs. fileOK fe"
  shows "\<exists>r. OpenDNMReader f = Inr r \<and> loadDNM f = Inr (storedBackup b fs (entriesOf E)) \<and> readMetadata r = Inr (storedMeta b) \<and>
    readAllEntries r = Inr (entriesOf E) \<and>
    (\<forall>visit (s :: 's). StreamCatalog r visit s = (None, visitAll visit (map storedFile fs) s)) \<and>
    (\<forall>readRange visit (s :: 's). serves f readRange \<longrightarrow>
       StreamCatalogRanged (int (length f)) readRange visit s = (None, visitAll visit (map storedFile fs) s))"
proof -
  note M = decodeMetadata_written [OF assms(4)]
  have "loadDNM f = Inr (storedBackup b fs (entriesOf E))"
    using loadDNM_laid [OF assms(1) laid M fs] by (simp add: storedBackup_def)
  moreover have "StreamCatalogRanged (int (length f)) readRange visit s = (None, visitAll visit (map storedFile fs) s)"
    if "serves f readRange" for readRange visit and s :: 's
    by (rule StreamCatalogRanged_laid [OF assms(3) [rule_format, OF that] that laid fs])
  ultimately show ?thesis
    using assms(1) readMetadata_laid [OF laid M] readAllEntries_laid [OF laid] StreamCatalog_laid [OF laid fs] by auto
qed

text \<open>The sizes of a backup within which its manifest stays below 64 TiB.\<close>

definition manifestFits :: "Backup \<Rightarrow> FileEntry list \<Rightarrow> bytes \<Rightarrow> bool" where
  "manifestFits b fs E \<longleftrightarrow> countable b \<and> (\<forall>fe \<in> set fs. fileOK fe) \<and>
     length (encodeMetadata b) + length (catalogBytes fs) + length E + 148 \<le> 70368744177664"

lemma manifestFits_small:
  assumes "manifestFits b fs E"
  shows "dnmSmall (classicFile (encodeMetadata b) (catalogBytes fs) nc E)" "dnmSmall (streamedFile (encodeMetadata b) (catalogBytes fs) nc E)"
  using assms by (simp_all add: manifestFits_def dnmSmall_def classicFile_def streamedFile_def)

lemma zeroBackup_manifestFits: "manifestFits zeroBackup [] []"
  using zeroBackup_fits
  by (simp add: manifestFits_def metaFits_def catalogBytes_def)
    (simp add: encodeMetadata_def metaCore_def metaDigest_def metaExclusions_def encodeStrs_def zeroBackup_def writeStr16_def
      writeInt64_def writeUint32_def writeTimeNano_def writeStr8_def writeCount16_def writeUint16_def writeFloat64_def count16Sentinel_def)


section \<open>Properties\<close>

text \<open>
  C6: A saved manifest is read back as it was saved.  Writing a backup with its catalog (in
  memory or from the catalog sidecar) and its entries (in memory or from the entries
  sidecar) gives a file that opens and loads to the stored form of the backup; the metadata
  alone, a streamed walk over the catalog and a walk through ranged reads of the file give
  the same records, in order and up to the point where the visitor stops.
\<close>

theorem dnm_file_roundtrip:
  assumes "manifestFits b fs (entrySection b sidecar)" "catalogSource b fs" "\<forall>e \<in> set (b_Entries b). entryOK e"
  shows "\<exists>f r. writeDNM b sidecar = Inr f \<and> OpenDNMReader f = Inr r \<and>
    loadDNM f = Inr (storedBackup b fs (savedEntries b sidecar)) \<and> readMetadata r = Inr (storedMeta b) \<and>
    readAllEntries r = Inr (savedEntries b sidecar) \<and>
    (\<forall>visit (s :: 's). StreamCatalog r visit s = (None, visitAll visit (map storedFile fs) s)) \<and>
    (\<forall>readRange visit (s :: 's). serves f readRange \<longrightarrow>
       StreamCatalogRanged (int (length f)) readRange visit s = (None, visitAll visit (map storedFile fs) s))"
proof -
  let ?f = "classicFile (encodeMetadata b) (catalogBytes fs) (of_nat (length fs)) (entrySection b sidecar)"
  note small = manifestFits_small(1) [OF assms(1)]
  have M: "countable b" and fs: "\<forall>fe \<in> set fs. fileOK fe" using assms(1) by (simp_all add: manifestFits_def)
  have loc: "\<forall>readRange. serves ?f readRange \<longrightarrow> locateCatalogRanged (int (length ?f)) readRange =
     Inr \<lparr> si_typ = sectionCatalog, si_offset = of_nat (32 + length (encodeMetadata b)),
       si_length = of_nat (length (catalogBytes fs)), si_count = of_nat (length fs) \<rparr>"
    using ranged_classicFile [OF small] by (intro allI impI)
  have "writeDNM b sidecar = Inr ?f" by (rule writeDNM_classic [OF assms(3,2) small])
  moreover note sections_read_back [where ?'s = 's, OF open_classicFile [OF small] laid_classicFile [OF small] loc M fs,
      unfolded entriesOf_section [OF assms(3)]]
  ultimately show ?thesis by (elim exE) (rule exI, rule exI, rule conjI)
qed

theorem dnm_file_roundtrip_witness:
  "\<exists>f. writeDNM zeroBackup None = Inr f \<and> loadDNM f = Inr zeroBackup \<and>
     StreamCatalogRanged (int (length f)) (in_memory f) (\<lambda>n fe. (Suc n, True)) 0 = (None, 0)"
proof -
  have "manifestFits zeroBackup [] (entrySection zeroBackup None)"
    using zeroBackup_manifestFits by (simp add: entrySection_def zeroBackup_def)
  from dnm_file_roundtrip [OF this] have "\<exists>f r. writeDNM zeroBackup None = Inr f \<and> OpenDNMReader f = Inr r \<and>
      loadDNM f = Inr (storedBackup zeroBackup [] (savedEntries zeroBackup None)) \<and> serves f (in_memory f) \<and>
      (\<forall>readRange visit (s :: nat). serves f readRange \<longrightarrow>
         StreamCatalogRanged (int (length f)) readRange visit s = (None, visitAll visit (map storedFile []) s))"
    using serves_in_memory by (simp add: catalogSource_def zeroBackup_def) blast
  moreover have "storedBackup zeroBackup [] (savedEntries zeroBackup None) = zeroBackup"
    using storedMeta_fits [OF zeroBackup_fits] by (simp add: storedBackup_def savedEntries_def metaOnly_def zeroBackup_def)
  ultimately show ?thesis by auto
qed

text \<open>
  C16: Streaming a manifest in parts gives the same manifest.  Writing the entries one by one
  and finishing succeeds while the sink accepts every part; the parts in order are a file
  that loads and streams exactly as one that was saved whole.  Every part but the last has
  at least the size of the window and at most a header and one record more, and the buffer
  never holds more than that.  After it has finished, the streamer refuses both operations
  and leaves its state alone.
\<close>

theorem dnm_stream_roundtrip:
  assumes "manifestFits b (b_FileCatalog b) (concat (map encodeEntryRecord es))" "b_CatalogSidecar b = None"
    "\<forall>e \<in> set es. entryOK e" "\<forall>n p. sink n p"
  shows "\<exists>d d' p. ds_WriteAll sink es (NewDNMStreamer w) = (None, d) \<and> ds_Finish sink b d = (None, d') \<and>
    ds_parts d' = ds_parts d @ [p] \<and> int (ds_Buffered d) < max w 33 \<and>
    (\<forall>q \<in> set (ds_parts d). w \<le> int (length q) \<and> int (length q) < max w 33 + 45) \<and>
    loadDNM (concat (ds_parts d')) = Inr (storedBackup b (b_FileCatalog b) es) \<and>
    (\<forall>readRange visit (s :: 's). serves (concat (ds_parts d')) readRange \<longrightarrow>
       StreamCatalogRanged (int (length (concat (ds_parts d')))) readRange visit s =
         (None, visitAll visit (map storedFile (b_FileCatalog b)) s)) \<and>
    ds_WriteEntry sink e d' = (Some DnmFinished, d') \<and> ds_Finish sink b d' = (Some DnmFinished, d')"
proof -
  let ?E = "concat (map encodeEntryRecord es)"
  let ?f = "streamedFile (encodeMetadata b) (catalogBytes (b_FileCatalog b)) (of_nat (length (b_FileCatalog b))) ?E"
  obtain d where d: "ds_WriteAll sink es (NewDNMStreamer w) = (None, d)" "ds_inv w es d"
    using ds_WriteAll_inv [OF ds_inv_new assms(3,4), of w] by auto
  obtain d' p where d': "ds_Finish sink b d = (None, d')" "ds_finished d'" "ds_parts d' = ds_parts d @ [p]" "concat (ds_parts d') = ?f"
    by (rule ds_Finish_inv [OF d(2) assms(3,2,4)])
  note small = manifestFits_small(2) [OF assms(1)]
  have M: "countable b" and fs: "\<forall>fe \<in> set (b_FileCatalog b). fileOK fe" using assms(1) by (simp_all add: manifestFits_def)
  have E: "entriesOf ?E = es" using entries.array_decode [OF assms(3)] by (simp add: entriesOf_def)
  have loc: "\<forall>readRange. serves ?f readRange \<longrightarrow> locateCatalogRanged (int (length ?f)) readRange =
     Inr \<lparr> si_typ = sectionCatalog, si_offset = of_nat (32 + length ?E + length (encodeMetadata b)),
       si_length = of_nat (length (catalogBytes (b_FileCatalog b))), si_count = of_nat (length (b_FileCatalog b)) \<rparr>"
    using ranged_streamedFile [OF small] by (intro allI impI)
  note read = sections_read_back [where ?'s = 's, OF open_streamedFile [OF small] laid_streamedFile [OF small] loc M fs, unfolded E]
  have ranged: "\<forall>readRange visit (s :: 's). serves ?f readRange \<longrightarrow>
       StreamCatalogRanged (int (length ?f)) readRange visit s = (None, visitAll visit (map storedFile (b_FileCatalog b)) s)"
    using read by (elim exE conjE)
  have "loadDNM ?f = Inr (storedBackup b (b_FileCatalog b) es)" using read by (elim exE conjE)
  then have "loadDNM (concat (ds_parts d')) = Inr (storedBackup b (b_FileCatalog b) es)" by (simp only: d'(4))
  moreover note ranged [folded d'(4)]
  moreover have "int (ds_Buffered d) < max w 33" "\<forall>q \<in> set (ds_parts d). w \<le> int (length q) \<and> int (length q) < max w 33 + 45"
    using d(2) by (simp_all add: ds_inv_def)
  moreover have "ds_WriteEntry sink e d' = (Some DnmFinished, d')" "ds_Finish sink b d' = (Some DnmFinished, d')"
    using d'(2) by (simp_all add: ds_WriteEntry_def ds_Finish_def)
  ultimately show ?thesis using d(1) d'(1,3) by (intro exI [of _ d] exI [of _ d'] exI [of _ p] conjI)
qed

theorem dnm_stream_roundtrip_witness:
  "\<exists>d d'. ds_WriteAll (\<lambda>n p. True) [] (NewDNMStreamer 64) = (None, d) \<and> ds_Finish (\<lambda>n p. True) zeroBackup d = (None, d') \<and>
     loadDNM (concat (ds_parts d')) = Inr zeroBackup"
proof -
  have "storedBackup zeroBackup [] [] = zeroBackup"
    using storedMeta_fits [OF zeroBackup_fits] by (simp add: storedBackup_def metaOnly_def zeroBackup_def)
  moreover have "b_FileCatalog zeroBackup = []" "b_CatalogSidecar zeroBackup = None" by (simp_all add: zeroBackup_def)
  ultimately show ?thesis
    using dnm_stream_roundtrip [where ?'s = unit, of zeroBackup "[]" "\<lambda>n p. True" 64 "decodeEntryRecord (replicate 45 0)"]
      zeroBackup_manifestFits by auto
qed

end
