(* ===== verification/Entry_Access.thy ===== *)
theory Entry_Access
  imports Dnm_Correct
begin

text \<open>
  Indexed access to the entries of a backup (core/manifest/entry_accessor.go,
  entry_chain.go) and the hashes computed over it (contenthash.go).  The interface
  \<^verbatim>\<open>EntryAccessor\<close> is a record of its methods; a slice, an open manifest file and a chain of
  accessors provide it.
\<close>

section \<open>The interface and its implementations\<close>

datatype acc_err = AccRange | AccDnm dnm_err | AccNoProgress | AccPanic

record EntryAccessor =
  ea_Count :: int
  ea_At :: "int \<Rightarrow> acc_err + Entry"
  ea_Range :: "int \<Rightarrow> int \<Rightarrow> acc_err + Entry list"

definition sl_At :: "Entry list \<Rightarrow> int \<Rightarrow> acc_err + Entry" where
  "sl_At entries i = (if i < 0 \<or> int (length entries) \<le> i then Inl AccRange else Inr (entries ! nat i))"

definition sl_Range :: "Entry list \<Rightarrow> int \<Rightarrow> int \<Rightarrow> acc_err + Entry list" where
  "sl_Range entries start end' =
     (if start < 0 \<or> int (length entries) < end' \<or> end' < start then Inl AccRange
      else Inr (bslice (nat start) (nat end') entries))"

definition NewSliceEntryAccessor :: "Entry list \<Rightarrow> EntryAccessor" where
  "NewSliceEntryAccessor entries = \<lparr> ea_Count = int (length entries), ea_At = sl_At entries, ea_Range = sl_Range entries \<rparr>"

definition dnm_At :: "DNMReader \<Rightarrow> int \<Rightarrow> acc_err + Entry" where
  "dnm_At r i = map_sum AccDnm id (EntryAt r (of_int i))"

definition dnm_Range :: "DNMReader \<Rightarrow> int \<Rightarrow> int \<Rightarrow> acc_err + Entry list" where
  "dnm_Range r start end' = map_sum AccDnm id (EntriesRange r (of_int start) (of_int end'))"

definition NewDNMEntryAccessor :: "DNMReader \<Rightarrow> EntryAccessor" where
  "NewDNMEntryAccessor r = \<lparr> ea_Count = dr_EntriesCount r, ea_At = dnm_At r, ea_Range = dnm_Range r \<rparr>"

record chainEntryAccessor =
  ch_parts :: "EntryAccessor list"
  ch_starts :: "int list"
  ch_total :: int

definition chain_add :: "EntryAccessor option \<Rightarrow> chainEntryAccessor \<Rightarrow> chainEntryAccessor" where
  "chain_add p c =
     (case p of
        None \<Rightarrow> c
      | Some ea \<Rightarrow> \<lparr> ch_parts = ch_parts c @ [ea], ch_starts = ch_starts c @ [ch_total c], ch_total = i64 (ch_total c + ea_Count ea) \<rparr>)"

definition newChain :: "EntryAccessor option list \<Rightarrow> chainEntryAccessor" where
  "newChain parts = fold chain_add parts \<lparr> ch_parts = [], ch_starts = [], ch_total = 0 \<rparr>"

function chainSearch :: "int list \<Rightarrow> int \<Rightarrow> int \<Rightarrow> int \<Rightarrow> int" where
  "chainSearch starts i lo hi =
     (if lo < hi
      then let mid = (lo + hi + 1) div 2 in
        if starts ! nat mid \<le> i then chainSearch starts i mid hi else chainSearch starts i lo (mid - 1)
      else lo)"
  by pat_completeness auto
termination
  by (relation "measure (\<lambda>(_, _, lo, hi). nat (hi - lo))") (auto simp: Let_def)

declare chainSearch.simps [simp del]

text \<open>An empty chain has no part to index; the callers check the range first.\<close>

definition chain_part :: "chainEntryAccessor \<Rightarrow> int \<Rightarrow> nat \<times> int" where
  "chain_part c i = (let lo = chainSearch (ch_starts c) i 0 (int (length (ch_parts c)) - 1) in (nat lo, i - ch_starts c ! nat lo))"

definition chain_At :: "chainEntryAccessor \<Rightarrow> int \<Rightarrow> acc_err + Entry" where
  "chain_At c i =
     (if i < 0 \<or> ch_total c \<le> i then Inl AccRange
      else let (p, loc) = chain_part c i in
        if length (ch_parts c) \<le> p then Inl AccPanic else ea_At (ch_parts c ! p) loc)"

function chainRange :: "chainEntryAccessor \<Rightarrow> int \<Rightarrow> int \<Rightarrow> Entry list \<Rightarrow> acc_err + Entry list" where
  "chainRange c start end' out =
     (if start < end'
      then let (p, loc) = chain_part c start in
        if length (ch_parts c) \<le> p then Inl AccPanic
        else let n = min (end' - start) (ea_Count (ch_parts c ! p) - loc) in
          if n \<le> 0 then Inl AccNoProgress
          else case ea_Range (ch_parts c ! p) loc (loc + n) of
            Inl e \<Rightarrow> Inl e
          | Inr es \<Rightarrow> chainRange c (start + n) end' (out @ es)
      else Inr out)"
  by pat_completeness auto
termination
  by (relation "measure (\<lambda>(_, start, end', _). nat (end' - start))") auto

declare chainRange.simps [simp del]

definition chain_Range :: "chainEntryAccessor \<Rightarrow> int \<Rightarrow> int \<Rightarrow> acc_err + Entry list" where
  "chain_Range c start end' =
     (if start < 0 \<or> ch_total c < end' \<or> end' < start then Inl AccRange else chainRange c start end' [])"

definition ChainEntryAccessor :: "EntryAccessor option list \<Rightarrow> EntryAccessor" where
  "ChainEntryAccessor parts =
     (let c = newChain parts in \<lparr> ea_Count = ch_total c, ea_At = chain_At c, ea_Range = chain_Range c \<rparr>)"


section \<open>Binary search\<close>

function searchLoop :: "EntryAccessor \<Rightarrow> (Entry \<Rightarrow> bool) \<Rightarrow> int \<Rightarrow> int \<Rightarrow> acc_err + int" where
  "searchLoop ea before lo hi =
     (if lo < hi
      then let mid = (lo + hi) div 2 in
        (case ea_At ea mid of
           Inl e \<Rightarrow> Inl e
         | Inr e \<Rightarrow> if before e then searchLoop ea before (mid + 1) hi else searchLoop ea before lo mid)
      else Inr lo)"
  by pat_completeness auto
termination
  by (relation "measure (\<lambda>(_, _, lo, hi). nat (hi - lo))") auto

declare searchLoop.simps [simp del]

definition SearchEntries :: "EntryAccessor \<Rightarrow> int \<Rightarrow> acc_err + int" where
  "SearchEntries ea target = searchLoop ea (\<lambda>e. i64 (e_VolumeOffset e + e_ChunkLength e) \<le> target) 0 (ea_Count ea)"

definition SearchEntriesEnd :: "EntryAccessor \<Rightarrow> int \<Rightarrow> acc_err + int" where
  "SearchEntriesEnd ea target = searchLoop ea (\<lambda>e. e_VolumeOffset e < target) 0 (ea_Count ea)"


section \<open>Content hashes\<close>

text \<open>
  SHA-256 is a parameter \<open>sha\<close>; writing to the hash piece by piece is hashing the
  concatenation.  An error leaves the file entry as it is.
\<close>

definition coveringChunks :: "EntryAccessor \<Rightarrow> int \<Rightarrow> int \<Rightarrow> acc_err + Entry list" where
  "coveringChunks ea start end' =
     (case SearchEntries ea start of
        Inl e \<Rightarrow> Inl e
      | Inr startIdx \<Rightarrow>
     (case SearchEntriesEnd ea end' of
        Inl e \<Rightarrow> Inl e
      | Inr endIdx \<Rightarrow> ea_Range ea startIdx endIdx))"

fun hashExtents :: "EntryAccessor \<Rightarrow> VolumeExtent list \<Rightarrow> acc_err + bytes" where
  "hashExtents ea [] = Inr []"
| "hashExtents ea (ext # exts) =
     (case coveringChunks ea (ext_VolumeOffset ext) (i64 (ext_VolumeOffset ext + ext_Length ext)) of
        Inl e \<Rightarrow> Inl e
      | Inr chunk \<Rightarrow>
          (case hashExtents ea exts of Inl e \<Rightarrow> Inl e | Inr h \<Rightarrow> Inr (concat (map e_ChunkHash chunk) @ h)))"

definition ComputeContentHashesForVolumeFile :: "(bytes \<Rightarrow> bytes) \<Rightarrow> FileEntry \<Rightarrow> EntryAccessor \<Rightarrow> FileEntry" where
  "ComputeContentHashesForVolumeFile sha f ea =
     (if fe_VolumeExtents f = [] then f
      else case hashExtents ea (fe_VolumeExtents f) of Inl e \<Rightarrow> f | Inr h \<Rightarrow> f\<lparr> fe_ContentHash := sha h \<rparr>)"

definition ComputeContentHashesForFile :: "(bytes \<Rightarrow> bytes) \<Rightarrow> FileEntry \<Rightarrow> EntryAccessor \<Rightarrow> FileEntry" where
  "ComputeContentHashesForFile sha f ea =
     (if fe_StreamLength f = 0 then f
      else case coveringChunks ea (fe_StreamOffset f) (i64 (fe_StreamOffset f + fe_StreamLength f)) of
        Inl e \<Rightarrow> f
      | Inr chunk \<Rightarrow> f\<lparr> fe_ContentHash := sha (concat (map e_ChunkHash chunk)) \<rparr>)"

definition hashOne :: "(bytes \<Rightarrow> bytes) \<Rightarrow> EntryAccessor \<Rightarrow> FileEntry \<Rightarrow> FileEntry" where
  "hashOne sha ea f =
     (if fe_Unchanged f then f
      else if fe_VolumeExtents f \<noteq> [] then ComputeContentHashesForVolumeFile sha f ea
      else if 0 < fe_StreamLength f then ComputeContentHashesForFile sha f ea
      else f)"

definition ComputeContentHashes :: "(bytes \<Rightarrow> bytes) \<Rightarrow> Backup \<Rightarrow> Backup" where
  "ComputeContentHashes sha backup =
     (if b_FileCatalog backup = [] \<or> b_Entries backup = [] then backup
      else backup\<lparr> b_FileCatalog := map (hashOne sha (NewSliceEntryAccessor (b_Entries backup))) (b_FileCatalog backup) \<rparr>)"


section \<open>The contract\<close>

text \<open>
  What a client may rely on: the accessor presents a list of entries.  An index outside the
  list is an error; a range within the list is the slice.
\<close>

locale entry_view =
  fixes ea :: EntryAccessor and es :: "Entry list"
  assumes count_view: "ea_Count ea = int (length es)"
    and at_view: "0 \<le> i \<Longrightarrow> i < int (length es) \<Longrightarrow> ea_At ea i = Inr (es ! nat i)"
    and at_outside: "int64OK i \<Longrightarrow> i < 0 \<or> int (length es) \<le> i \<Longrightarrow> \<exists>e. ea_At ea i = Inl e"
    and range_view: "0 \<le> a \<Longrightarrow> a \<le> b \<Longrightarrow> b \<le> int (length es) \<Longrightarrow> ea_Range ea a b = Inr (bslice (nat a) (nat b) es)"
begin

lemma searchLoop_view:
  assumes "0 \<le> lo" "lo \<le> hi" "hi \<le> int (length es)"
    and "\<And>i j. i < j \<Longrightarrow> j < length es \<Longrightarrow> before (es ! j) \<Longrightarrow> before (es ! i)"
    and "\<forall>i < nat lo. before (es ! i)" "\<forall>i < length es. nat hi \<le> i \<longrightarrow> \<not> before (es ! i)"
  shows "\<exists>k. searchLoop ea before lo hi = Inr (int k) \<and> k \<le> length es \<and> (\<forall>i < k. before (es ! i)) \<and> (\<forall>i < length es. k \<le> i \<longrightarrow> \<not> before (es ! i))"
  using assms(1,2,3,5,6)
proof (induction "nat (hi - lo)" arbitrary: lo hi rule: less_induct)
  case less
  show ?case
  proof (cases "lo < hi")
    case False
    then have "searchLoop ea before lo hi = Inr (int (nat lo))" "nat hi = nat lo" using less.prems by (simp_all add: searchLoop.simps)
    then show ?thesis using less.prems by (intro exI [of _ "nat lo"]) auto
  next
    case True
    let ?m = "(lo + hi) div 2"
    have m: "lo \<le> ?m" "?m < hi" "0 \<le> ?m" using True less.prems(1) by auto
    have at: "ea_At ea ?m = Inr (es ! nat ?m)" using at_view [of ?m] m less.prems by simp
    show ?thesis
    proof (cases "before (es ! nat ?m)")
      case b: True
      have "before (es ! i)" if "i < nat (?m + 1)" for i
      proof (cases "i = nat ?m")
        case False
        then have "i < nat ?m" using that m(3) by (simp add: nat_add_distrib)
        then show ?thesis using assms(4) [of i "nat ?m"] b m less.prems(3) by simp
      qed (use b in simp)
      then have "\<exists>k. searchLoop ea before (?m + 1) hi = Inr (int k) \<and> k \<le> length es \<and> (\<forall>i < k. before (es ! i)) \<and>
          (\<forall>i < length es. k \<le> i \<longrightarrow> \<not> before (es ! i))"
        using less.hyps [of hi "?m + 1"] less.prems m by simp
      then show ?thesis using True by (subst searchLoop.simps) (simp add: at b Let_def)
    next
      case b: False
      have "\<not> before (es ! i)" if "i < length es" "nat ?m \<le> i" for i
        using assms(4) [of "nat ?m" i] b that by (cases "i = nat ?m") auto
      then have "\<exists>k. searchLoop ea before lo ?m = Inr (int k) \<and> k \<le> length es \<and> (\<forall>i < k. before (es ! i)) \<and>
          (\<forall>i < length es. k \<le> i \<longrightarrow> \<not> before (es ! i))"
        using less.hyps [of ?m lo] less.prems m by simp
      then show ?thesis using True by (subst searchLoop.simps) (simp add: at b Let_def)
    qed
  qed
qed

lemma search_view:
  assumes "\<And>i j. i < j \<Longrightarrow> j < length es \<Longrightarrow> before (es ! j) \<Longrightarrow> before (es ! i)"
  obtains k where "searchLoop ea before 0 (ea_Count ea) = Inr (int k)" "k \<le> length es" "\<forall>i < k. before (es ! i)"
    "\<forall>i < length es. k \<le> i \<longrightarrow> \<not> before (es ! i)"
  using searchLoop_view [of 0 "int (length es)" before] assms unfolding count_view by auto

end

interpretation slice: entry_view "NewSliceEntryAccessor es" es for es
  by unfold_locales (auto simp: NewSliceEntryAccessor_def sl_At_def sl_Range_def)

lemma entry_view_dnm:
  assumes "laid f om oc oe M C E"
  shows "entry_view (NewDNMEntryAccessor (readerOf f om oc oe M C nc E)) (entriesOf E)"
proof
  let ?r = "readerOf f om oc oe M C nc E"
  have E: "length E div 45 < 9223372036854775808"
    using laid_small(3) [OF assms] by (intro le_less_trans [OF div_le_dividend]) simp
  then show "ea_Count (NewDNMEntryAccessor ?r) = int (length (entriesOf E))"
    by (simp add: NewDNMEntryAccessor_def dr_EntriesCount_def readerOf_def sint_of_nat_small)
  fix i :: int
  have at: "ea_At (NewDNMEntryAccessor ?r) (int k) = (if k < length E div 45 then Inr (entriesOf E ! k) else Inl (AccDnm DnmRange))"
    if "k < 18446744073709551616" for k
    using EntryAt_laid [OF assms that, of nc] by (simp add: NewDNMEntryAccessor_def dnm_At_def)
  show "ea_At (NewDNMEntryAccessor ?r) i = Inr (entriesOf E ! nat i)" if "0 \<le> i" "i < int (length (entriesOf E))"
    using at [of "nat i"] that E by simp
  show "\<exists>e. ea_At (NewDNMEntryAccessor ?r) i = Inl e" if i: "int64OK i" "i < 0 \<or> int (length (entriesOf E)) \<le> i"
  proof (cases "i < 0")
    case True
    let ?k = "nat (i + 18446744073709551616)"
    have k: "int ?k = i + 18446744073709551616" "?k < 18446744073709551616" "9223372036854775808 \<le> ?k"
      using True i(1) by (auto simp: int64OK_def)
    have "(of_int i :: u64) = of_int (int ?k)" unfolding k(1) by simp
    then have "ea_At (NewDNMEntryAccessor ?r) i = ea_At (NewDNMEntryAccessor ?r) (int ?k)"
      by (simp add: NewDNMEntryAccessor_def dnm_At_def)
    then show ?thesis using at [OF k(2)] k(3) E by simp
  next
    case False
    then show ?thesis using at [of "nat i"] i by (simp add: int64OK_def)
  qed
  fix a b :: int
  assume ab: "0 \<le> a" "a \<le> b" "b \<le> int (length (entriesOf E))"
  then obtain k n where "a = int k" "b = int n" by (metis nonneg_int_cases order_trans)
  with ab EntriesRange_laid [OF assms, of k n nc]
  show "ea_Range (NewDNMEntryAccessor ?r) a b = Inr (bslice (nat a) (nat b) (entriesOf E))"
    by (simp add: NewDNMEntryAccessor_def dnm_Range_def bslice_def)
qed


section \<open>Chains\<close>

definition startOf :: "Entry list list \<Rightarrow> nat \<Rightarrow> nat" where
  "startOf ess k = length (concat (take k ess))"

lemma startOf_mono: "j \<le> k \<Longrightarrow> startOf ess j \<le> startOf ess k"
  unfolding startOf_def by (metis concat_append le_add1 length_append append_take_drop_id min.absorb_iff2 min.commute take_take)

lemma startOf_Suc: "k < length ess \<Longrightarrow> startOf ess (Suc k) = startOf ess k + length (ess ! k)"
  by (simp add: startOf_def take_Suc_conv_app_nth)

lemma startOf_length: "startOf ess (length ess) = length (concat ess)"
  by (simp add: startOf_def)

lemma concat_at:
  assumes "p < length ess" "b \<le> length (ess ! p)"
  shows "bslice (startOf ess p + a) (startOf ess p + b) (concat ess) = bslice a b (ess ! p)"
proof -
  have "concat ess = concat (take p ess) @ ess ! p @ concat (drop (Suc p) ess)"
    using assms(1) by (metis concat.simps(2) concat_append id_take_nth_drop)
  then show ?thesis using assms(2) by (simp add: bslice_def startOf_def)
qed

lemma chainSearch_spec:
  assumes "0 \<le> lo" "lo \<le> hi" "hi < int (length starts)" "starts ! nat lo \<le> i"
    and "\<And>j. nat hi < j \<Longrightarrow> j < length starts \<Longrightarrow> i < starts ! j"
    and "sorted starts"
  shows "\<exists>k. chainSearch starts i lo hi = int k \<and> k < length starts \<and> starts ! k \<le> i \<and> (\<forall>j < length starts. k < j \<longrightarrow> i < starts ! j)"
  using assms(1-5)
proof (induction "nat (hi - lo)" arbitrary: lo hi rule: less_induct)
  case less
  show ?case
  proof (cases "lo < hi")
    case False
    then have "chainSearch starts i lo hi = int (nat lo)" "nat hi = nat lo" using less.prems by (simp_all add: chainSearch.simps)
    then show ?thesis using less.prems by (intro exI [of _ "nat lo"]) auto
  next
    case True
    let ?m = "(lo + hi + 1) div 2"
    have m: "lo < ?m" "?m \<le> hi" using True less.prems(1) by auto
    show ?thesis
    proof (cases "starts ! nat ?m \<le> i")
      case b: True
      then have "chainSearch starts i lo hi = chainSearch starts i ?m hi" using True by (subst chainSearch.simps) (simp add: Let_def)
      then show ?thesis using less.hyps [of hi ?m] less.prems m b by simp
    next
      case b: False
      have "i < starts ! j" if "nat (?m - 1) < j" "j < length starts" for j
      proof -
        have "nat ?m \<le> j" using that(1) m less.prems(1) by linarith
        then show ?thesis using b sorted_nth_mono [OF assms(6), of "nat ?m" j] that(2) by linarith
      qed
      moreover have "chainSearch starts i lo hi = chainSearch starts i lo (?m - 1)"
        using True b by (subst chainSearch.simps) (simp add: Let_def)
      ultimately show ?thesis using less.hyps [of "?m - 1" lo] less.prems m by simp
    qed
  qed
qed

definition chainOf :: "EntryAccessor list \<Rightarrow> Entry list list \<Rightarrow> chainEntryAccessor" where
  "chainOf eas ess = \<lparr> ch_parts = eas, ch_starts = map (\<lambda>k. int (startOf ess k)) [0..<length eas], ch_total = int (length (concat ess)) \<rparr>"

lemma newChain_Some: "newChain parts = fold chain_add (map Some (List.map_filter id parts)) \<lparr> ch_parts = [], ch_starts = [], ch_total = 0 \<rparr>"
proof -
  have "fold chain_add parts c = fold chain_add (map Some (List.map_filter id parts)) c" for c
    by (induction parts arbitrary: c) (auto simp: chain_add_def List.map_filter_simps split: option.split)
  then show ?thesis by (simp add: newChain_def)
qed

lemma chain_add_chainOf:
  assumes "entry_view ea es" "length eas = length ess" "length (concat ess) + length es < 9223372036854775808"
  shows "chain_add (Some ea) (chainOf eas ess) = chainOf (eas @ [ea]) (ess @ [es])"
proof -
  have "map (\<lambda>k. int (startOf (ess @ [es]) k)) [0..<length ess] = map (\<lambda>k. int (startOf ess k)) [0..<length ess]"
    by (simp add: startOf_def)
  moreover have "i64 (int (length (concat ess)) + int (length es)) = int (length (concat ess)) + int (length es)"
    using assms(3) by (intro i64_id) simp_all
  moreover have "startOf (ess @ [es]) (length ess) = length (concat ess)" by (simp add: startOf_def)
  ultimately show ?thesis
    using entry_view.count_view [OF assms(1)] assms(2) by (simp add: chain_add_def chainOf_def)
qed

lemma newChain_view:
  assumes "list_all2 entry_view (List.map_filter id parts) ess" "length (concat ess) < 9223372036854775808"
  shows "newChain parts = chainOf (List.map_filter id parts) ess"
proof -
  have "fold chain_add (map Some eas) \<lparr> ch_parts = [], ch_starts = [], ch_total = 0 \<rparr> = chainOf eas ess"
    if "list_all2 entry_view eas ess" "length (concat ess) < 9223372036854775808" for eas ess
    using that
  proof (induction eas arbitrary: ess rule: rev_induct)
    case Nil
    then show ?case by (simp add: chainOf_def)
  next
    case (snoc ea eas)
    from snoc.prems(1) obtain es ess' where ess: "ess = ess' @ [es]" "list_all2 entry_view eas ess'" "entry_view ea es"
      by (auto simp: list_all2_append1 list_all2_Cons1)
    have "length eas = length ess'" using ess(2) by (rule list_all2_lengthD)
    with snoc ess show ?case using chain_add_chainOf [OF ess(3)] by simp
  qed
  from this [OF assms] show ?thesis by (simp add: newChain_Some)
qed

lemma chain_part_view:
  assumes "length eas = length ess" "i < length (concat ess)"
  obtains p where "chain_part (chainOf eas ess) (int i) = (p, int (i - startOf ess p))" "p < length ess"
    "startOf ess p \<le> i" "i < startOf ess (Suc p)"
proof -
  let ?s = "map (\<lambda>k. int (startOf ess k)) [0..<length eas]"
  have ne: "0 < length ess" using assms(2) by (cases ess) auto
  have "sorted ?s" by (auto simp: sorted_iff_nth_mono intro: startOf_mono)
  then have "\<exists>k. chainSearch ?s (int i) 0 (int (length ess) - 1) = int k \<and> k < length ?s \<and> ?s ! k \<le> int i \<and>
      (\<forall>j < length ?s. k < j \<longrightarrow> int i < ?s ! j)"
    using ne assms(1) by (intro chainSearch_spec) (auto simp: startOf_def)
  then obtain k where k: "chainSearch ?s (int i) 0 (int (length ess) - 1) = int k" "k < length ess" "startOf ess k \<le> i"
    "\<forall>j < length ess. k < j \<longrightarrow> i < startOf ess j"
    using assms(1) by auto
  have "i < startOf ess (Suc k)"
  proof (cases "Suc k < length ess")
    case False
    then have "Suc k = length ess" using k(2) by simp
    then show ?thesis using assms(2) startOf_length by metis
  qed (use k(4) in simp)
  moreover have "chain_part (chainOf eas ess) (int i) = (k, int (i - startOf ess k))"
    using k assms(1) by (simp add: chain_part_def chainOf_def Let_def of_nat_diff)
  ultimately show thesis using that k(2,3) by blast
qed

lemma chainRange_view:
  assumes "list_all2 entry_view eas ess" "a \<le> b" "b \<le> length (concat ess)"
  shows "chainRange (chainOf eas ess) (int a) (int b) out = Inr (out @ bslice a b (concat ess))"
  using assms(2,3)
proof (induction "b - a" arbitrary: a out rule: less_induct)
  case less
  have len: "length eas = length ess" using assms(1) by (rule list_all2_lengthD)
  show ?case
  proof (cases "a < b")
    case False
    then show ?thesis using less.prems by (simp add: chainRange.simps bslice_def)
  next
    case True
    then obtain p where p: "chain_part (chainOf eas ess) (int a) = (p, int (a - startOf ess p))" "p < length ess"
      "startOf ess p \<le> a" "a < startOf ess (Suc p)"
      using chain_part_view [OF len, of a] less.prems by auto
    define loc n where "loc = a - startOf ess p" and "n = min (b - a) (length (ess ! p) - loc)"
    have loc: "a = startOf ess p + loc" "loc < length (ess ! p)" using p by (simp_all add: loc_def startOf_Suc)
    have n: "0 < n" "loc + n \<le> length (ess ! p)" "a + n \<le> b" using True loc(2) by (auto simp: n_def)
    have view: "entry_view (eas ! p) (ess ! p)" using assms(1) p(2) by (simp add: list_all2_nthD2)
    have m: "min (int b - int a) (ea_Count (eas ! p) - int loc) = int n"
      using entry_view.count_view [OF view] True loc(2) unfolding n_def by linarith
    have "ea_Range (eas ! p) (int loc) (int loc + int n) = Inr (bslice loc (loc + n) (ess ! p))"
      using entry_view.range_view [OF view, of "int loc" "int loc + int n"] n(2) by (simp add: nat_int_add)
    moreover have "bslice loc (loc + n) (ess ! p) = bslice a (a + n) (concat ess)"
      using concat_at [OF p(2) n(2), of loc] by (simp add: loc(1) add.assoc)
    ultimately have "chainRange (chainOf eas ess) (int a) (int b) out =
        chainRange (chainOf eas ess) (int (a + n)) (int b) (out @ bslice a (a + n) (concat ess))"
      using True p(1,2) len m n(1) by (subst chainRange.simps) (simp add: chainOf_def Let_def flip: loc_def)
    also have "\<dots> = Inr (out @ (bslice a (a + n) (concat ess) @ bslice (a + n) b (concat ess)))"
      using less.hyps [of "a + n"] n less.prems(2) True by simp
    also have "bslice a (a + n) (concat ess) @ bslice (a + n) b (concat ess) = bslice a b (concat ess)"
      using take_take_drop [of n "b - a" "drop a (concat ess)"] n(3) by (simp add: bslice_def add.commute)
    finally show ?thesis .
  qed
qed

lemma entry_view_chain:
  assumes "list_all2 entry_view (List.map_filter id parts) ess" "length (concat ess) < 9223372036854775808"
  shows "entry_view (ChainEntryAccessor parts) (concat ess)"
proof
  let ?c = "chainOf (List.map_filter id parts) ess"
  have len: "length (List.map_filter id parts) = length ess" using assms(1) by (rule list_all2_lengthD)
  note chain = newChain_view [OF assms]
  show "ea_Count (ChainEntryAccessor parts) = int (length (concat ess))"
    by (simp add: ChainEntryAccessor_def chain Let_def chainOf_def)
  fix i :: int
  show "\<exists>e. ea_At (ChainEntryAccessor parts) i = Inl e" if "i < 0 \<or> int (length (concat ess)) \<le> i"
    using that by (auto simp: ChainEntryAccessor_def chain Let_def chain_At_def chainOf_def)
  show "ea_At (ChainEntryAccessor parts) i = Inr (concat ess ! nat i)" if i: "0 \<le> i" "i < int (length (concat ess))"
  proof -
    obtain k where k: "i = int k" using i(1) by (rule nonneg_int_cases)
    then obtain p where p: "chain_part ?c (int k) = (p, int (k - startOf ess p))" "p < length ess" "startOf ess p \<le> k"
      "k < startOf ess (Suc p)" using chain_part_view [OF len, of k] i by auto
    have view: "entry_view (List.map_filter id parts ! p) (ess ! p)" using assms(1) p(2) by (simp add: list_all2_nthD2)
    have loc: "k - startOf ess p < length (ess ! p)" using p by (simp add: startOf_Suc)
    have "concat ess ! k = ess ! p ! (k - startOf ess p)"
    proof -
      have "concat ess = concat (take p ess) @ ess ! p @ concat (drop (Suc p) ess)"
        using p(2) by (metis concat.simps(2) concat_append id_take_nth_drop)
      then show ?thesis using p(3) loc by (simp add: nth_append startOf_def)
    qed
    then show ?thesis
      using entry_view.at_view [OF view, of "int (k - startOf ess p)"] loc i p(1,2) len
      by (simp add: ChainEntryAccessor_def chain Let_def chain_At_def k) (simp add: chainOf_def)
  qed
  fix a b :: int
  assume ab: "0 \<le> a" "a \<le> b" "b \<le> int (length (concat ess))"
  then obtain k n where "a = int k" "b = int n" by (metis nonneg_int_cases order_trans)
  with ab chainRange_view [OF assms(1), of k n "[]"]
  show "ea_Range (ChainEntryAccessor parts) a b = Inr (bslice (nat a) (nat b) (concat ess))"
    by (simp add: ChainEntryAccessor_def chain Let_def chain_Range_def) (simp add: chainOf_def)
qed


section \<open>The accessors of the program\<close>

text \<open>
  The accessors the program builds, with the entries they stand for: a slice in memory, a
  saved manifest, and any chain of such accessors.
\<close>

inductive presents :: "EntryAccessor \<Rightarrow> Entry list \<Rightarrow> bool" where
  slice: "presents (NewSliceEntryAccessor es) es"
| saved: "manifestFits b fs (entrySection b sidecar) \<Longrightarrow> catalogSource b fs \<Longrightarrow> \<forall>e \<in> set (b_Entries b). entryOK e \<Longrightarrow>
    writeDNM b sidecar = Inr f \<Longrightarrow> OpenDNMReader f = Inr r \<Longrightarrow> presents (NewDNMEntryAccessor r) (savedEntries b sidecar)"
| chained: "list_all2 presents (List.map_filter id parts) ess \<Longrightarrow> length (concat ess) < 9223372036854775808 \<Longrightarrow>
    presents (ChainEntryAccessor parts) (concat ess)"

lemma presents_view: "presents ea es \<Longrightarrow> entry_view ea es"
proof (induction rule: presents.induct)
  case (slice es)
  show ?case by (rule slice.entry_view_axioms)
next
  case (saved b fs sidecar f r)
  note small = manifestFits_small(1) [OF saved(1)]
  from saved writeDNM_classic [OF saved(3,2) small] have
    "f = classicFile (encodeMetadata b) (catalogBytes fs) (of_nat (length fs)) (entrySection b sidecar)" by simp
  with saved(5) open_classicFile [OF small] entry_view_dnm [OF laid_classicFile [OF small]] entriesOf_section [OF saved(3)]
  show ?case by auto
next
  case (chained parts ess)
  then have "list_all2 entry_view (List.map_filter id parts) ess" by (auto elim: list_all2_mono)
  then show ?case using chained(2) by (rule entry_view_chain)
qed

text \<open>
  The order the pipeline gives the entries: a chunk begins where the previous one ends, or
  later, and ends within the 64-bit range.
\<close>

definition inOrder :: "Entry list \<Rightarrow> bool" where
  "inOrder es \<longleftrightarrow> sorted_wrt (\<lambda>a b. e_VolumeOffset a + e_ChunkLength a \<le> e_VolumeOffset b) es \<and>
     (\<forall>e \<in> set es. entryOK e \<and> e_VolumeOffset e + e_ChunkLength e < 9223372036854775808)"

definition overlaps :: "int \<Rightarrow> int \<Rightarrow> Entry \<Rightarrow> bool" where
  "overlaps start end' e \<longleftrightarrow> e_VolumeOffset e < end' \<and> start < e_VolumeOffset e + e_ChunkLength e"

lemma inOrder_nth:
  assumes "inOrder es" "i < j" "j < length es"
  shows "e_VolumeOffset (es ! i) + e_ChunkLength (es ! i) \<le> e_VolumeOffset (es ! j)"
    "e_VolumeOffset (es ! i) \<le> e_VolumeOffset (es ! j)" "0 \<le> e_ChunkLength (es ! j)"
proof -
  show *: "e_VolumeOffset (es ! i) + e_ChunkLength (es ! i) \<le> e_VolumeOffset (es ! j)"
    using assms by (simp add: inOrder_def sorted_wrt_iff_nth_less)
  have "es ! i \<in> set es" "es ! j \<in> set es" using assms(2,3) by simp_all
  then have "0 \<le> e_ChunkLength (es ! i)" "0 \<le> e_ChunkLength (es ! j)" using assms(1) by (auto simp: inOrder_def entryOK_def)
  with * show "e_VolumeOffset (es ! i) \<le> e_VolumeOffset (es ! j)" "0 \<le> e_ChunkLength (es ! j)" by simp_all
qed

lemma inOrder_end:
  assumes "inOrder es" "i < length es"
  shows "i64 (e_VolumeOffset (es ! i) + e_ChunkLength (es ! i)) = e_VolumeOffset (es ! i) + e_ChunkLength (es ! i)"
    "0 \<le> e_ChunkLength (es ! i)"
proof -
  have "es ! i \<in> set es" using assms(2) by simp
  with assms(1) show "0 \<le> e_ChunkLength (es ! i)"
    "i64 (e_VolumeOffset (es ! i) + e_ChunkLength (es ! i)) = e_VolumeOffset (es ! i) + e_ChunkLength (es ! i)"
    by (auto simp: inOrder_def entryOK_def int64OK_def intro!: i64_id)
qed

lemma filter_segment:
  assumes "k \<le> n" "n \<le> length xs" "\<And>i. i < length xs \<Longrightarrow> P (xs ! i) \<longleftrightarrow> k \<le> i \<and> i < n"
  shows "bslice k n xs = filter P xs"
proof -
  have "xs = take k xs @ bslice k n xs @ drop n xs"
    using take_take_drop [of k n xs] assms(1) append_take_drop_id [of n xs] by (simp add: bslice_def flip: append_assoc)
  moreover have "filter P (take k xs) = []" using assms by (auto simp: filter_empty_conv in_set_conv_nth)
  moreover have "filter P (drop n xs) = []" using assms by (auto simp: filter_empty_conv in_set_conv_nth)
  moreover have "filter P (bslice k n xs) = bslice k n xs"
    using assms by (auto simp: filter_id_conv in_set_conv_nth bslice_def)
  ultimately show ?thesis by (metis append_Nil append_Nil2 filter_append)
qed

context entry_view
begin

lemma search_entries:
  assumes "inOrder es"
  obtains k where "SearchEntries ea target = Inr (int k)" "k \<le> length es"
    "\<forall>i < length es. e_VolumeOffset (es ! i) + e_ChunkLength (es ! i) \<le> target \<longleftrightarrow> i < k"
proof -
  let ?P = "\<lambda>e. i64 (e_VolumeOffset e + e_ChunkLength e) \<le> target"
  have mono: "?P (es ! i)" if "i < j" "j < length es" "?P (es ! j)" for i j
    using inOrder_nth [OF assms that(1,2)] inOrder_end [OF assms that(2)] inOrder_end [OF assms, of i] that by simp
  obtain k where k: "searchLoop ea ?P 0 (ea_Count ea) = Inr (int k)" "k \<le> length es" "\<forall>i < k. ?P (es ! i)"
    "\<forall>i < length es. k \<le> i \<longrightarrow> \<not> ?P (es ! i)" using search_view [of ?P] mono by blast
  then have "\<forall>i < length es. e_VolumeOffset (es ! i) + e_ChunkLength (es ! i) \<le> target \<longleftrightarrow> i < k"
    using inOrder_end(1) [OF assms] by (metis not_less)
  then show thesis using that k(1,2) by (simp add: SearchEntries_def)
qed

lemma search_entries_end:
  assumes "inOrder es"
  obtains k where "SearchEntriesEnd ea target = Inr (int k)" "k \<le> length es"
    "\<forall>i < length es. e_VolumeOffset (es ! i) < target \<longleftrightarrow> i < k"
proof -
  let ?P = "\<lambda>e. e_VolumeOffset e < target"
  have mono: "?P (es ! i)" if "i < j" "j < length es" "?P (es ! j)" for i j
    using inOrder_nth(2) [OF assms that(1,2)] that by simp
  obtain k where k: "searchLoop ea ?P 0 (ea_Count ea) = Inr (int k)" "k \<le> length es" "\<forall>i < k. ?P (es ! i)"
    "\<forall>i < length es. k \<le> i \<longrightarrow> \<not> ?P (es ! i)" using search_view [of ?P] mono by blast
  then have "\<forall>i < length es. e_VolumeOffset (es ! i) < target \<longleftrightarrow> i < k" by (meson not_less)
  then show thesis using that k(1,2) by (simp add: SearchEntriesEnd_def)
qed

lemma covering:
  assumes "inOrder es" "start < end'"
  shows "coveringChunks ea start end' = Inr (filter (overlaps start end') es)"
proof -
  obtain k where k: "SearchEntries ea start = Inr (int k)" "k \<le> length es"
    "\<forall>i < length es. e_VolumeOffset (es ! i) + e_ChunkLength (es ! i) \<le> start \<longleftrightarrow> i < k" using assms(1) by (rule search_entries)
  obtain n where n: "SearchEntriesEnd ea end' = Inr (int n)" "n \<le> length es"
    "\<forall>i < length es. e_VolumeOffset (es ! i) < end' \<longleftrightarrow> i < n" using assms(1) by (rule search_entries_end)
  have "i < n" if "i < k" for i
  proof -
    have i: "i < length es" using that k(2) by simp
    then have "e_VolumeOffset (es ! i) + e_ChunkLength (es ! i) \<le> start" using k(3) that by blast
    then have "e_VolumeOffset (es ! i) < end'" using inOrder_end(2) [OF assms(1) i] assms(2) by linarith
    then show ?thesis using n(3) i by blast
  qed
  then have kn: "k \<le> n" by (meson not_less order_refl le_less_linear less_irrefl)
  have "overlaps start end' (es ! i) \<longleftrightarrow> k \<le> i \<and> i < n" if "i < length es" for i
    using k(3) n(3) that by (auto simp: overlaps_def not_le simp flip: not_less)
  then have "bslice k n es = filter (overlaps start end') es" using kn n(2) by (intro filter_segment)
  then show ?thesis using range_view [of "int k" "int n"] kn n(2) by (simp add: coveringChunks_def k(1) n(1))
qed

end


section \<open>Properties\<close>

text \<open>
  C14: Looking up a region finds exactly the chunks that overlap it.  Over ordered entries,
  whichever accessor presents them (a slice, a saved manifest, a chain of accessors with
  empty and missing parts), the two binary searches and the range read return the
  overlapping entries in order; the content hash of a file is the hash of their chunk
  hashes.  The accessor gives every entry by its index and an error outside.
\<close>

theorem region_lookup:
  assumes "presents ea es" "inOrder es" "start < end'"
  shows "coveringChunks ea start end' = Inr (filter (overlaps start end') es) \<and>
    (\<forall>f. fe_StreamOffset f = start \<and> fe_StreamOffset f + fe_StreamLength f = end' \<and> int64OK end' \<longrightarrow>
       ComputeContentHashesForFile sha f ea = f\<lparr> fe_ContentHash := sha (concat (map e_ChunkHash (filter (overlaps start end') es))) \<rparr>) \<and>
    ea_Count ea = int (length es) \<and> (\<forall>i < length es. ea_At ea (int i) = Inr (es ! i)) \<and>
    (\<forall>i. int64OK i \<and> (i < 0 \<or> int (length es) \<le> i) \<longrightarrow> (\<exists>e. ea_At ea i = Inl e))"
proof -
  note view = presents_view [OF assms(1)]
  note cover = entry_view.covering [OF view assms(2,3)]
  have "ComputeContentHashesForFile sha f ea = f\<lparr> fe_ContentHash := sha (concat (map e_ChunkHash (filter (overlaps start end') es))) \<rparr>"
    if "fe_StreamOffset f = start" "fe_StreamOffset f + fe_StreamLength f = end'" "int64OK end'" for f
    using that assms(3) cover by (auto simp: ComputeContentHashesForFile_def)
  moreover have "ea_At ea (int i) = Inr (es ! i)" if "i < length es" for i
    using entry_view.at_view [OF view, of "int i"] that by simp
  ultimately show ?thesis
    using cover entry_view.count_view [OF view] entry_view.at_outside [OF view] by blast
qed

definition threeChunks :: "Entry list" where
  "threeChunks = map (\<lambda>k. \<lparr> e_VolumeOffset = int k * 10, e_ChunkHash = replicate 32 (of_nat k), e_ChunkLength = 10, e_IsExcluded = False \<rparr>) [0..<3]"

theorem region_lookup_witness:
  "coveringChunks (ChainEntryAccessor [Some (NewSliceEntryAccessor (take 1 threeChunks)), None, Some (NewSliceEntryAccessor (drop 1 threeChunks))]) 5 12
     = Inr (take 2 threeChunks)"
proof -
  let ?a = "NewSliceEntryAccessor (take 1 threeChunks)" and ?b = "NewSliceEntryAccessor (drop 1 threeChunks)"
  have "presents (ChainEntryAccessor [Some ?a, None, Some ?b]) (concat [take 1 threeChunks, drop 1 threeChunks])"
    by (rule chained) (auto simp: List.map_filter_simps threeChunks_def intro: slice)
  then have "presents (ChainEntryAccessor [Some ?a, None, Some ?b]) threeChunks" by simp
  moreover have "inOrder threeChunks" by (simp add: inOrder_def threeChunks_def entryOK_def int64OK_def upt_rec)
  ultimately have "coveringChunks (ChainEntryAccessor [Some ?a, None, Some ?b]) 5 12 = Inr (filter (overlaps 5 12) threeChunks)"
    using region_lookup [of _ threeChunks 5 12 id] by simp
  moreover have "filter (overlaps 5 12) threeChunks = take 2 threeChunks" by (simp add: threeChunks_def overlaps_def upt_rec)
  ultimately show ?thesis by simp
qed

end
