(* ===== verification/Manifest_Repo.thy ===== *)
theory Manifest_Repo
  imports Entry_Access Slice_Order "HOL-Library.AList"
begin

text \<open>
  The manifests directory of a repository (core/manifest/manifest.go, dnm_writer.go,
  manifest_meta.go, repair.go, migrate.go): saving, loading, listing, resolving and deleting
  backups, the entries sidecar and its writer, repair and migration.  The directory is None
  when it does not exist and otherwise its files by name; backup identifiers are plain file
  names.  The JSON decoder of a legacy manifest is a parameter \<open>legacy\<close>, the sorters are
  parameters, and messages and operating-system errors are not modelled.
\<close>

section \<open>The directory\<close>

type_synonym mdir = "(string \<times> bytes) list option"

definition fileOf :: "mdir \<Rightarrow> string \<Rightarrow> bytes option" where
  "fileOf d name = (case d of None \<Rightarrow> None | Some fs \<Rightarrow> map_of fs name)"

definition mkdirAll :: "mdir \<Rightarrow> mdir" where
  "mkdirAll d = Some (case d of None \<Rightarrow> [] | Some fs \<Rightarrow> fs)"

definition putFile :: "string \<Rightarrow> bytes \<Rightarrow> mdir \<Rightarrow> mdir" where
  "putFile name bs d = map_option (AList.update name bs) d"

definition removeFile :: "string \<Rightarrow> mdir \<Rightarrow> mdir" where
  "removeFile name d = map_option (AList.delete name) d"

definition renameFile :: "string \<Rightarrow> string \<Rightarrow> mdir \<Rightarrow> mdir" where
  "renameFile from to d = (case fileOf d from of None \<Rightarrow> d | Some bs \<Rightarrow> putFile to bs (removeFile from d))"

text \<open>\<^verbatim>\<open>os.ReadDir\<close> gives the names in order.\<close>

definition readDir :: "mdir \<Rightarrow> string list option" where
  "readDir d = map_option (\<lambda>fs. sort (remdups (map fst fs))) d"

lemma fileOf_update [simp]:
  "d \<noteq> None \<Longrightarrow> fileOf (putFile name bs d) n = (if n = name then Some bs else fileOf d n)"
  by (auto simp: fileOf_def putFile_def update_conv' split: option.splits)

lemma fileOf_delete [simp]: "fileOf (removeFile name d) n = (if n = name then None else fileOf d n)"
  by (auto simp: fileOf_def removeFile_def delete_conv' split: option.splits)

lemma fileOf_mkdirAll [simp]: "fileOf (mkdirAll d) n = fileOf d n"
  by (simp add: fileOf_def mkdirAll_def split: option.split)

lemma dir_exists [simp]:
  "mkdirAll d \<noteq> None" "putFile name bs d = None \<longleftrightarrow> d = None" "removeFile name d = None \<longleftrightarrow> d = None"
  by (simp_all add: mkdirAll_def putFile_def removeFile_def)

lemma readDir_names: "(\<exists>ns. readDir d = Some ns \<and> n \<in> set ns) \<longleftrightarrow> fileOf d n \<noteq> None"
  by (cases d) (simp_all add: readDir_def fileOf_def domIff flip: dom_map_of_conv_image_fst)


section \<open>Names\<close>

definition hasSuffix :: "string \<Rightarrow> string \<Rightarrow> bool" where
  "hasSuffix s suf \<longleftrightarrow> length suf \<le> length s \<and> drop (length s - length suf) s = suf"

definition trimSuffix :: "string \<Rightarrow> string \<Rightarrow> string" where
  "trimSuffix s suf = (if hasSuffix s suf then take (length s - length suf) s else s)"

definition hasPrefix :: "string \<Rightarrow> string \<Rightarrow> bool" where
  "hasPrefix s pre \<longleftrightarrow> take (length pre) s = pre"

text \<open>\<^verbatim>\<open>filepath.Ext\<close>: the suffix from the last dot on.\<close>

definition fileExt :: "string \<Rightarrow> string" where
  "fileExt s = (if CHR ''.'' \<in> set s then CHR ''.'' # rev (takeWhile (\<lambda>c. c \<noteq> CHR ''.'') (rev s)) else [])"

definition DNMPath :: "string \<Rightarrow> string" where
  "DNMPath backupID = backupID @ ''.dnm''"

definition EntriesPath :: "string \<Rightarrow> string" where
  "EntriesPath backupID = backupID @ ''.entries''"

definition manifestPath :: "string \<Rightarrow> string" where
  "manifestPath backupID = backupID @ ''.manifest''"

definition idByExt :: "string \<Rightarrow> string option" where
  "idByExt name =
     (if hasSuffix name ''.dnm'' then Some (trimSuffix name ''.dnm'')
      else if fileExt name = ''.manifest'' \<and> \<not> hasSuffix name ''.manifest.bak'' then Some (trimSuffix name ''.manifest'')
      else None)"

definition idBySuffix :: "string \<Rightarrow> string option" where
  "idBySuffix name =
     (if hasSuffix name ''.dnm'' then Some (trimSuffix name ''.dnm'')
      else if hasSuffix name ''.manifest'' \<and> \<not> hasSuffix name ''.manifest.bak'' then Some (trimSuffix name ''.manifest'')
      else None)"

text \<open>The identifiers of a list of names, each at its first occurrence.\<close>

fun collectIDs :: "(string \<Rightarrow> string option) \<Rightarrow> string list \<Rightarrow> string list \<Rightarrow> string list" where
  "collectIDs idOf seen [] = []"
| "collectIDs idOf seen (name # names) =
     (case idOf name of
        None \<Rightarrow> collectIDs idOf seen names
      | Some i \<Rightarrow> if i \<in> set seen then collectIDs idOf seen names else i # collectIDs idOf (i # seen) names)"

definition ListIDs :: "mdir \<Rightarrow> string list" where
  "ListIDs d = (case readDir d of None \<Rightarrow> [] | Some names \<Rightarrow> collectIDs idBySuffix [] names)"


section \<open>The entries sidecar\<close>

datatype mr_err =
    MrNoDir
  | MrNotFound
  | MrParse
  | MrDnm dnm_err
  | MrSidecar
  | MrNoMatch
  | MrAmbiguous nat
  | MrResumeLength
  | MrResumeShort

record EntryWriter =
  ew_path :: string
  ew_buffer :: bytes

definition writeBufferSize :: nat where
  "writeBufferSize = 1048576"

definition appendFile :: "string \<Rightarrow> bytes \<Rightarrow> mdir \<Rightarrow> mdir" where
  "appendFile name bs d = (case fileOf d name of None \<Rightarrow> d | Some old \<Rightarrow> putFile name (old @ bs) d)"

definition OpenEntryWriter :: "string \<Rightarrow> mdir \<Rightarrow> EntryWriter \<times> mdir" where
  "OpenEntryWriter backupID d =
     (\<lparr> ew_path = EntriesPath backupID, ew_buffer = [] \<rparr>, putFile (EntriesPath backupID) [] (mkdirAll d))"

text \<open>\<^verbatim>\<open>bufio.Writer\<close>: a record that does not fit fills the buffer, which is written, and starts the next.\<close>

definition ew_WriteEntry :: "Entry \<Rightarrow> EntryWriter \<Rightarrow> mdir \<Rightarrow> EntryWriter \<times> mdir" where
  "ew_WriteEntry e w d =
     (let rec = encodeEntryRecord e; avail = writeBufferSize - length (ew_buffer w) in
      if length rec \<le> avail then (w\<lparr> ew_buffer := ew_buffer w @ rec \<rparr>, d)
      else (w\<lparr> ew_buffer := drop avail rec \<rparr>, appendFile (ew_path w) (ew_buffer w @ take avail rec) d))"

definition ew_Flush :: "EntryWriter \<Rightarrow> mdir \<Rightarrow> EntryWriter \<times> mdir" where
  "ew_Flush w d = (w\<lparr> ew_buffer := [] \<rparr>, appendFile (ew_path w) (ew_buffer w) d)"

definition ew_Close :: "EntryWriter \<Rightarrow> mdir \<Rightarrow> mdir" where
  "ew_Close w d = snd (ew_Flush w d)"

definition ew_Sync :: "EntryWriter \<Rightarrow> mdir \<Rightarrow> EntryWriter \<times> mdir" where
  "ew_Sync w d = ew_Flush w d"

definition ew_ReadAt :: "EntryWriter \<Rightarrow> nat \<Rightarrow> int \<Rightarrow> mdir \<Rightarrow> bytes option" where
  "ew_ReadAt w n off d = (case fileOf d (ew_path w) of None \<Rightarrow> None | Some f \<Rightarrow> fileReadAt f off n)"

definition ew_Len :: "EntryWriter \<Rightarrow> mdir \<Rightarrow> int \<times> EntryWriter \<times> mdir" where
  "ew_Len w d =
     (case ew_Flush w d of (w', d') \<Rightarrow>
        (case fileOf d' (ew_path w) of None \<Rightarrow> 0 | Some f \<Rightarrow> int (length f), w', d'))"

definition OpenEntryWriterResume :: "string \<Rightarrow> int \<Rightarrow> mdir \<Rightarrow> mr_err + (EntryWriter \<times> mdir)" where
  "OpenEntryWriterResume backupID wantLen d =
     (if wantLen < 0 \<or> go_rem wantLen (int EntryRecordSize) \<noteq> 0 then Inl MrResumeLength
      else case fileOf d (EntriesPath backupID) of
        None \<Rightarrow> Inl MrNotFound
      | Some f \<Rightarrow>
          if int (length f) < wantLen then Inl MrResumeShort
          else Inr (\<lparr> ew_path = EntriesPath backupID, ew_buffer = [] \<rparr>, putFile (EntriesPath backupID) (take (nat wantLen) f) d))"

definition WriteEntries :: "string \<Rightarrow> Entry list \<Rightarrow> mdir \<Rightarrow> mdir" where
  "WriteEntries backupID entries d =
     (case fold (\<lambda>e (w, d). ew_WriteEntry e w d) entries (OpenEntryWriter backupID d) of (w, d') \<Rightarrow> ew_Close w d')"

function readSidecar :: "bytes \<Rightarrow> mr_err + Entry list" where
  "readSidecar f =
     (case readFull EntryRecordSize f of
        Inl e \<Rightarrow> if e = IoEOF then Inr [] else Inl MrSidecar
      | Inr (buf, rest) \<Rightarrow>
          (case readSidecar rest of Inl e \<Rightarrow> Inl e | Inr es \<Rightarrow> Inr (decodeEntryRecord buf # es)))"
  by pat_completeness auto
termination
  by (relation "measure length") (auto simp: readFull_def EntryRecordSize_def split: if_splits)

declare readSidecar.simps [simp del]

definition ReadEntries :: "mdir \<Rightarrow> string \<Rightarrow> mr_err + Entry list" where
  "ReadEntries d backupID = (case fileOf d (EntriesPath backupID) of None \<Rightarrow> Inr [] | Some f \<Rightarrow> readSidecar f)"


section \<open>Saving and loading\<close>

definition saveDNM :: "Backup \<Rightarrow> mdir \<Rightarrow> mr_err option \<times> mdir" where
  "saveDNM b d =
     (if d = None then (Some MrNoDir, d)
      else let tmpPath = DNMPath (b_BackupID b) @ ''.tmp'' in
        case writeDNM b (fileOf d (EntriesPath (b_BackupID b))) of
          Inl e \<Rightarrow> (Some (MrDnm e), removeFile tmpPath (putFile tmpPath [] d))
        | Inr f \<Rightarrow> (None, renameFile tmpPath (DNMPath (b_BackupID b)) (putFile tmpPath f d)))"

definition Save :: "Backup \<Rightarrow> mdir \<Rightarrow> mr_err option \<times> mdir" where
  "Save b d =
     (case saveDNM b (mkdirAll d) of
        (Some e, d') \<Rightarrow> (Some e, d')
      | (None, d') \<Rightarrow> (None, removeFile (EntriesPath (b_BackupID b)) d'))"

definition liftDnm :: "dnm_err + 'a \<Rightarrow> mr_err + 'a" where
  "liftDnm r = map_sum MrDnm id r"

definition loadLegacy :: "(bytes \<Rightarrow> Backup option) \<Rightarrow> mdir \<Rightarrow> string \<Rightarrow> mr_err + Backup" where
  "loadLegacy legacy d backupID =
     (case fileOf d (manifestPath backupID) of
        None \<Rightarrow> Inl MrNotFound
      | Some data \<Rightarrow> (case legacy data of None \<Rightarrow> Inl MrParse | Some b \<Rightarrow> Inr b))"

definition Load :: "(bytes \<Rightarrow> Backup option) \<Rightarrow> mdir \<Rightarrow> string \<Rightarrow> mr_err + Backup" where
  "Load legacy d backupID =
     (case fileOf d (DNMPath backupID) of
        Some f \<Rightarrow> liftDnm (loadDNM f)
      | None \<Rightarrow>
          (case loadLegacy legacy d backupID of
             Inl e \<Rightarrow> Inl e
           | Inr b \<Rightarrow>
               if b_Entries b = []
               then (case ReadEntries d backupID of Inl e \<Rightarrow> Inl e | Inr es \<Rightarrow> Inr (b\<lparr> b_Entries := es \<rparr>))
               else Inr b))"

definition LoadCatalog :: "(bytes \<Rightarrow> Backup option) \<Rightarrow> mdir \<Rightarrow> string \<Rightarrow> mr_err + Backup" where
  "LoadCatalog legacy d backupID =
     (case fileOf d (DNMPath backupID) of
        Some f \<Rightarrow> liftDnm
          (case OpenDNMReader f of
             Inl e \<Rightarrow> Inl e
           | Inr r \<Rightarrow>
          (case readMetadata r of
             Inl e \<Rightarrow> Inl e
           | Inr b \<Rightarrow>
               if 0 < si_count (dr_catalog r)
               then (case readAllCatalog r of Inl e \<Rightarrow> Inl e | Inr files \<Rightarrow> Inr (b\<lparr> b_FileCatalog := files \<rparr>))
               else Inr b))
      | None \<Rightarrow>
          (case loadLegacy legacy d backupID of Inl e \<Rightarrow> Inl e | Inr b \<Rightarrow> Inr (b\<lparr> b_Entries := [] \<rparr>)))"

definition NewEntryAccessor :: "mdir \<Rightarrow> string \<Rightarrow> mr_err + EntryAccessor" where
  "NewEntryAccessor d backupID =
     (case fileOf d (DNMPath backupID) of
        Some f \<Rightarrow> (case OpenDNMReader f of Inl e \<Rightarrow> Inl (MrDnm e) | Inr r \<Rightarrow> Inr (NewDNMEntryAccessor r))
      | None \<Rightarrow> (case ReadEntries d backupID of Inl e \<Rightarrow> Inl e | Inr es \<Rightarrow> Inr (NewSliceEntryAccessor es)))"

definition LoadForBlockRestore :: "(bytes \<Rightarrow> Backup option) \<Rightarrow> mdir \<Rightarrow> string \<Rightarrow> mr_err + Backup" where
  "LoadForBlockRestore legacy d backupID =
     (case fileOf d (DNMPath backupID) of
        None \<Rightarrow> Load legacy d backupID
      | Some f \<Rightarrow> liftDnm
          (case OpenDNMReader f of
             Inl e \<Rightarrow> Inl e
           | Inr r \<Rightarrow>
          (case readMetadata r of
             Inl e \<Rightarrow> Inl e
           | Inr b \<Rightarrow> (case readAllEntries r of Inl e \<Rightarrow> Inl e | Inr es \<Rightarrow> Inr (b\<lparr> b_Entries := es \<rparr>)))))"

definition LoadMetadata :: "(bytes \<Rightarrow> Backup option) \<Rightarrow> mdir \<Rightarrow> string \<Rightarrow> mr_err + Backup" where
  "LoadMetadata legacy d backupID =
     (case (case fileOf d (DNMPath backupID) of None \<Rightarrow> None | Some f \<Rightarrow> Some (OpenDNMReader f)) of
        Some (Inr r) \<Rightarrow> liftDnm (readMetadata r)
      | _ \<Rightarrow> (case Load legacy d backupID of Inl e \<Rightarrow> Inl e | Inr b \<Rightarrow> Inr (b\<lparr> b_Entries := [] \<rparr>)))"


section \<open>Listing and resolving\<close>

text \<open>The zero time is the first instant of year 1, before every time the format can hold.\<close>

definition timeVal :: "gotime \<Rightarrow> int" where
  "timeVal t = (case t of None \<Rightarrow> - 62135596800000000000 | Some n \<Rightarrow> n)"

definition timeBefore :: "gotime \<Rightarrow> gotime \<Rightarrow> bool" where
  "timeBefore t u \<longleftrightarrow> timeVal t < timeVal u"

text \<open>
  A manifest that does not open or decode is skipped.  A damaged section length that makes
  the runtime panic is not an error value, so it ends the listing.
\<close>

fun listLoop :: "(bytes \<Rightarrow> Backup option) \<Rightarrow> mdir \<Rightarrow> string list \<Rightarrow> mr_err + Backup list" where
  "listLoop legacy d [] = Inr []"
| "listLoop legacy d (i # ids) =
     (case (case fileOf d (DNMPath i) of
          Some f \<Rightarrow>
            (case OpenDNMReader f of
               Inl e \<Rightarrow> Inr []
             | Inr r \<Rightarrow>
                 (case readMetadata r of
                    Inl e \<Rightarrow> if e = DnmPanic then Inl (MrDnm DnmPanic) else Inr []
                  | Inr b \<Rightarrow> Inr [b\<lparr> b_CatalogCount := dr_CatalogCount r \<rparr>]))
        | None \<Rightarrow>
            (case loadLegacy legacy d i of
               Inl e \<Rightarrow> Inr []
             | Inr b \<Rightarrow> Inr [b\<lparr> b_CatalogCount := int (length (b_FileCatalog b)) \<rparr>])) of
        Inl e \<Rightarrow> Inl e
      | Inr bs \<Rightarrow> (case listLoop legacy d ids of Inl e \<Rightarrow> Inl e | Inr bs' \<Rightarrow> Inr (bs @ bs')))"

definition ListBackups :: "Backup sorter \<Rightarrow> (bytes \<Rightarrow> Backup option) \<Rightarrow> mdir \<Rightarrow> mr_err + Backup list" where
  "ListBackups srt legacy d =
     (case readDir d of
        None \<Rightarrow> Inr []
      | Some names \<Rightarrow>
          (case listLoop legacy d (collectIDs idByExt [] names) of
             Inl e \<Rightarrow> Inl e
           | Inr bs \<Rightarrow> Inr (srt (\<lambda>a b. timeBefore (b_Timestamp a) (b_Timestamp b)) bs)))"

definition ResolveID :: "mdir \<Rightarrow> string \<Rightarrow> mr_err + string" where
  "ResolveID d partialID =
     (case readDir d of
        None \<Rightarrow> Inl MrNoDir
      | Some names \<Rightarrow>
          (case filter (\<lambda>i. hasPrefix i partialID) (collectIDs idByExt [] names) of
             [] \<Rightarrow> Inl MrNoMatch
           | [i] \<Rightarrow> Inr i
           | ms \<Rightarrow> Inl (MrAmbiguous (length ms))))"

definition GetBackup :: "(bytes \<Rightarrow> Backup option) \<Rightarrow> mdir \<Rightarrow> string \<Rightarrow> mr_err + Backup" where
  "GetBackup legacy d partialID = (case ResolveID d partialID of Inl e \<Rightarrow> Inl e | Inr fullID \<Rightarrow> Load legacy d fullID)"

definition DeleteBackup :: "string \<Rightarrow> mdir \<Rightarrow> mr_err option \<times> mdir" where
  "DeleteBackup backupID d =
     (let d' = removeFile (manifestPath backupID) (removeFile (DNMPath backupID) d) in
      if fileOf d (DNMPath backupID) = None \<and> fileOf d (manifestPath backupID) = None then (Some MrNotFound, d')
      else (None, removeFile (EntriesPath backupID) d'))"


section \<open>Repair and migration\<close>

fun isSorted :: "Entry list \<Rightarrow> bool" where
  "isSorted (x # y # es) \<longleftrightarrow> \<not> e_VolumeOffset y < e_VolumeOffset x \<and> isSorted (y # es)"
| "isSorted _ \<longleftrightarrow> True"

record counts =
  cn_done :: nat
  cn_skipped :: nat
  cn_failed :: nat

text \<open>A panic while a manifest is loaded ends the whole call.\<close>

definition panics :: "mr_err \<Rightarrow> bool" where
  "panics e \<longleftrightarrow> e = MrDnm DnmPanic"

definition repairOne :: "Entry sorter \<Rightarrow> (bytes \<Rightarrow> Backup option) \<Rightarrow> bool \<Rightarrow> string \<Rightarrow> counts \<times> mdir \<Rightarrow> mr_err + (counts \<times> mdir)" where
  "repairOne srt legacy dryRun i st =
     (case st of (c, d) \<Rightarrow>
      (case Load legacy d i of
         Inl e \<Rightarrow> if panics e then Inl e else Inr (c\<lparr> cn_failed := cn_failed c + 1 \<rparr>, d)
       | Inr b \<Rightarrow>
           if isSorted (b_Entries b)
           then Inr (c\<lparr> cn_skipped := cn_skipped c + 1 \<rparr>,
             if fileOf d (EntriesPath i) \<noteq> None \<and> fileOf d (DNMPath i) \<noteq> None \<and> \<not> dryRun then removeFile (EntriesPath i) d else d)
           else if dryRun then Inr (c\<lparr> cn_done := cn_done c + 1 \<rparr>, d)
           else (case Save (b\<lparr> b_Entries := srt (\<lambda>x y. e_VolumeOffset x < e_VolumeOffset y) (b_Entries b) \<rparr>) d of
               (Some e, d') \<Rightarrow> Inr (c\<lparr> cn_failed := cn_failed c + 1 \<rparr>, d')
             | (None, d') \<Rightarrow> Inr (c\<lparr> cn_done := cn_done c + 1 \<rparr>, d'))))"

fun foldErr :: "('a \<Rightarrow> 's \<Rightarrow> 'e + 's) \<Rightarrow> 'a list \<Rightarrow> 's \<Rightarrow> 'e + 's" where
  "foldErr f [] s = Inr s"
| "foldErr f (x # xs) s = (case f x s of Inl e \<Rightarrow> Inl e | Inr s' \<Rightarrow> foldErr f xs s')"

definition RepairEntries :: "Backup sorter \<Rightarrow> Entry sorter \<Rightarrow> (bytes \<Rightarrow> Backup option) \<Rightarrow> string list \<Rightarrow> bool \<Rightarrow> mdir \<Rightarrow> mr_err + (counts \<times> mdir)" where
  "RepairEntries bsrt srt legacy backupIDs dryRun d =
     (case (if backupIDs = [] then (case ListBackups bsrt legacy d of Inl e \<Rightarrow> Inl e | Inr bs \<Rightarrow> Inr (map b_BackupID bs)) else Inr backupIDs) of
        Inl e \<Rightarrow> Inl e
      | Inr ids \<Rightarrow> foldErr (repairOne srt legacy dryRun) ids (\<lparr> cn_done = 0, cn_skipped = 0, cn_failed = 0 \<rparr>, d))"

definition verifyDNM :: "mdir \<Rightarrow> string \<Rightarrow> mr_err + bool" where
  "verifyDNM d i =
     (case fileOf d (DNMPath i) of
        None \<Rightarrow> Inr False
      | Some f \<Rightarrow>
          (case OpenDNMReader f of
             Inl e \<Rightarrow> Inr False
           | Inr r \<Rightarrow>
               (case readMetadata r of
                  Inl e \<Rightarrow> if e = DnmPanic then Inl (MrDnm e) else Inr False
                | Inr m \<Rightarrow> Inr (b_BackupID m = i))))"

definition migrateOne :: "(bytes \<Rightarrow> Backup option) \<Rightarrow> bool \<Rightarrow> string \<Rightarrow> counts \<times> mdir \<Rightarrow> mr_err + (counts \<times> mdir)" where
  "migrateOne legacy dryRun name st =
     (case st of (c, d) \<Rightarrow>
      if fileExt name \<noteq> ''.manifest'' \<or> hasSuffix name ''.manifest.bak'' then Inr (c, d)
      else let i = trimSuffix name ''.manifest'' in
        if fileOf d (DNMPath i) \<noteq> None then Inr (c\<lparr> cn_skipped := cn_skipped c + 1 \<rparr>, d)
        else case Load legacy d i of
          Inl e \<Rightarrow> if panics e then Inl e else Inr (c\<lparr> cn_failed := cn_failed c + 1 \<rparr>, d)
        | Inr b \<Rightarrow>
            if dryRun then Inr (c\<lparr> cn_done := cn_done c + 1 \<rparr>, d)
            else case saveDNM b d of
              (Some e, d') \<Rightarrow> Inr (c\<lparr> cn_failed := cn_failed c + 1 \<rparr>, d')
            | (None, d') \<Rightarrow>
                (case verifyDNM d' i of
                   Inl e \<Rightarrow> Inl e
                 | Inr False \<Rightarrow> Inr (c\<lparr> cn_failed := cn_failed c + 1 \<rparr>, removeFile (DNMPath i) d')
                 | Inr True \<Rightarrow> Inr (c\<lparr> cn_done := cn_done c + 1 \<rparr>,
                     renameFile (EntriesPath i) (EntriesPath i @ ''.bak'')
                       (renameFile (manifestPath i) (manifestPath i @ ''.bak'') d'))))"

definition Migrate :: "(bytes \<Rightarrow> Backup option) \<Rightarrow> bool \<Rightarrow> mdir \<Rightarrow> mr_err + (counts \<times> mdir)" where
  "Migrate legacy dryRun d =
     (let c0 = \<lparr> cn_done = 0, cn_skipped = 0, cn_failed = 0 \<rparr> in
      case readDir d of None \<Rightarrow> Inr (c0, d) | Some names \<Rightarrow> foldErr (migrateOne legacy dryRun) names (c0, d))"


section \<open>Names and identifiers\<close>

lemma hasSuffix_append [simp]: "hasSuffix (i @ suf) suf"
  by (simp add: hasSuffix_def)

lemma hasSuffix_iff: "hasSuffix s suf \<longleftrightarrow> (\<exists>i. s = i @ suf)"
  unfolding hasSuffix_def
  by (metis append_take_drop_id hasSuffix_append hasSuffix_def)

lemma trimSuffix_append [simp]: "trimSuffix (i @ suf) suf = i"
  by (simp add: trimSuffix_def)

lemma suffix_clash:
  "hasSuffix (i @ ''.dnm'') ''.manifest'' \<longleftrightarrow> False" "hasSuffix (i @ ''.manifest'') ''.dnm'' \<longleftrightarrow> False"
  "hasSuffix (i @ ''.manifest'') ''.manifest.bak'' \<longleftrightarrow> False" "hasSuffix (i @ ''.entries'') ''.dnm'' \<longleftrightarrow> False"
  "hasSuffix (i @ ''.entries'') ''.manifest'' \<longleftrightarrow> False" "hasSuffix (i @ ''.tmp'') ''.dnm'' \<longleftrightarrow> False"
  "hasSuffix (i @ ''.tmp'') ''.manifest'' \<longleftrightarrow> False" "hasSuffix (i @ ''.bak'') ''.dnm'' \<longleftrightarrow> False"
  "hasSuffix (i @ ''.bak'') ''.manifest'' \<longleftrightarrow> False"
  by (auto simp: hasSuffix_def drop_append)

lemma last_neq: "last xs \<noteq> last ys \<Longrightarrow> xs \<noteq> [] \<Longrightarrow> ys \<noteq> [] \<Longrightarrow> u @ xs = v @ ys \<longleftrightarrow> False"
  by (metis last_appendR)

lemma paths_distinct [simp]:
  "DNMPath i = DNMPath j \<longleftrightarrow> i = j" "EntriesPath i = EntriesPath j \<longleftrightarrow> i = j" "manifestPath i = manifestPath j \<longleftrightarrow> i = j"
  "DNMPath i = EntriesPath j \<longleftrightarrow> False" "EntriesPath j = DNMPath i \<longleftrightarrow> False"
  "DNMPath i = manifestPath j \<longleftrightarrow> False" "manifestPath j = DNMPath i \<longleftrightarrow> False"
  "EntriesPath i = manifestPath j \<longleftrightarrow> False" "manifestPath j = EntriesPath i \<longleftrightarrow> False"
  by (simp_all add: DNMPath_def EntriesPath_def manifestPath_def last_neq)

lemma aside_distinct [simp]:
  "DNMPath i = n @ ''.tmp'' \<longleftrightarrow> False" "EntriesPath i = n @ ''.tmp'' \<longleftrightarrow> False" "manifestPath i = n @ ''.tmp'' \<longleftrightarrow> False"
  "DNMPath i = n @ ''.bak'' \<longleftrightarrow> False" "EntriesPath i = n @ ''.bak'' \<longleftrightarrow> False" "manifestPath i = n @ ''.bak'' \<longleftrightarrow> False"
  "n @ ''.tmp'' = DNMPath i \<longleftrightarrow> False" "n @ ''.tmp'' = EntriesPath i \<longleftrightarrow> False" "n @ ''.tmp'' = manifestPath i \<longleftrightarrow> False"
  "n @ ''.bak'' = DNMPath i \<longleftrightarrow> False" "n @ ''.bak'' = EntriesPath i \<longleftrightarrow> False" "n @ ''.bak'' = manifestPath i \<longleftrightarrow> False"
  by (simp_all add: DNMPath_def EntriesPath_def manifestPath_def last_neq)

lemma fileExt_suffix: "\<exists>x. s = x @ fileExt s"
proof (cases "CHR ''.'' \<in> set s")
  case True
  then obtain ys zs where s: "s = ys @ CHR ''.'' # zs" "CHR ''.'' \<notin> set zs" by (meson split_list_last)
  have t: "takeWhile (\<lambda>c. c \<noteq> CHR ''.'') (rev zs) = rev zs" unfolding takeWhile_eq_all_conv using s(2) by (metis set_rev)
  have "fileExt s = CHR ''.'' # zs" unfolding fileExt_def s(1) by (simp add: takeWhile_tail t)
  with s(1) show ?thesis by (intro exI [of _ ys]) simp
qed (simp add: fileExt_def)

lemma fileExt_manifest: "fileExt s = ''.manifest'' \<longleftrightarrow> hasSuffix s ''.manifest''"
proof
  assume "fileExt s = ''.manifest''"
  then show "hasSuffix s ''.manifest''" using fileExt_suffix [of s] by (auto simp: hasSuffix_iff)
next
  assume "hasSuffix s ''.manifest''"
  then obtain i where "s = i @ ''.manifest''" by (auto simp: hasSuffix_iff)
  then show "fileExt s = ''.manifest''" by (simp add: fileExt_def)
qed

lemma idByExt_eq: "idByExt = idBySuffix"
  by (simp add: fun_eq_iff idByExt_def idBySuffix_def fileExt_manifest)

lemma idBySuffix_paths [simp]:
  "idBySuffix (DNMPath i) = Some i" "idBySuffix (manifestPath i) = Some i"
  by (simp_all add: idBySuffix_def DNMPath_def manifestPath_def suffix_clash)

lemma idBySuffix_iff: "idBySuffix n = Some i \<longleftrightarrow> n = DNMPath i \<or> n = manifestPath i"
proof (cases "hasSuffix n ''.dnm''")
  case True
  then obtain j where "n = DNMPath j" unfolding hasSuffix_iff DNMPath_def by blast
  then show ?thesis by auto
next
  case dnm: False
  show ?thesis
  proof (cases "hasSuffix n ''.manifest''")
    case True
    then obtain j where "n = manifestPath j" unfolding hasSuffix_iff manifestPath_def by blast
    then show ?thesis by auto
  next
    case False
    then have "idBySuffix n = None" using dnm by (simp add: idBySuffix_def)
    moreover have "n \<noteq> DNMPath i" using dnm unfolding DNMPath_def by (metis hasSuffix_append)
    moreover have "n \<noteq> manifestPath i" using False unfolding manifestPath_def by (metis hasSuffix_append)
    ultimately show ?thesis by simp
  qed
qed

lemma set_collectIDs: "set (collectIDs f seen ns) = {i. \<exists>n \<in> set ns. f n = Some i} - set seen"
  by (induction f seen ns rule: collectIDs.induct) (auto split: option.splits)

lemma distinct_collectIDs: "distinct (collectIDs f seen ns)"
  by (induction f seen ns rule: collectIDs.induct) (auto simp: set_collectIDs split: option.splits)

lemma ListIDs_iff: "i \<in> set (ListIDs d) \<longleftrightarrow> fileOf d (DNMPath i) \<noteq> None \<or> fileOf d (manifestPath i) \<noteq> None"
proof -
  have "i \<in> set (ListIDs d) \<longleftrightarrow> (\<exists>ns. readDir d = Some ns \<and> (DNMPath i \<in> set ns \<or> manifestPath i \<in> set ns))"
    by (cases "readDir d") (auto simp: ListIDs_def set_collectIDs idBySuffix_iff)
  then show ?thesis using readDir_names [of d "DNMPath i"] readDir_names [of d "manifestPath i"] by blast
qed

lemma distinct_ListIDs: "distinct (ListIDs d)"
  by (simp add: ListIDs_def distinct_collectIDs split: option.split)


section \<open>The sidecar writer\<close>

lemma fileOf_append [simp]:
  "fileOf d name = Some old \<Longrightarrow> fileOf (appendFile name bs d) n = (if n = name then Some (old @ bs) else fileOf d n)"
  by (cases d) (simp_all add: appendFile_def fileOf_def putFile_def update_conv')

lemma readSidecar_records: "readSidecar (concat (map encodeEntryRecord es)) = Inr es" if "\<forall>e \<in> set es. entryOK e"
  using that
proof (induction es)
  case (Cons e es)
  have e: "length (encodeEntryRecord e) = 45" "decodeEntryRecord (encodeEntryRecord e) = e"
    using Cons.prems entries.enc_length [of e] entries.dec_enc [of e] by simp_all
  have "readFull EntryRecordSize (concat (map encodeEntryRecord (e # es))) = Inr (encodeEntryRecord e, concat (map encodeEntryRecord es))"
    using readFull_append [OF e(1)] by (simp add: EntryRecordSize_def)
  then show ?case using Cons e(2) by (subst readSidecar.simps) simp
qed (simp add: readSidecar.simps readFull_def EntryRecordSize_def)

definition writerHolds :: "EntryWriter \<Rightarrow> mdir \<Rightarrow> bytes \<Rightarrow> bool" where
  "writerHolds w d bs \<longleftrightarrow> (\<exists>f. fileOf d (ew_path w) = Some f \<and> f @ ew_buffer w = bs) \<and> length (ew_buffer w) \<le> writeBufferSize"

lemma ew_WriteEntry_holds:
  assumes "writerHolds w d bs" "entryOK e"
  shows "case ew_WriteEntry e w d of (w', d') \<Rightarrow> writerHolds w' d' (bs @ encodeEntryRecord e) \<and> ew_path w' = ew_path w \<and>
    (\<forall>n. n \<noteq> ew_path w \<longrightarrow> fileOf d' n = fileOf d n)"
  using assms entries.enc_length [OF assms(2)]
  by (auto simp: ew_WriteEntry_def writerHolds_def Let_def writeBufferSize_def)

lemma ew_WriteAll_holds:
  assumes "writerHolds w d bs" "\<forall>e \<in> set es. entryOK e"
  shows "case fold (\<lambda>e (w, d). ew_WriteEntry e w d) es (w, d) of (w', d') \<Rightarrow>
    writerHolds w' d' (bs @ concat (map encodeEntryRecord es)) \<and> ew_path w' = ew_path w \<and> (\<forall>n. n \<noteq> ew_path w \<longrightarrow> fileOf d' n = fileOf d n)"
  using assms
proof (induction es arbitrary: w d bs)
  case (Cons e es)
  obtain w1 d1 where wd: "ew_WriteEntry e w d = (w1, d1)" by (cases "ew_WriteEntry e w d")
  have "entryOK e" using Cons.prems(2) by simp
  from ew_WriteEntry_holds [OF Cons.prems(1) this] have
    1: "writerHolds w1 d1 (bs @ encodeEntryRecord e)" "ew_path w1 = ew_path w" "\<forall>n. n \<noteq> ew_path w \<longrightarrow> fileOf d1 n = fileOf d n"
    unfolding wd by auto
  have "\<forall>e \<in> set es. entryOK e" using Cons.prems(2) by simp
  from Cons.IH [OF 1(1) this] show ?case unfolding fold.simps comp_apply prod.case wd 1(2) using 1(3) by auto
qed (simp add: writerHolds_def)

lemma WriteEntries_file:
  assumes "\<forall>e \<in> set es. entryOK e"
  shows "fileOf (WriteEntries i es d) (EntriesPath i) = Some (concat (map encodeEntryRecord es))"
    "n \<noteq> EntriesPath i \<Longrightarrow> fileOf (WriteEntries i es d) n = fileOf d n"
proof -
  let ?w = "\<lparr> ew_path = EntriesPath i, ew_buffer = [] \<rparr>" and ?d = "putFile (EntriesPath i) [] (mkdirAll d)"
  obtain w' d' where wd: "fold (\<lambda>e (w, d). ew_WriteEntry e w d) es (?w, ?d) = (w', d')" by (cases "fold (\<lambda>e (w, d). ew_WriteEntry e w d) es (?w, ?d)")
  have "writerHolds ?w ?d []" by (simp add: writerHolds_def)
  from ew_WriteAll_holds [OF this assms] have w': "writerHolds w' d' (concat (map encodeEntryRecord es))" "ew_path w' = EntriesPath i"
    "\<forall>n. n \<noteq> EntriesPath i \<longrightarrow> fileOf d' n = fileOf ?d n" unfolding wd by auto
  have W: "WriteEntries i es d = appendFile (EntriesPath i) (ew_buffer w') d'"
    by (simp add: WriteEntries_def OpenEntryWriter_def wd ew_Close_def ew_Flush_def w'(2))
  from w'(1,2) obtain f where f: "fileOf d' (EntriesPath i) = Some f" "f @ ew_buffer w' = concat (map encodeEntryRecord es)"
    by (auto simp: writerHolds_def)
  show "fileOf (WriteEntries i es d) (EntriesPath i) = Some (concat (map encodeEntryRecord es))"
    unfolding W using f by simp
  show "n \<noteq> EntriesPath i \<Longrightarrow> fileOf (WriteEntries i es d) n = fileOf d n"
    unfolding W using f(1) w'(3) by simp
qed


section \<open>Saving\<close>

lemma fileOf_rename:
  assumes "fileOf d from = Some bs" "from \<noteq> to"
  shows "fileOf (renameFile from to d) n = (if n = to then Some bs else if n = from then None else fileOf d n)"
proof -
  have "d \<noteq> None" using assms(1) by (cases d) (simp_all add: fileOf_def)
  then show ?thesis using assms by (simp add: renameFile_def)
qed

lemma fileOf_rename_absent: "fileOf d from = None \<Longrightarrow> renameFile from to d = d"
  by (simp add: renameFile_def)

lemma saveDNM_writes:
  assumes "writeDNM b (fileOf d (EntriesPath (b_BackupID b))) = Inr f" "d \<noteq> None"
  obtains d' where "saveDNM b d = (None, d')" "d' \<noteq> None"
    "\<forall>n. fileOf d' n = (if n = DNMPath (b_BackupID b) then Some f else if n = DNMPath (b_BackupID b) @ ''.tmp'' then None else fileOf d n)"
proof -
  let ?tmp = "DNMPath (b_BackupID b) @ ''.tmp''"
  let ?d = "renameFile ?tmp (DNMPath (b_BackupID b)) (putFile ?tmp f d)"
  have tmp: "fileOf (putFile ?tmp f d) ?tmp = Some f" using assms(2) by simp
  have 1: "saveDNM b d = (None, ?d)" using assms by (simp add: saveDNM_def Let_def)
  have 2: "fileOf ?d n = (if n = DNMPath (b_BackupID b) then Some f else if n = ?tmp then None else fileOf d n)" for n
    using fileOf_rename [OF tmp, of "DNMPath (b_BackupID b)" n] assms(2) by simp
  have "?d \<noteq> None" using tmp assms(2) by (simp add: renameFile_def)
  then show thesis by (rule that [OF 1]) (intro allI, rule 2)
qed

lemma Save_writes:
  assumes "writeDNM b (fileOf d (EntriesPath (b_BackupID b))) = Inr f"
  obtains d' where "Save b d = (None, d')" "d' \<noteq> None"
    "\<forall>n. fileOf d' n = (if n = DNMPath (b_BackupID b) then Some f
      else if n = DNMPath (b_BackupID b) @ ''.tmp'' \<or> n = EntriesPath (b_BackupID b) then None else fileOf d n)"
proof -
  have "writeDNM b (fileOf (mkdirAll d) (EntriesPath (b_BackupID b))) = Inr f" using assms by simp
  then obtain d1 where d1: "saveDNM b (mkdirAll d) = (None, d1)" "d1 \<noteq> None"
    "\<forall>n. fileOf d1 n = (if n = DNMPath (b_BackupID b) then Some f else if n = DNMPath (b_BackupID b) @ ''.tmp'' then None
      else fileOf (mkdirAll d) n)"
    by (rule saveDNM_writes [OF _ dir_exists(1)])
  show thesis by (rule that [of "removeFile (EntriesPath (b_BackupID b)) d1"]) (simp_all add: Save_def d1)
qed

lemma loads_of_manifest:
  assumes "manifestFits b fs (entrySection b sidecar)" "catalogSource b fs" "\<forall>e \<in> set (b_Entries b). entryOK e"
    "writeDNM b sidecar = Inr f" "fileOf d (DNMPath i) = Some f"
  shows "Load legacy d i = Inr (storedBackup b fs (savedEntries b sidecar))"
    "LoadCatalog legacy d i = Inr (storedBackup b fs [])"
    "LoadForBlockRestore legacy d i = Inr (storedBackup b [] (savedEntries b sidecar))"
    "LoadMetadata legacy d i = Inr (storedMeta b)"
    "\<exists>ea. NewEntryAccessor d i = Inr ea \<and> presents ea (savedEntries b sidecar)"
proof -
  let ?M = "encodeMetadata b" and ?C = "catalogBytes fs" and ?E = "entrySection b sidecar" and ?n = "of_nat (length fs) :: u64"
  note small = manifestFits_small(1) [OF assms(1)]
  have f: "f = classicFile ?M ?C ?n ?E" using writeDNM_classic [OF assms(3,2) small] assms(4) by simp
  let ?r = "readerOf f 32 (32 + length ?M) (32 + length ?M + length ?C) ?M ?C ?n ?E"
  have fs: "\<forall>fe \<in> set fs. fileOK fe" and M: "decodeMetadata ?M = Inr (storedMeta b)"
    using assms(1) by (simp_all add: manifestFits_def decodeMetadata_written)
  have laid: "laid f 32 (32 + length ?M) (32 + length ?M + length ?C) ?M ?C ?E" unfolding f by (rule laid_classicFile [OF small])
  have op: "OpenDNMReader f = Inr ?r" unfolding f by (rule open_classicFile [OF small])
  note E = entriesOf_section [OF assms(3), of sidecar]
  show "Load legacy d i = Inr (storedBackup b fs (savedEntries b sidecar))"
    using loadDNM_laid [OF op laid M fs] by (simp add: Load_def assms(5) liftDnm_def storedBackup_def E)
  show "LoadMetadata legacy d i = Inr (storedMeta b)"
    by (simp add: LoadMetadata_def assms(5) op liftDnm_def readMetadata_laid [OF laid M])
  show "LoadForBlockRestore legacy d i = Inr (storedBackup b [] (savedEntries b sidecar))"
    by (simp add: LoadForBlockRestore_def assms(5) op liftDnm_def readMetadata_laid [OF laid M] readAllEntries_laid [OF laid] E
        storedBackup_def storedMeta_def storedCore_def)
  show "\<exists>ea. NewEntryAccessor d i = Inr ea \<and> presents ea (savedEntries b sidecar)"
    using presents.saved [OF assms(1-4) op] by (simp add: NewEntryAccessor_def assms(5) op)
  have n: "si_count (dr_catalog ?r) = of_nat (length fs)" by (simp add: readerOf_def)
  have "0 < (of_nat (length fs) :: u64) \<longleftrightarrow> fs \<noteq> []"
    using u64_zero_iff [of "length fs"] catalog_counts [OF laid fs] unfolding word_neq_0_conv [symmetric] by simp
  then show "LoadCatalog legacy d i = Inr (storedBackup b fs [])"
    unfolding LoadCatalog_def assms(5) op option.case sum.case readMetadata_laid [OF laid M] n
    using readAllCatalog_laid [OF laid fs]
    by (cases "fs = []") (simp_all add: liftDnm_def storedBackup_def storedMeta_def storedCore_def)
qed

lemma Load_frame:
  assumes "\<And>n. n \<in> {DNMPath i, manifestPath i, EntriesPath i} \<Longrightarrow> fileOf d' n = fileOf d n"
  shows "Load legacy d' i = Load legacy d i"
proof -
  have eq: "fileOf d' (DNMPath i) = fileOf d (DNMPath i)" "fileOf d' (manifestPath i) = fileOf d (manifestPath i)"
    "fileOf d' (EntriesPath i) = fileOf d (EntriesPath i)" using assms by simp_all
  show ?thesis unfolding Load_def loadLegacy_def ReadEntries_def eq ..
qed


section \<open>Properties\<close>

text \<open>
  C3: The life of a backup in the repository.  Saving succeeds and the backup is then found
  under its identifier and loads, in full or by part, as the stored form of what was saved,
  with the entries of the sidecar when it had none in memory; the sidecar and the temporary
  file are gone.  Every other backup loads as before.  Deleting it succeeds, makes it not
  found and leaves every other backup alone; deleting it again is an error.
\<close>

theorem backup_lifecycle:
  assumes "manifestFits b fs (entrySection b (fileOf d (EntriesPath (b_BackupID b))))" "catalogSource b fs"
    "\<forall>e \<in> set (b_Entries b). entryOK e"
  shows "\<exists>d1 d2. Save b d = (None, d1) \<and>
    Load legacy d1 (b_BackupID b) = Inr (storedBackup b fs (savedEntries b (fileOf d (EntriesPath (b_BackupID b))))) \<and>
    LoadCatalog legacy d1 (b_BackupID b) = Inr (storedBackup b fs []) \<and>
    LoadForBlockRestore legacy d1 (b_BackupID b) = Inr (storedBackup b [] (savedEntries b (fileOf d (EntriesPath (b_BackupID b))))) \<and>
    LoadMetadata legacy d1 (b_BackupID b) = Inr (storedMeta b) \<and>
    (\<exists>ea. NewEntryAccessor d1 (b_BackupID b) = Inr ea \<and> presents ea (savedEntries b (fileOf d (EntriesPath (b_BackupID b))))) \<and>
    fileOf d1 (EntriesPath (b_BackupID b)) = None \<and> fileOf d1 (DNMPath (b_BackupID b) @ ''.tmp'') = None \<and>
    set (ListIDs d1) = insert (b_BackupID b) (set (ListIDs d)) \<and>
    DeleteBackup (b_BackupID b) d1 = (None, d2) \<and> Load legacy d2 (b_BackupID b) = Inl MrNotFound \<and>
    set (ListIDs d2) = set (ListIDs d) - {b_BackupID b} \<and> fst (DeleteBackup (b_BackupID b) d2) = Some MrNotFound \<and>
    (\<forall>j. j \<noteq> b_BackupID b \<longrightarrow> Load legacy d1 j = Load legacy d j \<and> Load legacy d2 j = Load legacy d j)"
proof -
  let ?i = "b_BackupID b" and ?sc = "fileOf d (EntriesPath (b_BackupID b))"
  obtain f where f: "writeDNM b ?sc = Inr f" using writeDNM_classic [OF assms(3,2) manifestFits_small(1) [OF assms(1)]] by blast
  then obtain d1 where d1: "Save b d = (None, d1)" "d1 \<noteq> None"
    "\<forall>n. fileOf d1 n = (if n = DNMPath ?i then Some f else if n = DNMPath ?i @ ''.tmp'' \<or> n = EntriesPath ?i then None else fileOf d n)"
    by (rule Save_writes)
  let ?d2 = "removeFile (EntriesPath ?i) (removeFile (manifestPath ?i) (removeFile (DNMPath ?i) d1))"
  have del: "DeleteBackup ?i d1 = (None, ?d2)" by (simp add: DeleteBackup_def Let_def d1(3))
  have dnm: "fileOf d1 (DNMPath ?i) = Some f" by (simp add: d1(3))
  have "set (ListIDs d1) = insert ?i (set (ListIDs d))" by (auto simp: set_eq_iff ListIDs_iff d1(3))
  moreover have "set (ListIDs ?d2) = set (ListIDs d) - {?i}" by (auto simp: set_eq_iff ListIDs_iff d1(3))
  moreover have "Load legacy ?d2 ?i = Inl MrNotFound" by (simp add: Load_def loadLegacy_def)
  moreover have "fst (DeleteBackup ?i ?d2) = Some MrNotFound" by (simp add: DeleteBackup_def Let_def)
  moreover have "Load legacy d1 j = Load legacy d j" "Load legacy ?d2 j = Load legacy d j" if "j \<noteq> ?i" for j
    using that by (intro Load_frame; auto simp: d1(3))+
  moreover have "fileOf d1 (EntriesPath ?i) = None" "fileOf d1 (DNMPath ?i @ ''.tmp'') = None" by (simp_all add: d1(3))
  ultimately show ?thesis
    using loads_of_manifest [OF assms f dnm] d1(1) del by (intro exI [of _ d1] exI [of _ ?d2] conjI allI impI)
qed

theorem backup_lifecycle_witness:
  "\<exists>d1. Save (zeroBackup\<lparr> b_BackupID := ''b1'' \<rparr>) None = (None, d1) \<and> ListIDs d1 = [''b1'']"
proof -
  let ?b = "zeroBackup\<lparr> b_BackupID := ''b1'' \<rparr>"
  have "length (encodeMetadata ?b) \<le> 1000"
    by (simp add: encodeMetadata_def metaCore_def metaDigest_def metaExclusions_def encodeStrs_def zeroBackup_def writeStr16_def
      writeInt64_def writeUint32_def writeTimeNano_def writeStr8_def writeCount16_def writeUint16_def writeFloat64_def count16Sentinel_def)
  then have "manifestFits ?b [] (entrySection ?b (fileOf None (EntriesPath (b_BackupID ?b))))"
    by (simp add: manifestFits_def countable_def catalogBytes_def entrySection_def zeroBackup_def fileOf_def)
  moreover have "catalogSource ?b []" "\<forall>e \<in> set (b_Entries ?b). entryOK e" by (simp_all add: catalogSource_def zeroBackup_def)
  ultimately obtain d1 where d1: "Save ?b None = (None, d1)" "set (ListIDs d1) = insert (b_BackupID ?b) (set (ListIDs None))"
    using backup_lifecycle [of ?b "[]" None "\<lambda>_. None"] by metis
  have "set (ListIDs d1) = {''b1''}" using d1(2) by (simp add: ListIDs_def readDir_def)
  then have "ListIDs d1 = [''b1'']" using distinct_ListIDs [of d1] by (cases "ListIDs d1"; cases "tl (ListIDs d1)") auto
  then show ?thesis using d1(1) by blast
qed

end
