(* ===== verification/Go_Calendar.thy ===== *)
theory Go_Calendar
  imports Engine_Prelude
begin

text \<open>
  The calendar of Go's package \<^verbatim>\<open>time\<close> as far as the retention rules use it: the date, the day
  of the year, the hour and the ISO week of an instant in a location, and the instant of a
  date.  An instant is a number of nanoseconds since 1970, a day is numbered from 1 January
  of year 1, and a location is its \<^verbatim>\<open>lookup\<close>: the offset in force at a second, with the first
  second and the end of its period.
\<close>

section \<open>Days and dates\<close>

definition isLeap :: "int \<Rightarrow> bool" where
  "isLeap y \<longleftrightarrow> y mod 4 = 0 \<and> (y mod 100 \<noteq> 0 \<or> y mod 400 = 0)"

definition daysBeforeYear :: "int \<Rightarrow> int" where
  "daysBeforeYear y = 365 * (y - 1) + (y - 1) div 4 - (y - 1) div 100 + (y - 1) div 400"

text \<open>Year and zero-based day of the year: whole cycles of 400, 100, 4 and 1 years are cut off.\<close>

definition yearAndDay :: "int \<Rightarrow> int \<times> int" where
  "yearAndDay d =
     (let q = d div 146097; d1 = d - 146097 * q;
          c = min 3 (d1 div 36524); d2 = d1 - 36524 * c;
          b = d2 div 1461; d3 = d2 - 1461 * b;
          a = min 3 (d3 div 365)
      in (400 * q + 100 * c + 4 * b + a + 1, d3 - 365 * a))"

definition daysBeforeMonth :: "bool \<Rightarrow> nat \<Rightarrow> int" where
  "daysBeforeMonth leap m = [0, 31, 59, 90, 120, 151, 181, 212, 243, 273, 304, 334, 365] ! m + (if leap \<and> 2 \<le> m then 1 else 0)"

text \<open>Month (1 to 12) and day of the month of a day of the year.\<close>

definition monthAndDay :: "bool \<Rightarrow> int \<Rightarrow> int \<times> int" where
  "monthAndDay leap yday =
     (let m = length (filter (\<lambda>m. daysBeforeMonth leap m \<le> yday) [1..<12]) in (int m + 1, yday - daysBeforeMonth leap m + 1))"

type_synonym Location = "int \<Rightarrow> int \<times> int \<times> int"

definition UTC :: Location where
  "UTC s = (0, - 9223372036854775808, 9223372036854775807)"

definition secondsOf :: "int \<Rightarrow> int" where
  "secondsOf t = t div 1000000000"

definition localSeconds :: "Location \<Rightarrow> int \<Rightarrow> int" where
  "localSeconds loc t = secondsOf t + fst (loc (secondsOf t))"

text \<open>Seconds from the first day of year 1 to 1970 are 719162 days.\<close>

definition localDay :: "Location \<Rightarrow> int \<Rightarrow> int" where
  "localDay loc t = localSeconds loc t div 86400 + 719162"

definition t_Hour :: "Location \<Rightarrow> int \<Rightarrow> int" where
  "t_Hour loc t = localSeconds loc t mod 86400 div 3600"

definition t_Date :: "Location \<Rightarrow> int \<Rightarrow> int \<times> int \<times> int" where
  "t_Date loc t = (let (y, yd) = yearAndDay (localDay loc t); (m, d) = monthAndDay (isLeap y) yd in (y, m, d))"

definition t_YearDay :: "Location \<Rightarrow> int \<Rightarrow> int" where
  "t_YearDay loc t = snd (yearAndDay (localDay loc t)) + 1"

text \<open>Day 0 is a Monday; a week belongs to the year of its Thursday.\<close>

definition t_ISOWeek :: "Location \<Rightarrow> int \<Rightarrow> int \<times> int" where
  "t_ISOWeek loc t = (let day = localDay loc t; (y, yd) = yearAndDay (day - day mod 7 + 3) in (y, yd div 7 + 1))"

text \<open>\<^verbatim>\<open>time.Date\<close>: months outside 1 to 12 move the year, and the offset is looked up a second time near its change.\<close>

definition goDate :: "Location \<Rightarrow> int \<Rightarrow> int \<Rightarrow> int \<Rightarrow> int \<Rightarrow> int \<Rightarrow> int" where
  "goDate loc y m d secs nsec =
     (let y' = y + (m - 1) div 12; m' = (m - 1) mod 12;
          days = daysBeforeYear y' + daysBeforeMonth (isLeap y') (nat m') + (d - 1) - 719162;
          unix = days * 86400 + secs;
          (offset, start, end') = loc unix;
          unix' = (if offset = 0 then unix
            else let utc = unix - offset in
              if utc < start then unix - fst (loc (start - 1))
              else if end' \<le> utc then unix - fst (loc end')
              else utc)
      in unix' * 1000000000 + nsec)"

definition t_AddDate :: "Location \<Rightarrow> int \<Rightarrow> int \<Rightarrow> int \<Rightarrow> int \<Rightarrow> int" where
  "t_AddDate loc t years months days =
     (case t_Date loc t of (y, m, d) \<Rightarrow>
        goDate loc (y + years) (m + months) (d + days) (localSeconds loc t mod 86400) (t mod 1000000000))"


section \<open>The calendar is a numbering of days\<close>

lemma cycles_of_year:
  fixes a b c q :: int
  assumes "0 \<le> a" "a \<le> 3" "0 \<le> b" "b \<le> 24" "0 \<le> c" "c \<le> 3"
  shows "daysBeforeYear (400 * q + 100 * c + 4 * b + a + 1) = 146097 * q + 36524 * c + 1461 * b + 365 * a"
proof -
  have "(400 * q + 100 * c + 4 * b + a) div 4 = 100 * q + 25 * c + b" using assms by simp
  moreover have "(400 * q + 100 * c + 4 * b + a) div 100 = 4 * q + c" using assms by simp
  moreover have "(400 * q + 100 * c + 4 * b + a) div 400 = q" using assms by simp
  ultimately show ?thesis by (simp add: daysBeforeYear_def)
qed

lemma cut_cycles:
  fixes x n :: int
  assumes "0 < n" "0 \<le> x" "x \<le> 4 * n"
  shows "0 \<le> min 3 (x div n)" "min 3 (x div n) \<le> 3" "0 \<le> x - n * min 3 (x div n)" "x - n * min 3 (x div n) \<le> n"
    "x - n * min 3 (x div n) = n \<longrightarrow> min 3 (x div n) = 3 \<and> x = 4 * n"
proof -
  define k r where "k = x div n" and "r = x mod n"
  have x: "x = n * k + r" "0 \<le> r" "r < n" using assms(1) by (simp_all add: k_def r_def)
  have k: "0 \<le> k" using assms by (simp add: k_def pos_imp_zdiv_nonneg_iff)
  have big: "x = 4 * n \<and> k = 4" if "4 \<le> k"
  proof -
    have "n * 4 \<le> n * k" using that assms(1) by simp
    then have "x = 4 * n" "r = 0" using x assms(3) by linarith+
    then show ?thesis using x(1) assms(1) by auto
  qed
  have "k \<le> 3 \<or> k = 4 \<and> x = 4 * n" using big by linarith
  then show "0 \<le> min 3 (x div n)" "min 3 (x div n) \<le> 3" "0 \<le> x - n * min 3 (x div n)" "x - n * min 3 (x div n) \<le> n"
    "x - n * min 3 (x div n) = n \<longrightarrow> min 3 (x div n) = 3 \<and> x = 4 * n"
    unfolding k_def [symmetric] using x k assms(1) by (auto simp: min_def)
qed

lemma yearAndDay_parts:
  obtains a b c q e where "yearAndDay d = (400 * q + 100 * c + 4 * b + a + 1, e)"
    "0 \<le> a" "a \<le> 3" "0 \<le> b" "b \<le> 24" "0 \<le> c" "c \<le> 3" "d = 146097 * q + 36524 * c + 1461 * b + 365 * a + e"
    "0 \<le> e" "e \<le> 365" "e = 365 \<longrightarrow> a = 3 \<and> (b < 24 \<or> c = 3)"
proof -
  define q d1 where "q = d div 146097" and "d1 = d - 146097 * q"
  define c where "c = min 3 (d1 div 36524)"
  define d2 where "d2 = d1 - 36524 * c"
  define b where "b = d2 div 1461"
  define d3 where "d3 = d2 - 1461 * b"
  define a where "a = min 3 (d3 div 365)"
  have "d1 = d mod 146097" by (simp only: d1_def q_def minus_mult_div_eq_mod)
  then have d1: "0 \<le> d1" "d1 \<le> 4 * 36524" using pos_mod_bound [of 146097 d] by simp_all
  note c = cut_cycles [of 36524, OF _ d1, folded c_def, folded d2_def, simplified]
  have "d3 = d2 mod 1461" by (simp only: d3_def b_def minus_mult_div_eq_mod)
  then have d3: "0 \<le> d3" "d3 \<le> 4 * 365" using pos_mod_bound [of 1461 d2] by simp_all
  note a = cut_cycles [of 365, OF _ d3, folded a_def, simplified]
  have b: "0 \<le> b" using c(3) by (simp add: b_def)
  have d2: "d2 = 1461 * b + d3" by (simp add: d3_def)
  then have b': "b \<le> 24" using c(4) d3 by linarith
  have "d3 = 1460 \<longrightarrow> b = 24 \<longrightarrow> d2 = 36524" using d2 by simp
  then have last: "d3 - 365 * a = 365 \<longrightarrow> a = 3 \<and> (b < 24 \<or> c = 3)" using a(5) c(5) b' by auto
  have "yearAndDay d = (400 * q + 100 * c + 4 * b + a + 1, d3 - 365 * a)"
    unfolding yearAndDay_def Let_def q_def [symmetric] d1_def [symmetric] c_def [symmetric] d2_def [symmetric]
      b_def [symmetric] d3_def [symmetric] a_def [symmetric] ..
  moreover have "d = 146097 * q + 36524 * c + 1461 * b + 365 * a + (d3 - 365 * a)" by (simp add: d3_def d2_def d1_def)
  moreover have "0 \<le> d3 - 365 * a" using a(3) by simp
  ultimately show thesis by (intro that [OF _ a(1,2) b b' c(1,2) _ _ a(4) last])
qed

lemma pred_div:
  fixes y n :: int
  assumes "0 < n"
  shows "y div n = (y - 1) div n + (if y mod n = 0 then 1 else 0)"
proof -
  define k r where "k = y div n" and "r = y mod n"
  have y: "y = n * k + r" "0 \<le> r" "r < n" using assms by (simp_all add: k_def r_def)
  have "(y - 1) div n = (if r = 0 then k - 1 else k)"
  proof (cases "r = 0")
    case True
    then have "y - 1 = n * (k - 1) + (n - 1)" using y by (simp add: algebra_simps)
    from int_div_pos_eq [OF this] show ?thesis using True assms by simp
  next
    case False
    then have "y - 1 = n * k + (r - 1)" "0 \<le> r - 1" "r - 1 < n" using y by auto
    from int_div_pos_eq [OF this] show ?thesis using False by simp
  qed
  then show ?thesis by (simp add: k_def [symmetric] r_def [symmetric])
qed

lemma year_length: "daysBeforeYear (y + 1) = daysBeforeYear y + 365 + (if isLeap y then 1 else 0)"
proof -
  have sum: "365 * y + (A + (if p then 1 else 0)) - (B + (if q then 1 else 0)) + (C + (if r then 1 else 0)) =
      365 * (y - 1) + A - B + C + 365 + (if p \<and> (\<not> q \<or> r) then 1 else 0)"
    if "q \<longrightarrow> p" "r \<longrightarrow> q" for A B C :: int and p q r
    using that by (cases p; cases q; cases r) simp_all
  have "y mod 100 mod 4 = y mod 4" "y mod 400 mod 100 = y mod 100" by (rule mod_mod_cancel, simp)+
  then have "y mod 100 = 0 \<longrightarrow> y mod 4 = 0" "y mod 400 = 0 \<longrightarrow> y mod 100 = 0" by (metis mod_0)+
  note sum = sum [OF this]
  have eqs: "y div 4 = (y - 1) div 4 + (if y mod 4 = 0 then 1 else 0)" "y div 100 = (y - 1) div 100 + (if y mod 100 = 0 then 1 else 0)"
    "y div 400 = (y - 1) div 400 + (if y mod 400 = 0 then 1 else 0)" by (rule pred_div, simp)+
  show ?thesis
    unfolding daysBeforeYear_def isLeap_def add_diff_cancel_right' eqs by (rule sum)
qed

lemma daysBeforeYear_mono: "y \<le> y' \<Longrightarrow> daysBeforeYear y \<le> daysBeforeYear y'"
  by (induction y' rule: int_ge_induct) (auto simp: year_length)

lemma yearAndDay_bounds:
  assumes "yearAndDay d = (y, e)"
  shows "d = daysBeforeYear y + e" "0 \<le> e" "e \<le> 365" "d < daysBeforeYear (y + 1)"
proof -
  obtain a b c q where p: "y = 400 * q + 100 * c + 4 * b + a + 1" "0 \<le> a" "a \<le> 3" "0 \<le> b" "b \<le> 24" "0 \<le> c" "c \<le> 3"
    "d = 146097 * q + 36524 * c + 1461 * b + 365 * a + e" "0 \<le> e" "e \<le> 365" "e = 365 \<longrightarrow> a = 3 \<and> (b < 24 \<or> c = 3)"
    by (rule yearAndDay_parts [of d]) (use assms in auto)
  show d: "d = daysBeforeYear y + e" and "0 \<le> e" "e \<le> 365" using p by (simp_all add: cycles_of_year)
  have "isLeap y" if "e = 365"
  proof -
    have y: "y = 400 * q + 100 * c + 4 * (b + 1)" using p(1,11) that by simp
    then have 4: "y = 4 * (100 * q + 25 * c + (b + 1))" and 100: "y = 100 * (4 * q + c) + 4 * (b + 1)" by simp_all
    have "y mod 4 = 0" unfolding 4 by (rule mod_mult_self1_is_0)
    moreover have "y mod 100 = 4 * (b + 1) mod 100" unfolding 100 by (rule mod_mult_self4)
    moreover have "4 * (b + 1) mod 100 = 4 * (b + 1)" if "b < 24" using p that by (intro mod_pos_pos_trivial) auto
    moreover have "y mod 400 = 0" if "b = 24" "c = 3"
    proof -
      have "y = 400 * (q + 1)" using y that by simp
      then show ?thesis by (simp only: mod_mult_self1_is_0)
    qed
    moreover have "b < 24 \<or> b = 24 \<and> c = 3" using p(5,11) that by auto
    ultimately show ?thesis using p(4) unfolding isLeap_def by fastforce
  qed
  then show "d < daysBeforeYear (y + 1)" using d p(10) by (cases "e = 365") (auto simp: year_length)
qed

lemma yearAndDay_inj: "yearAndDay d = yearAndDay d' \<Longrightarrow> d = d'"
  by (metis surj_pair yearAndDay_bounds(1))

lemma yearAndDay_mono:
  assumes "d \<le> d'" "yearAndDay d = (y, e)" "yearAndDay d' = (y', e')"
  shows "y < y' \<or> y = y' \<and> e \<le> e'"
proof -
  note b = yearAndDay_bounds [OF assms(2)] yearAndDay_bounds [OF assms(3)]
  have "y \<le> y'"
  proof (rule ccontr)
    assume "\<not> y \<le> y'"
    then have "daysBeforeYear (y' + 1) \<le> daysBeforeYear y" by (intro daysBeforeYear_mono) simp
    then show False using b assms(1) by linarith
  qed
  then show ?thesis using b assms(1) by auto
qed

lemma month_range: "1 \<le> fst (monthAndDay leap yd)" "fst (monthAndDay leap yd) \<le> 12"
proof -
  have "length (filter (\<lambda>m. daysBeforeMonth leap m \<le> yd) [1..<12]) \<le> 11"
    by (rule order_trans [OF length_filter_le]) simp
  then show "1 \<le> fst (monthAndDay leap yd)" "fst (monthAndDay leap yd) \<le> 12" by (simp_all add: monthAndDay_def Let_def)
qed

lemma month_mono:
  assumes "yd \<le> yd'"
  shows "fst (monthAndDay leap yd) \<le> fst (monthAndDay leap yd')"
proof -
  have "length (filter (\<lambda>m. daysBeforeMonth leap m \<le> yd) ms) \<le> length (filter (\<lambda>m. daysBeforeMonth leap m \<le> yd') ms)" for ms
    using assms by (induction ms) auto
  then show ?thesis by (simp add: monthAndDay_def Let_def)
qed


section \<open>Period keys\<close>

lemma lex_key:
  fixes y y' k k' n :: int
  assumes "0 \<le> k" "k < n" "0 \<le> k'" "k' < n"
  shows "y * n + k = y' * n + k' \<longleftrightarrow> y = y' \<and> k = k'" "y < y' \<or> y = y' \<and> k \<le> k' \<Longrightarrow> y * n + k \<le> y' * n + k'"
proof -
  have 1: "y * n + k < y' * n + k'" if "y < y'" "0 \<le> k'" "k < n" for y y' k k' :: int
  proof -
    have "(y + 1) * n \<le> y' * n" using that assms(1,2) by (intro mult_right_mono) auto
    then show ?thesis using that by (simp add: algebra_simps)
  qed
  show "y * n + k = y' * n + k' \<longleftrightarrow> y = y' \<and> k = k'"
  proof (cases y y' rule: linorder_cases)
    case less
    then show ?thesis using 1 [OF less assms(3,2)] by simp
  next
    case greater
    then show ?thesis using 1 [OF greater assms(1,4)] by simp
  qed simp
  assume "y < y' \<or> y = y' \<and> k \<le> k'"
  then show "y * n + k \<le> y' * n + k'"
  proof
    assume "y < y'"
    from 1 [OF this assms(3,2)] show ?thesis by simp
  qed simp
qed

end
