(* ===== verification/Forget.thy ===== *)
theory Forget
  imports Manifest_Repo Go_Calendar
begin

text \<open>
  Expiring backups by a keep policy (core/forget): the policy and the backups it selects,
  the closure of the selection under references (forget.go), and the run over a repository
  with its refusals, deletion and pruning (run.go).  The order of equal elements in a sort
  and the prune function are parameters; a map is an association list, and where the code
  ranges over a map and sorts the result the order plays no role.
\<close>

section \<open>The policy\<close>

record CalDur =
  cd_Years :: int
  cd_Months :: int
  cd_Days :: int
  cd_Hours :: int

definition cd_IsZero :: "CalDur \<Rightarrow> bool" where
  "cd_IsZero d \<longleftrightarrow> d = \<lparr> cd_Years = 0, cd_Months = 0, cd_Days = 0, cd_Hours = 0 \<rparr>"

record ForgetPolicy =
  fp_Last :: int
  fp_Hourly :: int
  fp_Daily :: int
  fp_Weekly :: int
  fp_Monthly :: int
  fp_Yearly :: int
  fp_Within :: CalDur
  fp_HasWithin :: bool
  fp_Now :: "int \<times> Location"
  fp_Loc :: "Location option"

definition fp_Any :: "ForgetPolicy \<Rightarrow> bool" where
  "fp_Any p \<longleftrightarrow> fp_Last p > 0 \<or> fp_Hourly p > 0 \<or> fp_Daily p > 0 \<or> fp_Weekly p > 0 \<or>
     fp_Monthly p > 0 \<or> fp_Yearly p > 0 \<or> fp_HasWithin p \<and> \<not> cd_IsZero (fp_Within p)"

definition fp_needsTime :: "ForgetPolicy \<Rightarrow> bool" where
  "fp_needsTime p \<longleftrightarrow> fp_Hourly p > 0 \<or> fp_Daily p > 0 \<or> fp_Weekly p > 0 \<or> fp_Monthly p > 0 \<or> fp_Yearly p > 0 \<or>
     fp_HasWithin p \<and> \<not> cd_IsZero (fp_Within p)"

definition fp_loc :: "ForgetPolicy \<Rightarrow> Location" where
  "fp_loc p = (case fp_Loc p of Some l \<Rightarrow> l | None \<Rightarrow> UTC)"

datatype fg_err =
    FgNoRule
  | FgNoBackups
  | FgList mr_err
  | FgUnreadable nat
  | FgNoTimestamp string
  | FgManifest string mr_err
  | FgKeepsNone
  | FgStrict "string list"
  | FgDeletesAll
  | FgConfirm
  | FgDelete nat
  | FgPrune

definition newerBackup :: "Backup \<Rightarrow> Backup \<Rightarrow> bool" where
  "newerBackup a b \<longleftrightarrow>
     (if timeVal (b_Timestamp a) \<noteq> timeVal (b_Timestamp b) then timeVal (b_Timestamp b) < timeVal (b_Timestamp a)
      else b_BackupID b < b_BackupID a)"

definition byRecency :: "Backup sorter \<Rightarrow> Backup list \<Rightarrow> Backup list" where
  "byRecency srt bs = srt newerBackup bs"

type_synonym keep_reasons = "(string \<times> string list) list"

definition reasonsOf :: "keep_reasons \<Rightarrow> string \<Rightarrow> string list" where
  "reasonsOf m i = (case map_of m i of None \<Rightarrow> [] | Some r \<Rightarrow> r)"

definition addReason :: "string \<Rightarrow> string \<Rightarrow> keep_reasons \<Rightarrow> keep_reasons" where
  "addReason i reason m = AList.update i (reasonsOf m i @ [reason]) m"

definition hourlyKey :: "Location \<Rightarrow> int \<Rightarrow> int" where
  "hourlyKey loc t = fst (t_Date loc t) * 1000000 + t_YearDay loc t * 100 + t_Hour loc t"

definition dailyKey :: "Location \<Rightarrow> int \<Rightarrow> int" where
  "dailyKey loc t = fst (t_Date loc t) * 1000 + t_YearDay loc t"

definition weeklyKey :: "Location \<Rightarrow> int \<Rightarrow> int" where
  "weeklyKey loc t = (case t_ISOWeek loc t of (y, w) \<Rightarrow> y * 100 + w)"

definition monthlyKey :: "Location \<Rightarrow> int \<Rightarrow> int" where
  "monthlyKey loc t = (case t_Date loc t of (y, m, d) \<Rightarrow> y * 100 + m)"

definition yearlyKey :: "Location \<Rightarrow> int \<Rightarrow> int" where
  "yearlyKey loc t = fst (t_Date loc t)"

definition periodRules :: "ForgetPolicy \<Rightarrow> (string \<times> int \<times> (int \<Rightarrow> int)) list" where
  "periodRules p =
     [(''hourly'', fp_Hourly p, hourlyKey (fp_loc p)), (''daily'', fp_Daily p, dailyKey (fp_loc p)),
      (''weekly'', fp_Weekly p, weeklyKey (fp_loc p)), (''monthly'', fp_Monthly p, monthlyKey (fp_loc p)),
      (''yearly'', fp_Yearly p, yearlyKey (fp_loc p))]"

text \<open>The loop over the backups of one rule; \<open>lastKey\<close> is None before the first was kept.\<close>

fun ruleLoop :: "(int \<Rightarrow> int) \<Rightarrow> int \<Rightarrow> string \<Rightarrow> int \<Rightarrow> int option \<Rightarrow> Backup list \<Rightarrow> keep_reasons \<Rightarrow> keep_reasons" where
  "ruleLoop key n name kept lastKey [] m = m"
| "ruleLoop key n name kept lastKey (b # bs) m =
     (if n \<le> kept then m
      else let k = key (timeVal (b_Timestamp b)) in
        if lastKey \<noteq> Some k then ruleLoop key n name (kept + 1) (Some k) bs (addReason (b_BackupID b) name m)
        else ruleLoop key n name kept lastKey bs m)"

definition applyRule :: "Backup list \<Rightarrow> string \<times> int \<times> (int \<Rightarrow> int) \<Rightarrow> keep_reasons \<Rightarrow> keep_reasons" where
  "applyRule desc r m = (case r of (name, n, key) \<Rightarrow> if n \<le> 0 then m else ruleLoop key n name 0 None desc m)"

definition keepWithinCutoff :: "ForgetPolicy \<Rightarrow> int" where
  "keepWithinCutoff p =
     (case fp_Now p of (now, nowLoc) \<Rightarrow>
        t_AddDate nowLoc now (- cd_Years (fp_Within p)) (- cd_Months (fp_Within p)) (- cd_Days (fp_Within p)) +
        i64 (i64 (- cd_Hours (fp_Within p)) * 3600000000000))"

definition selectByPolicy :: "Backup sorter \<Rightarrow> Backup list \<Rightarrow> ForgetPolicy \<Rightarrow> fg_err + keep_reasons" where
  "selectByPolicy srt bs p =
     (let desc = byRecency srt bs in
      case (if fp_needsTime p then List.find (\<lambda>b. b_Timestamp b = None) desc else None) of
        Some b \<Rightarrow> Inl (FgNoTimestamp (b_BackupID b))
      | None \<Rightarrow>
          let m0 = fold (\<lambda>b. addReason (b_BackupID b) ''last'') (take (nat (fp_Last p)) desc) [];
              m1 = fold (applyRule desc) (periodRules p) m0
          in Inr (if fp_HasWithin p \<and> \<not> cd_IsZero (fp_Within p)
             then fold (\<lambda>b. addReason (b_BackupID b) ''within'')
               (filter (\<lambda>b. \<not> timeVal (b_Timestamp b) < keepWithinCutoff p) desc) m1
             else m1))"


section \<open>References\<close>

record Dangling =
  dg_From :: string
  dg_To :: string
  dg_Via :: string

record refEdge =
  re_ID :: string
  re_Via :: string

fun dataEdges :: "string list \<Rightarrow> FileEntry list \<Rightarrow> refEdge list" where
  "dataEdges seen [] = []"
| "dataEdges seen (f # fs) =
     (let d = fe_DataBackupID f in
      if d \<noteq> [] \<and> d \<notin> set seen then \<lparr> re_ID = d, re_Via = ''data'' \<rparr> # dataEdges (d # seen) fs else dataEdges seen fs)"

definition referenceEdges :: "Backup \<Rightarrow> refEdge list" where
  "referenceEdges b =
     (if b_ParentBackupID b \<noteq> [] then [\<lparr> re_ID = b_ParentBackupID b, re_Via = ''parent'' \<rparr>] else []) @ dataEdges [] (b_FileCatalog b)"

definition short :: "string \<Rightarrow> string" where
  "short i = take 8 i"

definition promotedReason :: "string \<Rightarrow> string \<Rightarrow> string" where
  "promotedReason from via = ''promoted: referenced by '' @ short from @ '' via '' @ via"

definition protectEdge :: "string list \<Rightarrow> string \<Rightarrow> refEdge \<Rightarrow> keep_reasons \<times> string list \<times> Dangling list \<Rightarrow>
    keep_reasons \<times> string list \<times> Dangling list" where
  "protectEdge allIDs from e st =
     (case st of (protected, queue, dangling) \<Rightarrow>
        if re_ID e \<notin> set allIDs then (protected, queue, dangling @ [\<lparr> dg_From = from, dg_To = re_ID e, dg_Via = re_Via e \<rparr>])
        else if map_of protected (re_ID e) = None
        then (AList.update (re_ID e) [promotedReason from (re_Via e)] protected, queue @ [re_ID e], dangling)
        else (protected, queue, dangling))"

definition openIDs :: "string list \<Rightarrow> keep_reasons \<Rightarrow> string set" where
  "openIDs allIDs protected = {i \<in> set allIDs. map_of protected i = None}"

lemma protectEdge_measure:
  "length (fst (snd (protectEdge allIDs from e st))) + 2 * card (openIDs allIDs (fst (protectEdge allIDs from e st)))
     \<le> length (fst (snd st)) + 2 * card (openIDs allIDs (fst st))"
proof (cases st)
  case (fields protected queue dangling)
  show ?thesis
  proof (cases "re_ID e \<in> set allIDs \<and> map_of protected (re_ID e) = None")
    case True
    then have "openIDs allIDs protected = insert (re_ID e) (openIDs allIDs (AList.update (re_ID e) r protected))"
      "re_ID e \<notin> openIDs allIDs (AList.update (re_ID e) r protected)" for r
      by (auto simp: openIDs_def update_conv')
    moreover have "finite (openIDs allIDs m)" for m by (simp add: openIDs_def)
    ultimately have "card (openIDs allIDs protected) = Suc (card (openIDs allIDs (AList.update (re_ID e) r protected)))" for r
      by (metis card_insert_disjoint)
    from this [of "[promotedReason from (re_Via e)]"] show ?thesis using True by (simp add: protectEdge_def fields)
  qed (auto simp: fields protectEdge_def)
qed

lemma protectEdges_measure:
  "length (fst (snd (fold (protectEdge allIDs from) es st))) + 2 * card (openIDs allIDs (fst (fold (protectEdge allIDs from) es st)))
     \<le> length (fst (snd st)) + 2 * card (openIDs allIDs (fst st))"
proof (induction es arbitrary: st)
  case (Cons e es)
  from Cons [of "protectEdge allIDs from e st"] protectEdge_measure [of allIDs "from" e st] show ?case by simp
qed simp

text \<open>The worklist: each identifier enters the queue at most once.\<close>

function protectLoop :: "refEdge sorter \<Rightarrow> string list \<Rightarrow> (string \<Rightarrow> mr_err + Backup) \<Rightarrow> keep_reasons \<times> string list \<times> Dangling list \<Rightarrow>
    fg_err + (keep_reasons \<times> Dangling list)" where
  "protectLoop srt allIDs load (protected, [], dangling) = Inr (protected, dangling)"
| "protectLoop srt allIDs load (protected, i # queue, dangling) =
     (case load i of
        Inl e \<Rightarrow> Inl (FgManifest i e)
      | Inr b \<Rightarrow> protectLoop srt allIDs load
          (fold (protectEdge allIDs i) (srt (\<lambda>x y. re_ID x < re_ID y) (referenceEdges b)) (protected, queue, dangling)))"
  by pat_completeness auto
termination
proof (relation "measure (\<lambda>(_, allIDs, _, protected, queue, _). length queue + 2 * card (openIDs allIDs protected))", goal_cases)
  case (2 srt allIDs load protected i queue dangling b)
  show ?case
    using protectEdges_measure [of allIDs i "srt (\<lambda>x y. re_ID x < re_ID y) (referenceEdges b)" "(protected, queue, dangling)"]
    by (simp add: case_prod_beta)
qed simp

definition Protect :: "refEdge sorter \<Rightarrow> string list \<Rightarrow> keep_reasons \<Rightarrow> (string \<Rightarrow> mr_err + Backup) \<Rightarrow> fg_err + (keep_reasons \<times> Dangling list)" where
  "Protect srt allIDs keepReasons load = protectLoop srt allIDs load (keepReasons, sort (map fst keepReasons), [])"


section \<open>The run\<close>

record Decision =
  dc_ID :: string
  dc_Timestamp :: gotime
  dc_BackupType :: string
  dc_Keep :: bool
  dc_Reasons :: "string list"

record 'r Plan =
  pl_Ordered :: "Decision list"
  pl_Remove :: "string list"
  pl_Promoted :: "string list"
  pl_Dangling :: "Dangling list"
  pl_Deleted :: "string list"
  pl_Pruned :: "'r option"
  pl_DeleteErrs :: "(string \<times> mr_err) list"

record 'r ForgetOptions =
  fo_Policy :: ForgetPolicy
  fo_DryRun :: bool
  fo_Prune :: bool
  fo_Strict :: bool
  fo_Confirm :: "('r Plan \<Rightarrow> fg_err + bool) option"
  fo_Load :: "(string \<Rightarrow> mr_err + Backup) option"
  fo_DeleteFn :: "(string \<Rightarrow> mdir \<Rightarrow> mr_err option \<times> mdir) option"

definition isPromoted :: "string list \<Rightarrow> bool" where
  "isPromoted r \<longleftrightarrow> (case r of [x] \<Rightarrow> hasPrefix x ''promoted:'' | _ \<Rightarrow> False)"

definition decisionOf :: "keep_reasons \<Rightarrow> Backup \<Rightarrow> Decision" where
  "decisionOf protected b =
     \<lparr> dc_ID = b_BackupID b, dc_Timestamp = b_Timestamp b, dc_BackupType = b_BackupType b,
       dc_Keep = map_of protected (b_BackupID b) \<noteq> None, dc_Reasons = reasonsOf protected (b_BackupID b) \<rparr>"

definition planOf :: "Backup list \<Rightarrow> keep_reasons \<Rightarrow> Dangling list \<Rightarrow> string list \<Rightarrow> 'r Plan" where
  "planOf descBs protected dangling promoted =
     \<lparr> pl_Ordered = map (decisionOf protected) descBs,
       pl_Remove = map b_BackupID (filter (\<lambda>b. map_of protected (b_BackupID b) = None) descBs),
       pl_Promoted = promoted, pl_Dangling = dangling, pl_Deleted = [], pl_Pruned = None, pl_DeleteErrs = [] \<rparr>"

definition deleteOne :: "(string \<Rightarrow> mdir \<Rightarrow> mr_err option \<times> mdir) \<Rightarrow> string \<Rightarrow> 'r Plan \<times> mdir \<Rightarrow> 'r Plan \<times> mdir" where
  "deleteOne deleteFn i st =
     (case st of (plan, d) \<Rightarrow>
       (case deleteFn i d of
          (Some e, d') \<Rightarrow> (plan\<lparr> pl_DeleteErrs := AList.update i e (pl_DeleteErrs plan) \<rparr>, d')
        | (None, d') \<Rightarrow> (plan\<lparr> pl_Deleted := pl_Deleted plan @ [i] \<rparr>, d')))"

text \<open>Everything up to the plan reads only.\<close>

definition forgetPlan :: "Backup sorter \<Rightarrow> refEdge sorter \<Rightarrow> (bytes \<Rightarrow> Backup option) \<Rightarrow> 'r ForgetOptions \<Rightarrow> mdir \<Rightarrow> fg_err + 'r Plan" where
  "forgetPlan bsrt esrt legacy opts d =
     (if \<not> fp_Any (fo_Policy opts) then Inl FgNoRule
      else let load = (case fo_Load opts of Some l \<Rightarrow> l | None \<Rightarrow> LoadCatalog legacy d); rawIDs = ListIDs d in
        if rawIDs = [] then Inl FgNoBackups
        else case ListBackups bsrt legacy d of
          Inl e \<Rightarrow> Inl (FgList e)
        | Inr bs \<Rightarrow>
            if length bs \<noteq> length rawIDs then Inl (FgUnreadable (length rawIDs - length bs))
            else case selectByPolicy bsrt bs (fo_Policy opts) of
              Inl e \<Rightarrow> Inl e
            | Inr keepReasons \<Rightarrow>
                (case Protect esrt rawIDs keepReasons load of
                   Inl e \<Rightarrow> Inl e
                 | Inr (protected, dangling) \<Rightarrow>
                     if protected = [] then Inl FgKeepsNone
                     else let promoted = sort (map fst (filter (\<lambda>(i, r). isPromoted r) protected)) in
                       if fo_Strict opts \<and> promoted \<noteq> [] then Inl (FgStrict promoted)
                       else let plan = planOf (byRecency bsrt bs) protected dangling promoted in
                         if length (pl_Remove plan) = length rawIDs then Inl FgDeletesAll else Inr plan))"

definition Run :: "Backup sorter \<Rightarrow> refEdge sorter \<Rightarrow> (bytes \<Rightarrow> Backup option) \<Rightarrow> (mdir \<Rightarrow> 'r option \<times> mdir) \<Rightarrow>
    'r ForgetOptions \<Rightarrow> mdir \<Rightarrow> ('r Plan option \<times> fg_err option) \<times> mdir" where
  "Run bsrt esrt legacy pruneFn opts d =
     (case forgetPlan bsrt esrt legacy opts d of
        Inl e \<Rightarrow> ((None, Some e), d)
      | Inr plan \<Rightarrow>
          if fo_DryRun opts then ((Some plan, None), d)
          else case (case fo_Confirm opts of None \<Rightarrow> Inr True | Some confirm \<Rightarrow> confirm plan) of
            Inl e \<Rightarrow> ((Some plan, Some e), d)
          | Inr False \<Rightarrow> ((Some plan, None), d)
          | Inr True \<Rightarrow>
              let deleteFn = (case fo_DeleteFn opts of Some f \<Rightarrow> f | None \<Rightarrow> DeleteBackup);
                  (plan', d') = fold (deleteOne deleteFn) (pl_Remove plan) (plan, d)
              in if pl_DeleteErrs plan' \<noteq> [] then ((Some plan', Some (FgDelete (length (pl_DeleteErrs plan')))), d')
                 else if fo_Prune opts \<and> pl_Deleted plan' \<noteq> []
                 then (case pruneFn d' of
                     (None, d'') \<Rightarrow> ((Some plan', Some FgPrune), d'')
                   | (Some r, d'') \<Rightarrow> ((Some (plan'\<lparr> pl_Pruned := Some r \<rparr>), None), d''))
                 else ((Some plan', None), d'))"


section \<open>The closure\<close>

text \<open>What a set of backups needs, directly and through other backups, of those that exist.\<close>

inductive referenced :: "string set \<Rightarrow> (string \<Rightarrow> mr_err + Backup) \<Rightarrow> string set \<Rightarrow> string \<Rightarrow> bool"
  for allIDs load K where
  kept: "i \<in> K \<Longrightarrow> referenced allIDs load K i"
| edge: "referenced allIDs load K i \<Longrightarrow> load i = Inr b \<Longrightarrow> e \<in> set (referenceEdges b) \<Longrightarrow> re_ID e \<in> allIDs \<Longrightarrow>
    referenced allIDs load K (re_ID e)"

definition keptIDs :: "keep_reasons \<Rightarrow> string set" where
  "keptIDs m = fst ` set m"

lemma keptIDs_map_of: "map_of m i = None \<longleftrightarrow> i \<notin> keptIDs m"
  by (simp add: keptIDs_def map_of_eq_None_iff)

lemma keptIDs_update [simp]: "keptIDs (AList.update i r m) = insert i (keptIDs m)"
  by (auto simp: keptIDs_def AList.dom_update)

definition danglingEdge :: "string \<Rightarrow> refEdge \<Rightarrow> Dangling" where
  "danglingEdge from e = \<lparr> dg_From = from, dg_To = re_ID e, dg_Via = re_Via e \<rparr>"

lemma protectEdge_spec:
  assumes "protectEdge allIDs from e (p, q, dg) = (p', q', dg')"
  shows "keptIDs p' = keptIDs p \<union> ({re_ID e} \<inter> set allIDs)" "set q' = set q \<union> (keptIDs p' - keptIDs p)"
    "set dg' = set dg \<union> danglingEdge from ` {x \<in> {e}. re_ID x \<notin> set allIDs}" "\<forall>i \<in> keptIDs p. map_of p' i = map_of p i"
proof -
  consider "re_ID e \<notin> set allIDs" | "re_ID e \<in> set allIDs" "map_of p (re_ID e) = None" | "re_ID e \<in> set allIDs" "re_ID e \<in> keptIDs p"
    by (auto simp: keptIDs_map_of)
  then have "keptIDs p' = keptIDs p \<union> ({re_ID e} \<inter> set allIDs) \<and> set q' = set q \<union> (keptIDs p' - keptIDs p) \<and>
      set dg' = set dg \<union> danglingEdge from ` {x \<in> {e}. re_ID x \<notin> set allIDs} \<and> (\<forall>i \<in> keptIDs p. map_of p' i = map_of p i)"
  proof cases
    case 1
    then have "p' = p" "q' = q" "dg' = dg @ [danglingEdge from e]" "{x \<in> {e}. re_ID x \<notin> set allIDs} = {e}"
      using assms by (auto simp: protectEdge_def danglingEdge_def)
    then show ?thesis using 1 by simp
  next
    case 2
    then have "p' = AList.update (re_ID e) [promotedReason from (re_Via e)] p" "q' = q @ [re_ID e]" "dg' = dg"
      "{x \<in> {e}. re_ID x \<notin> set allIDs} = {}" "re_ID e \<notin> keptIDs p"
      using assms by (auto simp: protectEdge_def keptIDs_map_of)
    then show ?thesis using 2 by (auto simp: update_conv')
  next
    case 3
    then have "p' = p" "q' = q" "dg' = dg" "{x \<in> {e}. re_ID x \<notin> set allIDs} = {}"
      using assms by (auto simp: protectEdge_def keptIDs_map_of)
    then show ?thesis using 3 by auto
  qed
  then show "keptIDs p' = keptIDs p \<union> ({re_ID e} \<inter> set allIDs)" "set q' = set q \<union> (keptIDs p' - keptIDs p)"
    "set dg' = set dg \<union> danglingEdge from ` {x \<in> {e}. re_ID x \<notin> set allIDs}" "\<forall>i \<in> keptIDs p. map_of p' i = map_of p i" by blast+
qed

lemma protectEdges_spec:
  "fold (protectEdge allIDs from) es (p, q, dg) = (p', q', dg') \<Longrightarrow>
     keptIDs p' = keptIDs p \<union> (re_ID ` set es \<inter> set allIDs) \<and> set q' = set q \<union> (keptIDs p' - keptIDs p) \<and>
     set dg' = set dg \<union> danglingEdge from ` {e \<in> set es. re_ID e \<notin> set allIDs} \<and> (\<forall>i \<in> keptIDs p. map_of p' i = map_of p i)"
proof (induction es arbitrary: p q dg)
  case (Cons e es)
  obtain p1 q1 dg1 where e: "protectEdge allIDs from e (p, q, dg) = (p1, q1, dg1)" by (metis prod_cases3)
  note 1 = protectEdge_spec [OF e]
  from Cons.prems e have "fold (protectEdge allIDs from) es (p1, q1, dg1) = (p', q', dg')" by simp
  note IH0 = Cons.IH [OF this]
  note IH = conjunct1 [OF IH0] conjunct1 [OF conjunct2 [OF IH0]] conjunct1 [OF conjunct2 [OF conjunct2 [OF IH0]]]
    conjunct2 [OF conjunct2 [OF conjunct2 [OF IH0]]]
  have sub: "keptIDs p \<subseteq> keptIDs p1" "keptIDs p1 \<subseteq> keptIDs p'" unfolding IH(1) 1(1) by blast+
  have "keptIDs p' = keptIDs p \<union> (re_ID ` set (e # es) \<inter> set allIDs)"
    unfolding IH(1) 1(1) list.set image_insert by blast
  moreover have "set q' = set q \<union> (keptIDs p' - keptIDs p)" unfolding IH(2) 1(2) using sub by blast
  moreover have "{x \<in> set (e # es). re_ID x \<notin> set allIDs} = {x \<in> {e}. re_ID x \<notin> set allIDs} \<union> {x \<in> set es. re_ID x \<notin> set allIDs}"
    by auto
  then have "set dg' = set dg \<union> danglingEdge from ` {x \<in> set (e # es). re_ID x \<notin> set allIDs}"
    unfolding IH(3) 1(3) by (simp only: image_Un Un_assoc)
  moreover have "\<forall>i \<in> keptIDs p. map_of p' i = map_of p i" using sub(1) IH(4) 1(4) by auto
  ultimately show ?case by (intro conjI)
qed simp

text \<open>
  The invariant of the worklist: the protected backups are referenced, and each is in the
  queue or was read and has its references protected or recorded as dangling.
\<close>

definition worklist :: "string list \<Rightarrow> (string \<Rightarrow> mr_err + Backup) \<Rightarrow> string set \<Rightarrow> keep_reasons \<times> string list \<times> Dangling list \<Rightarrow> bool" where
  "worklist allIDs load K st \<longleftrightarrow> (case st of (p, q, dg) \<Rightarrow>
     K \<subseteq> keptIDs p \<and> set q \<subseteq> keptIDs p \<and> (\<forall>i \<in> keptIDs p. referenced (set allIDs) load K i) \<and>
     (\<forall>i \<in> keptIDs p - set q. \<exists>b. load i = Inr b \<and> (\<forall>e \<in> set (referenceEdges b).
        if re_ID e \<in> set allIDs then re_ID e \<in> keptIDs p else danglingEdge i e \<in> set dg)) \<and>
     (\<forall>x \<in> set dg. dg_To x \<notin> set allIDs))"

lemma strict_weak_edges: "strict_weak (\<lambda>x y. re_ID x < re_ID y)"
  by (rule strict_weak_key)

lemma worklist_step:
  assumes "worklist allIDs load K (p, i # q, dg)" "load i = Inr b" "set es = set (referenceEdges b)"
  shows "worklist allIDs load K (fold (protectEdge allIDs i) es (p, q, dg))"
proof -
  obtain p' q' dg' where f: "fold (protectEdge allIDs i) es (p, q, dg) = (p', q', dg')" by (metis prod_cases3)
  note s0 = protectEdges_spec [OF f]
  note s = conjunct1 [OF s0, unfolded assms(3)] conjunct1 [OF conjunct2 [OF s0]] conjunct1 [OF conjunct2 [OF conjunct2 [OF s0]], unfolded assms(3)]
  from assms(1) have w: "K \<subseteq> keptIDs p" "i \<in> keptIDs p" "set q \<subseteq> keptIDs p" "\<forall>i \<in> keptIDs p. referenced (set allIDs) load K i"
    "\<forall>j \<in> keptIDs p - set (i # q). \<exists>b. load j = Inr b \<and> (\<forall>e \<in> set (referenceEdges b).
        if re_ID e \<in> set allIDs then re_ID e \<in> keptIDs p else danglingEdge j e \<in> set dg)" "\<forall>x \<in> set dg. dg_To x \<notin> set allIDs"
    by (simp_all add: worklist_def)
  have sub: "keptIDs p \<subseteq> keptIDs p'" "set dg \<subseteq> set dg'" unfolding s(1,3) by blast+
  have "referenced (set allIDs) load K j" if j: "j \<in> keptIDs p'" for j
  proof (cases "j \<in> keptIDs p")
    case False
    then obtain e where "j = re_ID e" "e \<in> set (referenceEdges b)" "re_ID e \<in> set allIDs" using j unfolding s(1) by blast
    then show ?thesis using referenced.edge [OF w(4) [rule_format, OF w(2)] assms(2)] by simp
  qed (use w(4) in blast)
  moreover have "\<exists>b. load j = Inr b \<and> (\<forall>e \<in> set (referenceEdges b).
      if re_ID e \<in> set allIDs then re_ID e \<in> keptIDs p' else danglingEdge j e \<in> set dg')" if j: "j \<in> keptIDs p' - set q'" for j
  proof (cases "j = i")
    case True
    have "if re_ID e \<in> set allIDs then re_ID e \<in> keptIDs p' else danglingEdge j e \<in> set dg'" if "e \<in> set (referenceEdges b)" for e
      using that unfolding s(1,3) True by simp
    then show ?thesis using assms(2) True by blast
  next
    case False
    then have "j \<in> keptIDs p - set (i # q)" using j unfolding s(2) by auto
    with w(5) obtain b' where b': "load j = Inr b'" "\<forall>e \<in> set (referenceEdges b').
        if re_ID e \<in> set allIDs then re_ID e \<in> keptIDs p else danglingEdge j e \<in> set dg" by blast
    have "if re_ID e \<in> set allIDs then re_ID e \<in> keptIDs p' else danglingEdge j e \<in> set dg'" if "e \<in> set (referenceEdges b')" for e
      using bspec [OF b'(2) that] sub by (auto split: if_splits)
    then show ?thesis using b'(1) by blast
  qed
  moreover have "dg_To x \<notin> set allIDs" if "x \<in> set dg'" for x
    using that w(6) unfolding s(3) by (auto simp: danglingEdge_def)
  moreover have "K \<subseteq> keptIDs p'" "set q' \<subseteq> keptIDs p'" using sub w(1,3) unfolding s(2) by blast+
  ultimately show ?thesis by (simp add: f worklist_def)
qed

lemma protectLoop_spec:
  assumes "slice_sorter srt" "worklist allIDs load K st"
  shows "case protectLoop srt allIDs load st of
      Inl err \<Rightarrow> \<exists>i e. err = FgManifest i e \<and> referenced (set allIDs) load K i \<and> load i = Inl e
    | Inr (p, dg) \<Rightarrow> worklist allIDs load K (p, [], dg) \<and> (\<forall>i \<in> keptIDs (fst st). map_of p i = map_of (fst st) i)"
  using assms
proof (induction srt allIDs load st rule: protectLoop.induct)
  case (1 srt allIDs load p dg)
  then show ?case by simp
next
  case (2 srt allIDs load p i q dg)
  show ?case
  proof (cases "load i")
    case (Inl e)
    then show ?thesis using 2(3) by (simp add: worklist_def)
  next
    case (Inr b)
    let ?es = "srt (\<lambda>x y. re_ID x < re_ID y) (referenceEdges b)"
    obtain p1 q1 dg1 where f: "fold (protectEdge allIDs i) ?es (p, q, dg) = (p1, q1, dg1)" by (metis prod_cases3)
    have "set ?es = set (referenceEdges b)" using 2(2) strict_weak_edges by (rule sorter_set)
    from worklist_step [OF 2(3) Inr this] have w: "worklist allIDs load K (p1, q1, dg1)" by (simp only: f)
    have "keptIDs p \<subseteq> keptIDs p1" "\<forall>i \<in> keptIDs p. map_of p1 i = map_of p i" using protectEdges_spec [OF f] by blast+
    then show ?thesis using 2(1) [OF Inr 2(2), unfolded f, OF w] Inr f by (auto split: sum.splits)
  qed
qed

lemma Protect_spec:
  assumes "slice_sorter srt"
  shows "case Protect srt allIDs keepReasons load of
      Inl err \<Rightarrow> \<exists>i e. err = FgManifest i e \<and> referenced (set allIDs) load (keptIDs keepReasons) i \<and> load i = Inl e
    | Inr (p, dg) \<Rightarrow> keptIDs p = {i. referenced (set allIDs) load (keptIDs keepReasons) i} \<and>
        (\<forall>i \<in> keptIDs p. \<exists>b. load i = Inr b \<and> (\<forall>e \<in> set (referenceEdges b).
           if re_ID e \<in> set allIDs then re_ID e \<in> keptIDs p else danglingEdge i e \<in> set dg)) \<and>
        (\<forall>x \<in> set dg. dg_To x \<notin> set allIDs) \<and> (\<forall>i \<in> keptIDs keepReasons. map_of p i = map_of keepReasons i)"
proof -
  let ?K = "keptIDs keepReasons" and ?st = "(keepReasons, sort (map fst keepReasons), [] :: Dangling list)"
  have "worklist allIDs load ?K ?st" by (auto simp: worklist_def keptIDs_def intro: referenced.kept)
  note spec = protectLoop_spec [OF assms this]
  show ?thesis
  proof (cases "Protect srt allIDs keepReasons load")
    case (Inl err)
    then show ?thesis using spec by (simp add: Protect_def)
  next
    case (Inr r)
    obtain p dg where r: "r = (p, dg)" by (cases r)
    have w: "worklist allIDs load ?K (p, [], dg)" "\<forall>i \<in> ?K. map_of p i = map_of keepReasons i"
      using spec Inr r by (simp_all add: Protect_def)
    have "i \<in> keptIDs p" if "referenced (set allIDs) load ?K i" for i
      using that
    proof induction
      case (kept i)
      then show ?case using w(1) by (auto simp: worklist_def)
    next
      case (edge i b e)
      from w(1) edge.IH obtain b' where "load i = Inr b'" "\<forall>e \<in> set (referenceEdges b').
        if re_ID e \<in> set allIDs then re_ID e \<in> keptIDs p else danglingEdge i e \<in> set dg" by (auto simp: worklist_def)
      then show ?case using edge.hyps by auto
    qed
    then show ?thesis using w unfolding Inr r by (auto simp: worklist_def)
  qed
qed

end
