(* ===== verification/Migration.thy ===== *)
theory Migration
  imports Manifest_Repo
begin

text \<open>
  Migration of legacy manifests and repair of unordered entries: what they keep of the
  backups of a repository, and where migration goes wrong.
\<close>

section \<open>Reading a sidecar\<close>

lemma readSidecar_Nil: "readSidecar f = Inr [] \<Longrightarrow> f = []"
  by (subst (asm) readSidecar.simps) (auto simp: readFull_def EntryRecordSize_def split: if_splits sum.splits)

lemma Load_legacy:
  assumes "fileOf d (DNMPath i) = None" "Load legacy d i = Inr b"
  shows "savedEntries b (fileOf d (EntriesPath i)) = b_Entries b"
proof (cases "b_Entries b = []")
  case True
  obtain b0 where b0: "loadLegacy legacy d i = Inr b0" using assms by (auto simp: Load_def split: sum.splits)
  have "ReadEntries d i = Inr []"
    using assms True b0 by (auto simp: Load_def split: if_splits sum.splits)
  then have "fileOf d (EntriesPath i) = None \<or> fileOf d (EntriesPath i) = Some []"
    by (auto simp: ReadEntries_def dest: readSidecar_Nil split: option.splits)
  then show ?thesis using True by (auto simp: savedEntries_def entriesOf_def)
qed (simp add: savedEntries_def)


lemma liftDnm_Inr: "liftDnm r = Inr x \<longleftrightarrow> r = Inr x"
  by (cases r) (simp_all add: liftDnm_def)


section \<open>One manifest\<close>

definition legacyOnly :: "mdir \<Rightarrow> string \<Rightarrow> bool" where
  "legacyOnly d i \<longleftrightarrow> fileOf d (manifestPath i) \<noteq> None \<and> fileOf d (DNMPath i) = None"

text \<open>A legacy backup that can be migrated: it loads, names itself, and fits the new format.\<close>

definition migratable :: "(bytes \<Rightarrow> Backup option) \<Rightarrow> mdir \<Rightarrow> string \<Rightarrow> bool" where
  "migratable legacy d i \<longleftrightarrow> (\<exists>b. Load legacy d i = Inr b \<and> b_BackupID b = i \<and> length i \<le> 255 \<and> b_CatalogSidecar b = None \<and>
     manifestFits b (b_FileCatalog b) (entrySection b (fileOf d (EntriesPath i))) \<and> (\<forall>e \<in> set (b_Entries b). entryOK e))"

definition samePaths :: "mdir \<Rightarrow> mdir \<Rightarrow> string \<Rightarrow> bool" where
  "samePaths d d' i \<longleftrightarrow> fileOf d' (DNMPath i) = fileOf d (DNMPath i) \<and> fileOf d' (manifestPath i) = fileOf d (manifestPath i) \<and>
     fileOf d' (EntriesPath i) = fileOf d (EntriesPath i)"

definition movedTo :: "(bytes \<Rightarrow> Backup option) \<Rightarrow> mdir \<Rightarrow> mdir \<Rightarrow> string \<Rightarrow> bool" where
  "movedTo legacy d d' i \<longleftrightarrow> fileOf d' (manifestPath i) = None \<and>
     (\<exists>b f. Load legacy d i = Inr b \<and> writeDNM b (fileOf d (EntriesPath i)) = Inr f \<and> fileOf d' (DNMPath i) = Some f)"

lemma manifestPath_name:
  "fileExt (manifestPath i) = ''.manifest''" "\<not> hasSuffix (manifestPath i) ''.manifest.bak''" "trimSuffix (manifestPath i) ''.manifest'' = i"
  by (simp_all add: fileExt_manifest manifestPath_def suffix_clash)

lemma fileOf_rename_any:
  "to \<notin> {DNMPath j, manifestPath j, EntriesPath j} \<Longrightarrow> n \<in> {DNMPath j, manifestPath j, EntriesPath j} \<Longrightarrow>
     fileOf (renameFile from to d) n = (if n = from then None else fileOf d n)"
  by (cases "fileOf d from"; cases d) (auto simp: renameFile_def fileOf_def putFile_def removeFile_def update_conv' delete_conv')

lemma migrateOne_moves:
  assumes "legacyOnly d i" "migratable legacy d i"
  obtains d' where "migrateOne legacy False (manifestPath i) (c, d) = Inr (c\<lparr> cn_done := cn_done c + 1 \<rparr>, d')"
    "movedTo legacy d d' i" "\<forall>j. j \<noteq> i \<longrightarrow> samePaths d d' j"
proof -
  from assms(2) obtain b where b: "Load legacy d i = Inr b" "b_BackupID b = i" "length i \<le> 255" "b_CatalogSidecar b = None"
    "manifestFits b (b_FileCatalog b) (entrySection b (fileOf d (EntriesPath i)))" "\<forall>e \<in> set (b_Entries b). entryOK e"
    by (auto simp: migratable_def)
  have cs: "catalogSource b (b_FileCatalog b)" using b(4) by (simp add: catalogSource_def)
  have d: "d \<noteq> None" using assms(1) by (cases d) (simp_all add: legacyOnly_def fileOf_def)
  obtain f where f: "writeDNM b (fileOf d (EntriesPath i)) = Inr f"
    using writeDNM_classic [OF b(6) cs manifestFits_small(1) [OF b(5)]] by blast
  from f have "writeDNM b (fileOf d (EntriesPath (b_BackupID b))) = Inr f" by (simp add: b(2))
  then obtain d1 where d1: "saveDNM b d = (None, d1)" "d1 \<noteq> None"
    "\<forall>n. fileOf d1 n = (if n = DNMPath i then Some f else if n = DNMPath i @ ''.tmp'' then None else fileOf d n)"
    using d unfolding b(2) [symmetric] by (rule saveDNM_writes)
  have dnm: "fileOf d1 (DNMPath i) = Some f" by (simp add: d1(3))
  have meta: "LoadMetadata legacy d1 i = Inr (storedMeta b)" by (rule loads_of_manifest(4) [OF b(5) cs b(6) f dnm])
  have "verifyDNM d1 i = Inr True"
  proof -
    have "b_BackupID (storedMeta b) = i" using b(2,3) by (simp add: storedMeta_def storedCore_def)
    moreover obtain r where r: "OpenDNMReader f = Inr r" "readMetadata r = Inr (storedMeta b)"
      using loads_of_manifest(5) [OF b(5) cs b(6) f dnm] meta
      by (auto simp: NewEntryAccessor_def LoadMetadata_def dnm liftDnm_Inr split: sum.splits)
    ultimately show ?thesis by (simp add: verifyDNM_def dnm)
  qed
  moreover define d2 where "d2 = renameFile (EntriesPath i) (EntriesPath i @ ''.bak'') (renameFile (manifestPath i) (manifestPath i @ ''.bak'') d1)"
  ultimately have "migrateOne legacy False (manifestPath i) (c, d) = Inr (c\<lparr> cn_done := cn_done c + 1 \<rparr>, d2)"
    using assms(1) b(1) d1(1) by (simp add: migrateOne_def manifestPath_name Let_def legacyOnly_def)
  moreover have n: "fileOf d2 n = (if n = EntriesPath i \<or> n = manifestPath i then None else fileOf d1 n)"
    if "n \<in> {DNMPath j, manifestPath j, EntriesPath j}" for n j
  proof -
    have "fileOf d2 n = (if n = EntriesPath i then None else fileOf (renameFile (manifestPath i) (manifestPath i @ ''.bak'') d1) n)"
      unfolding d2_def using that by (intro fileOf_rename_any [where j = j]) auto
    moreover have "fileOf (renameFile (manifestPath i) (manifestPath i @ ''.bak'') d1) n = (if n = manifestPath i then None else fileOf d1 n)"
      using that by (intro fileOf_rename_any [where j = j]) auto
    ultimately show ?thesis by auto
  qed
  have "movedTo legacy d d2 i"
    using b(1) f dnm n [of "DNMPath i" i] n [of "manifestPath i" i] by (simp add: movedTo_def)
  moreover have "samePaths d d2 j" if "j \<noteq> i" for j
    using that n [of "DNMPath j" j] n [of "manifestPath j" j] n [of "EntriesPath j" j] by (simp add: samePaths_def d1(3))
  ultimately show thesis by (intro that) blast+
qed

text \<open>
  A legacy manifest whose embedded identifier is not that of its file name is written over
  the manifest of the backup it names: the step counts a failure and cleans up the path of the
  file name, so the manifest that was there before is gone.
\<close>

lemma migrateOne_clobbers:
  assumes "legacyOnly d a" "Load legacy d a = Inr b" "b_BackupID b = j" "j \<noteq> a"
    "writeDNM b (fileOf d (EntriesPath j)) = Inr f" "fileOf d (DNMPath j) = Some f0"
  shows "\<exists>d'. migrateOne legacy False (manifestPath a) (c, d) = Inr (c\<lparr> cn_failed := cn_failed c + 1 \<rparr>, d') \<and> fileOf d' (DNMPath j) = Some f"
proof -
  have d: "d \<noteq> None" using assms(1) by (cases d) (simp_all add: legacyOnly_def fileOf_def)
  have "writeDNM b (fileOf d (EntriesPath (b_BackupID b))) = Inr f" by (simp add: assms(3,5))
  then obtain d1 where d1: "saveDNM b d = (None, d1)"
    "\<forall>n. fileOf d1 n = (if n = DNMPath j then Some f else if n = DNMPath j @ ''.tmp'' then None else fileOf d n)"
    using d unfolding assms(3) [symmetric] by (rule saveDNM_writes)
  have a: "DNMPath a \<noteq> DNMPath j" using assms(4) by (simp add: DNMPath_def)
  then have "fileOf d1 (DNMPath a) = None" using assms(1) by (simp add: d1(2) legacyOnly_def)
  then have "verifyDNM d1 a = Inr False" by (simp add: verifyDNM_def)
  then have "migrateOne legacy False (manifestPath a) (c, d) = Inr (c\<lparr> cn_failed := cn_failed c + 1 \<rparr>, removeFile (DNMPath a) d1)"
    using assms(1,2) d1(1) by (simp add: migrateOne_def manifestPath_name Let_def legacyOnly_def)
  moreover have "fileOf (removeFile (DNMPath a) d1) (DNMPath j) = Some f" using a d1(2) by simp
  ultimately show ?thesis by blast
qed


section \<open>All manifests\<close>

definition migratedUpTo :: "(bytes \<Rightarrow> Backup option) \<Rightarrow> mdir \<Rightarrow> string set \<Rightarrow> mdir \<Rightarrow> bool" where
  "migratedUpTo legacy d0 P d \<longleftrightarrow>
     (\<forall>i. if manifestPath i \<in> P \<and> legacyOnly d0 i then movedTo legacy d0 d i else samePaths d0 d i)"

lemma migratedUpTo_step:
  assumes "\<forall>i. legacyOnly d0 i \<longrightarrow> migratable legacy d0 i" "migratedUpTo legacy d0 P d" "name \<notin> P" "fileOf d0 name \<noteq> None"
  shows "\<exists>c' d'. migrateOne legacy False name (c, d) = Inr (c', d') \<and> migratedUpTo legacy d0 (insert name P) d' \<and> cn_failed c' = cn_failed c"
proof (cases "hasSuffix name ''.manifest''")
  case False
  then have "name \<noteq> manifestPath i" for i by (metis hasSuffix_append manifestPath_def)
  moreover have "migrateOne legacy False name (c, d) = Inr (c, d)" using False by (simp add: migrateOne_def fileExt_manifest)
  ultimately show ?thesis using assms(2) by (auto simp: migratedUpTo_def)
next
  case True
  then obtain i where name: "name = manifestPath i" unfolding hasSuffix_iff manifestPath_def by blast
  have same: "samePaths d0 d i" using assms(2,3) by (simp add: migratedUpTo_def name)
  show ?thesis
  proof (cases "legacyOnly d0 i")
    case False
    then have "fileOf d (DNMPath i) \<noteq> None" using same assms(4) by (auto simp: legacyOnly_def samePaths_def name)
    then have "migrateOne legacy False name (c, d) = Inr (c\<lparr> cn_skipped := cn_skipped c + 1 \<rparr>, d)"
      by (simp add: migrateOne_def name manifestPath_name Let_def)
    moreover have "migratedUpTo legacy d0 (insert name P) d" using assms(2) False by (auto simp: migratedUpTo_def name)
    ultimately show ?thesis by simp
  next
    case lo: True
    have load: "Load legacy d i = Load legacy d0 i" using same by (intro Load_frame) (auto simp: samePaths_def)
    have "legacyOnly d i" "migratable legacy d i"
      using lo assms(1) same by (simp_all add: legacyOnly_def samePaths_def migratable_def load)
    then obtain d' where d': "migrateOne legacy False (manifestPath i) (c, d) = Inr (c\<lparr> cn_done := cn_done c + 1 \<rparr>, d')"
      "movedTo legacy d d' i" "\<forall>j. j \<noteq> i \<longrightarrow> samePaths d d' j" by (rule migrateOne_moves)
    have "movedTo legacy d0 d' i" using d'(2) same by (simp add: movedTo_def load samePaths_def)
    moreover have "if manifestPath j \<in> P \<and> legacyOnly d0 j then movedTo legacy d0 d' j else samePaths d0 d' j" if "j \<noteq> i" for j
      using spec [OF assms(2) [unfolded migratedUpTo_def], of j] d'(3) [rule_format, OF that]
      by (cases "manifestPath j \<in> P \<and> legacyOnly d0 j") (auto simp: movedTo_def samePaths_def)
    ultimately have "if manifestPath j \<in> insert name P \<and> legacyOnly d0 j then movedTo legacy d0 d' j else samePaths d0 d' j" for j
      using lo by (cases "j = i") (simp_all add: name)
    then have "migratedUpTo legacy d0 (insert name P) d'" by (simp add: migratedUpTo_def)
    then show ?thesis using d'(1) by (simp add: name)
  qed
qed

lemma foldErr_migrate:
  assumes "\<forall>i. legacyOnly d0 i \<longrightarrow> migratable legacy d0 i" "migratedUpTo legacy d0 P d" "distinct ns" "set ns \<inter> P = {}"
    "\<forall>n \<in> set ns. fileOf d0 n \<noteq> None"
  shows "\<exists>c' d'. foldErr (migrateOne legacy False) ns (c, d) = Inr (c', d') \<and> migratedUpTo legacy d0 (set ns \<union> P) d' \<and> cn_failed c' = cn_failed c"
  using assms(2-5)
proof (induction ns arbitrary: P c d)
  case (Cons n ns)
  from migratedUpTo_step [OF assms(1) Cons.prems(1), of n c] Cons.prems obtain c1 d1 where
    1: "migrateOne legacy False n (c, d) = Inr (c1, d1)" "migratedUpTo legacy d0 (insert n P) d1" "cn_failed c1 = cn_failed c" by auto
  from Cons.IH [OF 1(2), of c1] Cons.prems obtain c2 d2 where
    "foldErr (migrateOne legacy False) ns (c1, d1) = Inr (c2, d2)" "migratedUpTo legacy d0 (set ns \<union> insert n P) d2" "cn_failed c2 = cn_failed c1"
    by auto
  with 1 show ?case by simp
qed simp

lemma movedTo_loads:
  assumes "movedTo legacy d d' i" "migratable legacy d i" "legacyOnly d i"
  shows "Load legacy d' i = map_sum id (\<lambda>b. storedBackup b (b_FileCatalog b) (b_Entries b)) (Load legacy d i)"
proof -
  from assms(2) obtain b where b: "Load legacy d i = Inr b" "b_BackupID b = i" "b_CatalogSidecar b = None"
    "manifestFits b (b_FileCatalog b) (entrySection b (fileOf d (EntriesPath i)))" "\<forall>e \<in> set (b_Entries b). entryOK e"
    by (auto simp: migratable_def)
  from assms(1) b(1) obtain f where f: "writeDNM b (fileOf d (EntriesPath i)) = Inr f" "fileOf d' (DNMPath i) = Some f"
    by (auto simp: movedTo_def)
  have "catalogSource b (b_FileCatalog b)" using b(3) by (simp add: catalogSource_def)
  from loads_of_manifest(1) [OF b(4) this b(5) f] Load_legacy [OF _ b(1)] assms(3) show ?thesis
    by (simp add: b(1) legacyOnly_def)
qed


section \<open>Properties\<close>


text \<open>A directory with one legacy manifest, whose text the decoder reads as a minimal backup.\<close>

definition sampleLegacy :: "bytes \<Rightarrow> Backup option" where
  "sampleLegacy data = (if data = [123] then Some (zeroBackup\<lparr> b_BackupID := ''b1'' \<rparr>) else None)"

lemma sampleLegacy_fits:
  "manifestFits (zeroBackup\<lparr> b_BackupID := ''b1'' \<rparr>) [] (entrySection (zeroBackup\<lparr> b_BackupID := ''b1'' \<rparr>) None)"
proof -
  let ?b = "zeroBackup\<lparr> b_BackupID := ''b1'' \<rparr>"
  have "length (encodeMetadata ?b) \<le> 1000"
    by (simp add: encodeMetadata_def metaCore_def metaDigest_def metaExclusions_def encodeStrs_def zeroBackup_def writeStr16_def
      writeInt64_def writeUint32_def writeTimeNano_def writeStr8_def writeCount16_def writeUint16_def writeFloat64_def count16Sentinel_def)
  then show ?thesis by (simp add: manifestFits_def countable_def catalogBytes_def entrySection_def zeroBackup_def)
qed


end
