(* ===== verification/Forget_Correct.thy ===== *)
theory Forget_Correct
  imports Forget Migration
begin

text \<open>
  Which backups a keep policy selects: the newest of each period, for periods that are hours,
  days, ISO weeks, months and years of a location.
\<close>

section \<open>Reasons\<close>

lemma reasonsOf_add [simp]: "reasonsOf (addReason i r m) j = (if j = i then reasonsOf m i @ [r] else reasonsOf m j)"
  by (simp add: reasonsOf_def addReason_def update_conv')

lemma keptIDs_add [simp]: "keptIDs (addReason i r m) = insert i (keptIDs m)"
  by (simp add: addReason_def)

definition addReasons :: "string \<Rightarrow> Backup list \<Rightarrow> keep_reasons \<Rightarrow> keep_reasons" where
  "addReasons r bs m = fold (\<lambda>b. addReason (b_BackupID b) r) bs m"

lemma reasonsOf_addReasons:
  "x \<in> set (reasonsOf (addReasons r bs m) i) \<longleftrightarrow> x \<in> set (reasonsOf m i) \<or> x = r \<and> i \<in> b_BackupID ` set bs"
  unfolding addReasons_def by (induction bs arbitrary: m) auto

lemma keptIDs_addReasons: "keptIDs (addReasons r bs m) = keptIDs m \<union> b_BackupID ` set bs"
  unfolding addReasons_def by (induction bs arbitrary: m) auto

text \<open>The backups that one rule keeps.\<close>

fun ruleKeeps :: "(Backup \<Rightarrow> int) \<Rightarrow> int \<Rightarrow> int \<Rightarrow> int option \<Rightarrow> Backup list \<Rightarrow> Backup list" where
  "ruleKeeps key n kept lastKey [] = []"
| "ruleKeeps key n kept lastKey (b # bs) =
     (if n \<le> kept then []
      else if lastKey \<noteq> Some (key b) then b # ruleKeeps key n (kept + 1) (Some (key b)) bs
      else ruleKeeps key n kept lastKey bs)"

lemma ruleLoop_keeps:
  "ruleLoop key n name kept lastKey bs m = addReasons name (ruleKeeps (\<lambda>b. key (timeVal (b_Timestamp b))) n kept lastKey bs) m"
  by (induction key n name kept lastKey bs m rule: ruleLoop.induct) (simp_all add: addReasons_def Let_def)

lemma set_ruleKeeps: "set (ruleKeeps key n kept lastKey bs) \<subseteq> set bs"
  by (induction key n kept lastKey bs rule: ruleKeeps.induct) auto

lemma ruleKeeps_spec:
  assumes "sorted_wrt (\<lambda>x y. key y \<le> key x) bs" "finite S" "\<forall>x \<in> set bs. \<forall>s \<in> S. key x \<le> s"
    "lastKey = (if S = {} then None else Some (Min S))" "kept = int (card S)" "distinct bs" "k < length bs"
  shows "bs ! k \<in> set (ruleKeeps key n kept lastKey bs) \<longleftrightarrow>
    key (bs ! k) \<notin> S \<union> key ` set (take k bs) \<and> int (card (S \<union> key ` set (take k bs))) < n"
  using assms
proof (induction bs arbitrary: S kept lastKey k)
  case (Cons b bs)
  have below: "key b \<in> S \<longleftrightarrow> lastKey = Some (key b)"
  proof
    assume b: "key b \<in> S"
    then have "Min S = key b" using Cons.prems(2,3) by (intro Min_eqI) auto
    then show "lastKey = Some (key b)" using b Cons.prems(4) by auto
  next
    assume "lastKey = Some (key b)"
    then have "S \<noteq> {}" "Min S = key b" using Cons.prems(4) by (auto split: if_splits)
    then show "key b \<in> S" using Min_in [OF Cons.prems(2)] by simp
  qed
  have full: "\<not> int (card (S \<union> T)) < n" if "n \<le> kept" "finite T" for T
  proof -
    have "card S \<le> card (S \<union> T)" using that(2) Cons.prems(2) by (intro card_mono) auto
    then show ?thesis using that(1) Cons.prems(5) by simp
  qed
  show ?case
  proof (cases "n \<le> kept")
    case True
    then show ?thesis using full [OF True, of "key ` set (take k (b # bs))"] by simp
  next
    case False
    show ?thesis
    proof (cases "key b \<in> S")
      case True
      have IH: "j < length bs \<Longrightarrow> bs ! j \<in> set (ruleKeeps key n kept lastKey bs) \<longleftrightarrow>
          key (bs ! j) \<notin> S \<union> key ` set (take j bs) \<and> int (card (S \<union> key ` set (take j bs))) < n" for j
        using Cons.prems by (intro Cons.IH) auto
      have b: "b \<notin> set (ruleKeeps key n kept lastKey bs)" using Cons.prems(6) set_ruleKeeps by fastforce
      have keeps: "ruleKeeps key n kept lastKey (b # bs) = ruleKeeps key n kept lastKey bs" using False True below by simp
      show ?thesis
      proof (cases k)
        case 0
        then show ?thesis using b True unfolding keeps by simp
      next
        case (Suc j)
        have "S \<union> key ` set (take k (b # bs)) = S \<union> key ` set (take j bs)" using True Suc by auto
        then show ?thesis using IH [of j] Cons.prems(7) unfolding keeps Suc by simp
      qed
    next
      case new: False
      let ?S = "insert (key b) S"
      have "Min ?S = key b" using Cons.prems(2,3) by (intro Min_eqI) auto
      then have IH: "j < length bs \<Longrightarrow> bs ! j \<in> set (ruleKeeps key n (kept + 1) (Some (key b)) bs) \<longleftrightarrow>
          key (bs ! j) \<notin> ?S \<union> key ` set (take j bs) \<and> int (card (?S \<union> key ` set (take j bs))) < n" for j
        using Cons.prems new by (intro Cons.IH) auto
      show ?thesis
      proof (cases k)
        case 0
        then show ?thesis using False new below Cons.prems(5) by simp
      next
        case (Suc j)
        have "bs ! j \<noteq> b" using Cons.prems(6,7) Suc by (metis Suc_less_eq distinct.simps(2) length_Cons nth_mem)
        then have "(b # bs) ! k \<in> set (ruleKeeps key n kept lastKey (b # bs)) \<longleftrightarrow> bs ! j \<in> set (ruleKeeps key n (kept + 1) (Some (key b)) bs)"
          using False new below Suc by simp
        moreover have "S \<union> key ` set (take k (b # bs)) = ?S \<union> key ` set (take j bs)" using Suc by simp
        ultimately show ?thesis using IH [of j] Cons.prems(7) Suc by simp
      qed
    qed
  qed
qed simp


section \<open>Recency\<close>

lemma strict_weak_newer: "strict_weak newerBackup"
  unfolding strict_weak_def newerBackup_def by (intro conjI allI impI) (auto split: if_splits)

lemma newer_total: "newerBackup a b \<or> newerBackup b a \<or> b_BackupID a = b_BackupID b"
  by (auto simp: newerBackup_def)

lemma newer_asym: "newerBackup a b \<Longrightarrow> \<not> newerBackup b a"
  by (auto simp: newerBackup_def split: if_splits)

lemma newer_time: "\<not> newerBackup b a \<Longrightarrow> timeVal (b_Timestamp b) \<le> timeVal (b_Timestamp a)"
  by (auto simp: newerBackup_def split: if_splits)

lemma byRecency_spec:
  assumes "slice_sorter srt" "distinct (map b_BackupID bs)"
  shows "set (byRecency srt bs) = set bs" "mset (byRecency srt bs) = mset bs" "distinct (map b_BackupID (byRecency srt bs))"
    "sorted_wrt (\<lambda>a b. \<not> newerBackup b a) (byRecency srt bs)"
proof -
  show m: "mset (byRecency srt bs) = mset bs" unfolding byRecency_def by (rule sorter_mset [OF assms(1) strict_weak_newer])
  then show "set (byRecency srt bs) = set bs" by (rule mset_eq_setD)
  show "distinct (map b_BackupID (byRecency srt bs))" using assms(2) m by (metis distinct_count_atmost_1 mset_map set_mset_mset)
  show "sorted_wrt (\<lambda>a b. \<not> newerBackup b a) (byRecency srt bs)" unfolding byRecency_def by (rule sorter_sorted [OF assms(1) strict_weak_newer])
qed

lemma newer_position:
  assumes "slice_sorter srt" "distinct (map b_BackupID bs)" "k < length bs"
  shows "{a \<in> set bs. newerBackup a (byRecency srt bs ! k)} = set (take k (byRecency srt bs))"
proof -
  define ds where "ds = byRecency srt bs"
  note s = byRecency_spec [OF assms(1,2), folded ds_def]
  have k: "k < length ds" using s(2) assms(3) by (metis size_mset)
  have in_order: "\<not> newerBackup (ds ! j) (ds ! i)" if "i < j" "j < length ds" for i j
    using s(4) that by (simp add: sorted_wrt_iff_nth_less)
  have "newerBackup (ds ! i) (ds ! k)" if "i < k" for i
  proof -
    have "b_BackupID (ds ! i) \<noteq> b_BackupID (ds ! k)" using s(3) that k by (auto simp: distinct_conv_nth)
    then show ?thesis using newer_total [of "ds ! i" "ds ! k"] in_order [OF that k] by auto
  qed
  moreover have "i < k" if "newerBackup (ds ! i) (ds ! k)" "i < length ds" for i
    using that in_order [of k i] newer_asym by (cases i k rule: linorder_cases) blast+
  ultimately have "a \<in> set ds \<and> newerBackup a (ds ! k) \<longleftrightarrow> (\<exists>i < k. a = ds ! i)" for a
    using k by (metis in_set_conv_nth order.strict_trans)
  moreover have "set (take k ds) = {ds ! i |i. i < k}" using k by (auto simp: nth_image [symmetric])
  ultimately have "{a \<in> set ds. newerBackup a (ds ! k)} = set (take k ds)" by auto
  then show ?thesis unfolding s(1) by (simp only: ds_def)
qed


section \<open>Periods\<close>

definition fixedOffset :: "Location \<Rightarrow> bool" where
  "fixedOffset loc \<longleftrightarrow> (\<exists>c. \<forall>s. fst (loc s) = c)"

lemma localSeconds_mono: "fixedOffset loc \<Longrightarrow> t \<le> t' \<Longrightarrow> localSeconds loc t \<le> localSeconds loc t'"
  by (auto simp: fixedOffset_def localSeconds_def secondsOf_def zdiv_mono1)

lemma localDay_mono: "fixedOffset loc \<Longrightarrow> t \<le> t' \<Longrightarrow> localDay loc t \<le> localDay loc t'"
  by (simp add: localDay_def localSeconds_mono zdiv_mono1)

lemma year_fst: "fst (t_Date loc t) = fst (yearAndDay (localDay loc t))"
  by (simp add: t_Date_def case_prod_beta Let_def)

lemma yearDay_bounds: "0 \<le> snd (yearAndDay d)" "snd (yearAndDay d) \<le> 365"
  using yearAndDay_bounds(2,3) [of d "fst (yearAndDay d)" "snd (yearAndDay d)"] by simp_all

lemma yearDay_mono:
  assumes "d \<le> d'"
  shows "fst (yearAndDay d) < fst (yearAndDay d') \<or> fst (yearAndDay d) = fst (yearAndDay d') \<and> snd (yearAndDay d) \<le> snd (yearAndDay d')"
  using yearAndDay_mono [OF assms, of "fst (yearAndDay d)" "snd (yearAndDay d)"] by simp

lemma yearly_mono: "fixedOffset loc \<Longrightarrow> t \<le> t' \<Longrightarrow> yearlyKey loc t \<le> yearlyKey loc t'"
  using yearDay_mono [OF localDay_mono] by (simp add: yearlyKey_def year_fst) fastforce

definition dayKey :: "int \<Rightarrow> int \<Rightarrow> int" where
  "dayKey n d = fst (yearAndDay d) * n + (snd (yearAndDay d) + 1)"

lemma dayKey_spec:
  assumes "366 < n"
  shows "d \<le> d' \<Longrightarrow> dayKey n d \<le> dayKey n d'" "dayKey n d = dayKey n d' \<longleftrightarrow> d = d'"
proof -
  have b: "0 \<le> snd (yearAndDay d) + 1" "snd (yearAndDay d) + 1 < n" for d using yearDay_bounds [of d] assms by simp_all
  show "dayKey n d \<le> dayKey n d'" if "d \<le> d'"
    unfolding dayKey_def using yearDay_mono [OF that] by (intro lex_key(2) [OF b b]) simp
  have "dayKey n d = dayKey n d' \<longleftrightarrow> yearAndDay d = yearAndDay d'"
    using lex_key(1) [OF b b, of _ d _ d'] by (simp add: dayKey_def prod_eq_iff)
  then show "dayKey n d = dayKey n d' \<longleftrightarrow> d = d'" using yearAndDay_inj by auto
qed

lemma daily_spec:
  shows "fixedOffset loc \<Longrightarrow> t \<le> t' \<Longrightarrow> dailyKey loc t \<le> dailyKey loc t'"
    and "dailyKey loc t = dailyKey loc t' \<longleftrightarrow> localDay loc t = localDay loc t'"
proof -
  have k: "dailyKey loc t = dayKey 1000 (localDay loc t)" for t by (simp add: dailyKey_def dayKey_def year_fst t_YearDay_def)
  show "fixedOffset loc \<Longrightarrow> t \<le> t' \<Longrightarrow> dailyKey loc t \<le> dailyKey loc t'" unfolding k by (intro dayKey_spec(1) localDay_mono) simp_all
  show "dailyKey loc t = dailyKey loc t' \<longleftrightarrow> localDay loc t = localDay loc t'" unfolding k by (rule dayKey_spec(2)) simp
qed

lemma hour_bounds: "0 \<le> t_Hour loc t" "t_Hour loc t < 24"
proof -
  have "localSeconds loc t mod 86400 div 3600 < 24"
    using pos_mod_bound [of 86400 "localSeconds loc t"] zdiv_mono1 [of "localSeconds loc t mod 86400" 86399 3600] by simp
  then show "0 \<le> t_Hour loc t" "t_Hour loc t < 24" by (simp_all add: t_Hour_def pos_imp_zdiv_nonneg_iff)
qed

lemma hour_index: "localSeconds loc t div 3600 = (localDay loc t - 719162) * 24 + t_Hour loc t"
proof -
  define q r where "q = localSeconds loc t div 86400" and "r = localSeconds loc t mod 86400"
  have "localSeconds loc t = 3600 * (24 * q) + r" by (simp add: q_def r_def)
  then have "localSeconds loc t div 3600 = 24 * q + r div 3600" by simp
  then show ?thesis by (simp add: localDay_def t_Hour_def q_def r_def)
qed

lemma hourly_spec:
  shows "fixedOffset loc \<Longrightarrow> t \<le> t' \<Longrightarrow> hourlyKey loc t \<le> hourlyKey loc t'"
    and "hourlyKey loc t = hourlyKey loc t' \<longleftrightarrow> localSeconds loc t div 3600 = localSeconds loc t' div 3600"
proof -
  let ?D = "\<lambda>t. dayKey 10000 (localDay loc t)"
  have k: "hourlyKey loc t = ?D t * 100 + t_Hour loc t" for t by (simp add: hourlyKey_def dayKey_def year_fst t_YearDay_def)
  have b: "0 \<le> t_Hour loc t" "t_Hour loc t < 100" for t using hour_bounds [of loc t] by simp_all
  have index: "localSeconds loc t div 3600 = localSeconds loc t' div 3600 \<longleftrightarrow> localDay loc t = localDay loc t' \<and> t_Hour loc t = t_Hour loc t'"
    unfolding hour_index using lex_key(1) [OF hour_bounds hour_bounds, of "localDay loc t - 719162" loc t "localDay loc t' - 719162" loc t'] by simp
  show "hourlyKey loc t = hourlyKey loc t' \<longleftrightarrow> localSeconds loc t div 3600 = localSeconds loc t' div 3600"
    unfolding index using lex_key(1) [OF b b, of "?D t" t "?D t'" t'] dayKey_spec(2) [of 10000] by (simp add: k)
  show "hourlyKey loc t \<le> hourlyKey loc t'" if f: "fixedOffset loc" "t \<le> t'"
  proof -
    have "?D t \<le> ?D t'" using localDay_mono [OF f] by (intro dayKey_spec(1)) simp_all
    moreover have "t_Hour loc t \<le> t_Hour loc t'" if "?D t = ?D t'"
    proof -
      have "localDay loc t = localDay loc t'" using that dayKey_spec(2) [of 10000] by simp
      moreover have "localSeconds loc t div 3600 \<le> localSeconds loc t' div 3600" using localSeconds_mono [OF f] by (simp add: zdiv_mono1)
      ultimately show ?thesis unfolding hour_index by simp
    qed
    ultimately show ?thesis unfolding k by (intro lex_key(2) [OF b b]) auto
  qed
qed

lemma weekly_spec:
  shows "fixedOffset loc \<Longrightarrow> t \<le> t' \<Longrightarrow> weeklyKey loc t \<le> weeklyKey loc t'"
    and "weeklyKey loc t = weeklyKey loc t' \<longleftrightarrow> localDay loc t div 7 = localDay loc t' div 7"
proof -
  define th where "th t = localDay loc t div 7 * 7 + 3" for t
  have k: "weeklyKey loc t = fst (yearAndDay (th t)) * 100 + (snd (yearAndDay (th t)) div 7 + 1)" for t
  proof -
    have "localDay loc t - localDay loc t mod 7 + 3 = th t" by (simp add: th_def minus_mod_eq_div_mult)
    then show ?thesis by (simp add: weeklyKey_def t_ISOWeek_def Let_def case_prod_beta)
  qed
  have w: "snd (yearAndDay d) div 7 \<le> 52" for d using zdiv_mono1 [OF yearDay_bounds(2), of 7 d] by simp
  have b: "0 \<le> snd (yearAndDay d) div 7 + 1" "snd (yearAndDay d) div 7 + 1 < 100" for d
    using yearDay_bounds(1) [of d] w [of d] pos_imp_zdiv_nonneg_iff [of 7 "snd (yearAndDay d)"] by linarith+
  have same: "weeklyKey loc t = weeklyKey loc t' \<longleftrightarrow> fst (yearAndDay (th t)) = fst (yearAndDay (th t')) \<and>
      snd (yearAndDay (th t)) div 7 = snd (yearAndDay (th t')) div 7"
    using lex_key(1) [OF b b, of _ "th t" _ "th t'"] by (simp add: k)
  show "weeklyKey loc t = weeklyKey loc t' \<longleftrightarrow> localDay loc t div 7 = localDay loc t' div 7"
  proof
    assume "weeklyKey loc t = weeklyKey loc t'"
    then have eq: "fst (yearAndDay (th t)) = fst (yearAndDay (th t'))" "snd (yearAndDay (th t)) div 7 = snd (yearAndDay (th t')) div 7"
      by (simp_all add: same)
    have "th t - th t' = snd (yearAndDay (th t)) - snd (yearAndDay (th t'))"
      using yearAndDay_bounds(1) [of "th t"] yearAndDay_bounds(1) [of "th t'"] eq(1) by (metis add_diff_cancel_left prod.collapse)
    moreover have "th t - th t' = 7 * (localDay loc t div 7 - localDay loc t' div 7)" by (simp add: th_def)
    moreover have "\<bar>snd (yearAndDay (th t)) - snd (yearAndDay (th t'))\<bar> < 7"
      using eq(2) div_mult_mod_eq [of "snd (yearAndDay (th t))" 7] div_mult_mod_eq [of "snd (yearAndDay (th t'))" 7]
        pos_mod_bound [of 7 "snd (yearAndDay (th t))"] pos_mod_bound [of 7 "snd (yearAndDay (th t'))"]
        pos_mod_sign [of 7 "snd (yearAndDay (th t))"] pos_mod_sign [of 7 "snd (yearAndDay (th t'))"] by linarith
    ultimately have "\<bar>7 * (localDay loc t div 7 - localDay loc t' div 7)\<bar> < 7" by simp
    then have "localDay loc t div 7 - localDay loc t' div 7 = 0" unfolding abs_mult by simp
    then show "localDay loc t div 7 = localDay loc t' div 7" by simp
  next
    assume "localDay loc t div 7 = localDay loc t' div 7"
    then have "th t = th t'" by (simp add: th_def)
    then show "weeklyKey loc t = weeklyKey loc t'" by (simp add: k)
  qed
  show "weeklyKey loc t \<le> weeklyKey loc t'" if "fixedOffset loc" "t \<le> t'"
  proof -
    have "th t \<le> th t'" using localDay_mono [OF that] by (simp add: th_def zdiv_mono1)
    from yearDay_mono [OF this] show ?thesis unfolding k by (intro lex_key(2) [OF b b]) (auto intro: zdiv_mono1)
  qed
qed

lemma monthly_spec:
  shows "fixedOffset loc \<Longrightarrow> t \<le> t' \<Longrightarrow> monthlyKey loc t \<le> monthlyKey loc t'"
    and "monthlyKey loc t = monthlyKey loc t' \<longleftrightarrow> fst (t_Date loc t) = fst (t_Date loc t') \<and> fst (snd (t_Date loc t)) = fst (snd (t_Date loc t'))"
proof -
  let ?y = "\<lambda>t. fst (yearAndDay (localDay loc t))" and ?m = "\<lambda>t. fst (monthAndDay (isLeap (fst (yearAndDay (localDay loc t)))) (snd (yearAndDay (localDay loc t))))"
  have k: "monthlyKey loc t = ?y t * 100 + ?m t" and m: "fst (snd (t_Date loc t)) = ?m t" for t
    by (simp_all add: monthlyKey_def t_Date_def Let_def case_prod_beta)
  have b: "0 \<le> ?m t" "?m t < 100" for t
    using month_range [of "isLeap (?y t)" "snd (yearAndDay (localDay loc t))"] by simp_all
  show "monthlyKey loc t = monthlyKey loc t' \<longleftrightarrow> fst (t_Date loc t) = fst (t_Date loc t') \<and> fst (snd (t_Date loc t)) = fst (snd (t_Date loc t'))"
    unfolding k m year_fst by (rule lex_key(1) [OF b b])
  show "monthlyKey loc t \<le> monthlyKey loc t'" if "fixedOffset loc" "t \<le> t'"
    unfolding k using yearDay_mono [OF localDay_mono [OF that]] by (intro lex_key(2) [OF b b]) (auto intro: month_mono)
qed


section \<open>Selection\<close>

definition timeOf :: "Backup \<Rightarrow> int" where
  "timeOf b = timeVal (b_Timestamp b)"

lemma applyRule_keeps: "applyRule desc (name, n, key) m = addReasons name (ruleKeeps (\<lambda>b. key (timeOf b)) n 0 None desc) m"
proof (cases "n \<le> 0")
  case True
  then show ?thesis by (cases desc) (simp_all add: applyRule_def addReasons_def)
qed (simp add: applyRule_def ruleLoop_keeps timeOf_def)

definition withinRule :: "ForgetPolicy \<Rightarrow> Backup \<Rightarrow> bool" where
  "withinRule p b \<longleftrightarrow> fp_HasWithin p \<and> \<not> cd_IsZero (fp_Within p) \<and> keepWithinCutoff p \<le> timeOf b"

definition policyReasons :: "ForgetPolicy \<Rightarrow> Backup list \<Rightarrow> keep_reasons" where
  "policyReasons p desc =
     addReasons ''within'' (filter (withinRule p) desc)
       (fold (\<lambda>(name, n, key). addReasons name (ruleKeeps (\<lambda>b. key (timeOf b)) n 0 None desc)) (periodRules p)
         (addReasons ''last'' (take (nat (fp_Last p)) desc) []))"

lemma selectByPolicy_eq:
  assumes "fp_needsTime p \<longrightarrow> (\<forall>b \<in> set (byRecency srt bs). b_Timestamp b \<noteq> None)"
  shows "selectByPolicy srt bs p = Inr (policyReasons p (byRecency srt bs))"
proof -
  have 0: "(if fp_needsTime p then List.find (\<lambda>b. b_Timestamp b = None) (byRecency srt bs) else None) = None"
    using assms by (simp add: find_None_iff)
  have 1: "applyRule desc = (\<lambda>(name, n, key). addReasons name (ruleKeeps (\<lambda>b. key (timeOf b)) n 0 None desc))" for desc
    by (auto simp: fun_eq_iff applyRule_keeps)
  have 2: "filter (withinRule p) desc = (if fp_HasWithin p \<and> \<not> cd_IsZero (fp_Within p)
      then filter (\<lambda>b. \<not> timeVal (b_Timestamp b) < keepWithinCutoff p) desc else [])" for desc
    by (cases "fp_HasWithin p"; cases "cd_IsZero (fp_Within p)") (simp_all add: withinRule_def [abs_def] timeOf_def not_less)
  have 3: "addReasons r [] m = m" for r m by (simp add: addReasons_def)
  show ?thesis
    unfolding selectByPolicy_def Let_def 0 policyReasons_def 1 2 by (simp add: addReasons_def [symmetric] 3)
qed

lemma ruleKeeps_newer:
  assumes "slice_sorter srt" "distinct (map b_BackupID bs)" "b \<in> set bs" "\<And>t t'. t \<le> t' \<Longrightarrow> key t \<le> key t'"
  shows "b_BackupID b \<in> b_BackupID ` set (ruleKeeps (\<lambda>b. key (timeOf b)) n 0 None (byRecency srt bs)) \<longleftrightarrow>
    (\<forall>a \<in> {a \<in> set bs. newerBackup a b}. key (timeOf a) \<noteq> key (timeOf b)) \<and>
    int (card ((\<lambda>a. key (timeOf a)) ` {a \<in> set bs. newerBackup a b})) < n"
proof -
  define ds where "ds = byRecency srt bs"
  note s = byRecency_spec [OF assms(1,2), folded ds_def]
  obtain k where k: "k < length ds" "b = ds ! k" using assms(3) s(1) by (metis in_set_conv_nth)
  have "length ds = length bs" using s(2) by (metis size_mset)
  then have newer: "{a \<in> set bs. newerBackup a b} = set (take k ds)"
    using newer_position [OF assms(1,2), of k, folded ds_def] k by simp
  have "sorted_wrt (\<lambda>x y. key (timeOf y) \<le> key (timeOf x)) ds"
    using s(4) by (rule sorted_wrt_mono_rel [rotated]) (auto simp: timeOf_def intro: assms(4) newer_time)
  moreover have "distinct ds" using s(3) by (simp add: distinct_map)
  ultimately have "ds ! k \<in> set (ruleKeeps (\<lambda>b. key (timeOf b)) n 0 None ds) \<longleftrightarrow>
      key (timeOf (ds ! k)) \<notin> {} \<union> (\<lambda>b. key (timeOf b)) ` set (take k ds) \<and> int (card ({} \<union> (\<lambda>b. key (timeOf b)) ` set (take k ds))) < n"
    using k(1) by (intro ruleKeeps_spec) simp_all
  moreover have "inj_on b_BackupID (set ds)" using s(3) by (simp add: distinct_map)
  then have "b_BackupID b \<in> b_BackupID ` set (ruleKeeps (\<lambda>b. key (timeOf b)) n 0 None ds) \<longleftrightarrow> b \<in> set (ruleKeeps (\<lambda>b. key (timeOf b)) n 0 None ds)"
    using set_ruleKeeps [of _ n 0 None ds] k by (intro inj_on_image_mem_iff) auto
  moreover have "(\<forall>a \<in> set (take k ds). key (timeOf a) \<noteq> key (timeOf b)) \<longleftrightarrow> key (timeOf b) \<notin> (\<lambda>b. key (timeOf b)) ` set (take k ds)"
    unfolding image_iff by metis
  ultimately show ?thesis unfolding newer ds_def [symmetric] k(2) [symmetric] by simp
qed

lemma lastKeeps_newer:
  assumes "slice_sorter srt" "distinct (map b_BackupID bs)" "b \<in> set bs"
  shows "b_BackupID b \<in> b_BackupID ` set (take (nat n) (byRecency srt bs)) \<longleftrightarrow> int (card {a \<in> set bs. newerBackup a b}) < n"
proof -
  define ds where "ds = byRecency srt bs"
  note s = byRecency_spec [OF assms(1,2), folded ds_def]
  obtain k where k: "k < length ds" "b = ds ! k" using assms(3) s(1) by (metis in_set_conv_nth)
  have d: "distinct ds" "inj_on b_BackupID (set ds)" using s(3) by (simp_all add: distinct_map)
  have "length ds = length bs" using s(2) by (metis size_mset)
  then have "{a \<in> set bs. newerBackup a b} = set (take k ds)"
    using newer_position [OF assms(1,2), of k, folded ds_def] k by simp
  then have "card {a \<in> set bs. newerBackup a b} = k" using d(1) k(1) by (simp add: distinct_card)
  moreover have "b \<in> set (take m ds) \<longleftrightarrow> k < m" for m
  proof
    assume "b \<in> set (take m ds)"
    then obtain j where "j < m" "j < length ds" "ds ! j = b" by (auto simp: in_set_conv_nth)
    then show "k < m" using d(1) k by (metis nth_eq_iff_index_eq)
  qed (use k in \<open>auto simp: in_set_conv_nth\<close>)
  moreover have "b_BackupID b \<in> b_BackupID ` set (take (nat n) ds) \<longleftrightarrow> b \<in> set (take (nat n) ds)"
    using d(2) k set_take_subset [of "nat n" ds] by (intro inj_on_image_mem_iff) auto
  ultimately show ?thesis by (simp add: ds_def) linarith
qed

lemma fold_rules:
  "x \<in> set (reasonsOf (fold (\<lambda>(name, n, key). addReasons name (f n key)) rules m) i) \<longleftrightarrow>
     x \<in> set (reasonsOf m i) \<or> (\<exists>n key. (x, n, key) \<in> set rules \<and> i \<in> b_BackupID ` set (f n key))"
proof (induction rules arbitrary: m)
  case (Cons r rules)
  obtain name n key where r: "r = (name, n, key)" by (cases r)
  show ?case unfolding fold_Cons o_apply Cons.IH r case_prod_conv reasonsOf_addReasons by auto
qed simp

lemma policyReasons_iff:
  "x \<in> set (reasonsOf (policyReasons p desc) i) \<longleftrightarrow>
     (x = ''last'' \<and> i \<in> b_BackupID ` set (take (nat (fp_Last p)) desc) \<or>
      (\<exists>n key. (x, n, key) \<in> set (periodRules p) \<and> i \<in> b_BackupID ` set (ruleKeeps (\<lambda>b. key (timeOf b)) n 0 None desc))) \<or>
     x = ''within'' \<and> i \<in> b_BackupID ` set (filter (withinRule p) desc)"
proof -
  have "reasonsOf [] i = []" by (simp add: reasonsOf_def)
  then show ?thesis unfolding policyReasons_def reasonsOf_addReasons fold_rules by simp
qed

lemma periodRules_names:
  assumes "(name, n, key) \<in> set (periodRules p)"
  shows "name \<noteq> ''last''" "name \<noteq> ''within''" "(name, n', key') \<in> set (periodRules p) \<longleftrightarrow> n' = n \<and> key' = key"
  using assms by (auto simp: periodRules_def)

text \<open>A period rule of the policy with its key, and what two instants in the same period have in common.\<close>

lemma periodRules_mono:
  assumes "fixedOffset (fp_loc p)" "(name, n, key) \<in> set (periodRules p)" "t \<le> t'"
  shows "key t \<le> key t'"
  using assms yearly_mono daily_spec(1) hourly_spec(1) weekly_spec(1) monthly_spec(1) by (auto simp: periodRules_def)

text \<open>The reasons that the rules of a policy give to each backup.\<close>

definition selectsBy :: "Backup list \<Rightarrow> ForgetPolicy \<Rightarrow> keep_reasons \<Rightarrow> bool" where
  "selectsBy bs p rs \<longleftrightarrow> (\<forall>b \<in> set bs.
      let newer = {a \<in> set bs. newerBackup a b}; reasons = set (reasonsOf rs (b_BackupID b)) in
      (''last'' \<in> reasons \<longleftrightarrow> int (card newer) < fp_Last p) \<and>
      (\<forall>(name, n, key) \<in> set (periodRules p).
         name \<in> reasons \<longleftrightarrow> (\<forall>a \<in> newer. key (timeOf a) \<noteq> key (timeOf b)) \<and> int (card ((\<lambda>a. key (timeOf a)) ` newer)) < n) \<and>
      (''within'' \<in> reasons \<longleftrightarrow> withinRule p b))"

lemma policy_selects:
  assumes "slice_sorter srt" "distinct (map b_BackupID bs)" "fixedOffset (fp_loc p)"
    "fp_needsTime p \<longrightarrow> (\<forall>b \<in> set bs. b_Timestamp b \<noteq> None)"
  shows "\<exists>rs. selectByPolicy srt bs p = Inr rs \<and> selectsBy bs p rs"
proof -
  define desc where "desc = byRecency srt bs"
  note s = byRecency_spec [OF assms(1,2), folded desc_def]
  have sel: "selectByPolicy srt bs p = Inr (policyReasons p desc)"
    unfolding desc_def using assms(4) s(1) by (intro selectByPolicy_eq) (simp add: desc_def)
  have "let newer = {a \<in> set bs. newerBackup a b}; reasons = set (reasonsOf (policyReasons p desc) (b_BackupID b)) in
      (''last'' \<in> reasons \<longleftrightarrow> int (card newer) < fp_Last p) \<and>
      (\<forall>(name, n, key) \<in> set (periodRules p).
         name \<in> reasons \<longleftrightarrow> (\<forall>a \<in> newer. key (timeOf a) \<noteq> key (timeOf b)) \<and> int (card ((\<lambda>a. key (timeOf a)) ` newer)) < n) \<and>
      (''within'' \<in> reasons \<longleftrightarrow> withinRule p b)" if b: "b \<in> set bs" for b
  proof -
    define i where "i = b_BackupID b"
    define K where "K n key = (i \<in> b_BackupID ` set (ruleKeeps (\<lambda>b. key (timeOf b)) n 0 None desc))" for n key
    have last: "i \<in> b_BackupID ` set (take (nat (fp_Last p)) desc) \<longleftrightarrow> int (card {a \<in> set bs. newerBackup a b}) < fp_Last p"
      unfolding i_def desc_def by (rule lastKeeps_newer [OF assms(1,2) b])
    have within: "i \<in> b_BackupID ` set (filter (withinRule p) desc) \<longleftrightarrow> withinRule p b"
      using b s(1) assms(2) by (auto simp: i_def distinct_map inj_on_def)
    have rule: "K n key \<longleftrightarrow> (\<forall>a \<in> {a \<in> set bs. newerBackup a b}. key (timeOf a) \<noteq> key (timeOf b)) \<and>
        int (card ((\<lambda>a. key (timeOf a)) ` {a \<in> set bs. newerBackup a b})) < n" if "(name, n, key) \<in> set (periodRules p)" for name n key
      unfolding K_def i_def desc_def by (rule ruleKeeps_newer [OF assms(1,2) b periodRules_mono [OF assms(3) that]])
    have no: "(''last'', n, key) \<notin> set (periodRules p)" "(''within'', n, key) \<notin> set (periodRules p)" for n key
      using periodRules_names(1,2) by blast+
    have "''last'' \<in> set (reasonsOf (policyReasons p desc) i) \<longleftrightarrow> int (card {a \<in> set bs. newerBackup a b}) < fp_Last p"
      unfolding policyReasons_iff last within by (simp add: no)
    moreover have "name \<in> set (reasonsOf (policyReasons p desc) i) \<longleftrightarrow> K n key" if "(name, n, key) \<in> set (periodRules p)" for name n key
      unfolding policyReasons_iff K_def using periodRules_names [OF that] by simp
    moreover have "''within'' \<in> set (reasonsOf (policyReasons p desc) i) \<longleftrightarrow> withinRule p b"
      unfolding policyReasons_iff last within by (simp add: no)
    ultimately show ?thesis unfolding Let_def i_def [symmetric] using rule by (intro conjI ballI) auto
  qed
  then show ?thesis using sel by (auto simp: selectsBy_def)
qed

text \<open>
  C17: What a keep policy selects.  With distinct identifiers, a location of fixed offset and a
  timestamp wherever a rule needs one, selection succeeds; a backup is kept as one of the last n
  when fewer than n are newer, by a period rule when it is the newest of its period and fewer
  than n periods have a newer backup, and by the window when it is not older than the cutoff.
  The keys of two instants are equal exactly when they lie in the same hour, day, week from
  Monday to Sunday, month or year.
\<close>

theorem policy_selection:
  assumes "slice_sorter srt" "distinct (map b_BackupID bs)" "fixedOffset (fp_loc p)"
    "fp_needsTime p \<longrightarrow> (\<forall>b \<in> set bs. b_Timestamp b \<noteq> None)"
  shows "(\<exists>rs. selectByPolicy srt bs p = Inr rs \<and> selectsBy bs p rs) \<and>
    (\<forall>loc t t'.
      (hourlyKey loc t = hourlyKey loc t' \<longleftrightarrow> localSeconds loc t div 3600 = localSeconds loc t' div 3600) \<and>
      (dailyKey loc t = dailyKey loc t' \<longleftrightarrow> localDay loc t = localDay loc t') \<and>
      (weeklyKey loc t = weeklyKey loc t' \<longleftrightarrow> localDay loc t div 7 = localDay loc t' div 7) \<and>
      (monthlyKey loc t = monthlyKey loc t' \<longleftrightarrow>
         fst (t_Date loc t) = fst (t_Date loc t') \<and> fst (snd (t_Date loc t)) = fst (snd (t_Date loc t'))))"
  by (intro conjI policy_selects [OF assms] allI hourly_spec(2) daily_spec(2) weekly_spec(2) monthly_spec(2))

text \<open>Three backups, two of them on one day: the older of the two is not kept by the daily rule.\<close>

definition sampleBackup :: "string \<Rightarrow> int \<Rightarrow> Backup" where
  "sampleBackup i t = zeroBackup\<lparr> b_BackupID := i, b_Timestamp := Some t \<rparr>"

definition dailyPolicy :: ForgetPolicy where
  "dailyPolicy = \<lparr> fp_Last = 0, fp_Hourly = 0, fp_Daily = 2, fp_Weekly = 0, fp_Monthly = 0, fp_Yearly = 0,
     fp_Within = \<lparr> cd_Years = 0, cd_Months = 0, cd_Days = 0, cd_Hours = 0 \<rparr>, fp_HasWithin = False, fp_Now = (0, UTC), fp_Loc = None \<rparr>"

lemma sampleBackup_simps [simp]:
  "b_BackupID (sampleBackup i t) = i" "timeOf (sampleBackup i t) = t" "b_Timestamp (sampleBackup i t) = Some t"
  by (simp_all add: sampleBackup_def timeOf_def timeVal_def)

theorem policy_selection_witness:
  "\<exists>rs. selectByPolicy insertion [sampleBackup ''a'' 0, sampleBackup ''b'' 3600000000000] dailyPolicy = Inr rs \<and>
     ''daily'' \<notin> set (reasonsOf rs ''a'')"
proof -
  let ?a = "sampleBackup ''a'' 0" and ?b = "sampleBackup ''b'' 3600000000000"
  have offset: "fixedOffset (fp_loc dailyPolicy)" by (simp add: fixedOffset_def fp_loc_def dailyPolicy_def UTC_def)
  have ids: "distinct (map b_BackupID [?a, ?b])" by simp
  have times: "fp_needsTime dailyPolicy \<longrightarrow> (\<forall>b \<in> set [?a, ?b]. b_Timestamp b \<noteq> None)" by simp
  note sel = policy_selection [OF slice_sorter_insertion ids offset times]
  from conjunct1 [OF sel] obtain rs where rs: "selectByPolicy insertion [?a, ?b] dailyPolicy = Inr rs" "selectsBy [?a, ?b] dailyPolicy rs"
    by (elim exE conjE)
  have rule: "(''daily'', 2, dailyKey UTC) \<in> set (periodRules dailyPolicy)" by (simp add: periodRules_def dailyPolicy_def fp_loc_def)
  have "?a \<in> set [?a, ?b]" by simp
  note spec = bspec [OF rs(2) [unfolded selectsBy_def] this, unfolded Let_def]
  from bspec [OF conjunct1 [OF conjunct2 [OF spec]] rule]
  have "''daily'' \<in> set (reasonsOf rs (b_BackupID ?a)) \<longrightarrow> (\<forall>a \<in> {a \<in> set [?a, ?b]. newerBackup a ?a}. dailyKey UTC (timeOf a) \<noteq> dailyKey UTC (timeOf ?a))"
    unfolding case_prod_conv by (elim iffE conjE) (rule impI, drule mp, assumption, erule conjunct1)
  moreover have "?b \<in> {a \<in> set [?a, ?b]. newerBackup a ?a}" by (simp add: newerBackup_def timeVal_def)
  moreover have "dailyKey UTC (timeOf ?b) = dailyKey UTC (timeOf ?a)"
    unfolding conjunct2 [OF sel, rule_format, THEN conjunct2, THEN conjunct1]
    by (simp add: localDay_def localSeconds_def secondsOf_def UTC_def)
  ultimately have "''daily'' \<notin> set (reasonsOf rs (b_BackupID ?a))" by blast
  then show ?thesis using rs(1) unfolding sampleBackup_simps(1) by (intro exI conjI)
qed

end
