(* ===== verification/Forget_Run.thy ===== *)
theory Forget_Run
  imports Forget_Correct
begin

text \<open>
  The run of a keep policy over a repository: refusals leave the directory alone, and a
  deletion leaves every surviving backup with all the backups it refers to.
\<close>

section \<open>Listing\<close>

text \<open>The metadata stored under an identifier, where it can be read, names that identifier.\<close>

definition namesItself :: "(bytes \<Rightarrow> Backup option) \<Rightarrow> mdir \<Rightarrow> string \<Rightarrow> bool" where
  "namesItself legacy d i \<longleftrightarrow>
     (case fileOf d (DNMPath i) of
        Some f \<Rightarrow> (\<forall>r b. OpenDNMReader f = Inr r \<longrightarrow> readMetadata r = Inr b \<longrightarrow> b_BackupID b = i)
      | None \<Rightarrow> (\<forall>b. loadLegacy legacy d i = Inr b \<longrightarrow> b_BackupID b = i))"

lemma listLoop_ids:
  assumes "listLoop legacy d ids = Inr bs" "\<forall>i \<in> set ids. namesItself legacy d i"
  shows "length bs \<le> length ids \<and> (length bs = length ids \<longrightarrow> map b_BackupID bs = ids)"
  using assms
proof (induction ids arbitrary: bs)
  case (Cons i ids)
  from Cons.prems(1) obtain b1 b2 where b: "bs = b1 @ b2" "listLoop legacy d ids = Inr b2"
    "b1 = [] \<or> (\<exists>b. b1 = [b] \<and> b_BackupID b = i)"
    using Cons.prems(2) by (auto simp: namesItself_def split: option.splits sum.splits if_splits)
  from Cons.IH [OF b(2)] Cons.prems(2) have "length b2 \<le> length ids" "length b2 = length ids \<longrightarrow> map b_BackupID b2 = ids" by simp_all
  then show ?case using b(1,3) by auto
qed simp

lemma strict_weak_time: "strict_weak (\<lambda>a b. timeBefore (b_Timestamp a) (b_Timestamp b))"
  unfolding timeBefore_def by (rule strict_weak_key)

lemma ListBackups_ids:
  assumes "slice_sorter srt" "ListBackups srt legacy d = Inr bs" "\<forall>i \<in> set (ListIDs d). namesItself legacy d i"
    "length bs = length (ListIDs d)"
  shows "mset (map b_BackupID bs) = mset (ListIDs d)"
proof (cases "readDir d")
  case None
  then show ?thesis using assms(2) by (simp add: ListBackups_def ListIDs_def)
next
  case (Some names)
  from assms(2) Some obtain bs' where bs': "listLoop legacy d (collectIDs idByExt [] names) = Inr bs'"
    "bs = srt (\<lambda>a b. timeBefore (b_Timestamp a) (b_Timestamp b)) bs'"
    by (auto simp: ListBackups_def split: sum.splits)
  have ids: "ListIDs d = collectIDs idByExt [] names" using Some by (simp add: ListIDs_def idByExt_eq)
  have m: "mset bs = mset bs'" unfolding bs'(2) by (rule sorter_mset [OF assms(1) strict_weak_time])
  then have "length bs' = length (ListIDs d)" using assms(4) by (metis size_mset)
  then have "map b_BackupID bs' = ListIDs d"
    using listLoop_ids [OF bs'(1)] assms(3) by (simp add: ids)
  then show ?thesis using m by (metis mset_map)
qed


section \<open>Deletion\<close>

definition filesOf :: "string \<Rightarrow> string set" where
  "filesOf i = {DNMPath i, manifestPath i, EntriesPath i}"

lemma filesOf_disjoint: "n \<in> filesOf i \<Longrightarrow> n \<in> filesOf j \<Longrightarrow> i = j"
  by (auto simp: filesOf_def)

lemma DeleteBackup_listed:
  assumes "i \<in> set (ListIDs d)"
  shows "DeleteBackup i d = (None, removeFile (EntriesPath i) (removeFile (manifestPath i) (removeFile (DNMPath i) d)))"
  using assms by (auto simp: DeleteBackup_def ListIDs_iff Let_def)

lemma fileOf_DeleteBackup:
  assumes "i \<in> set (ListIDs d)"
  shows "fst (DeleteBackup i d) = None" "fileOf (snd (DeleteBackup i d)) n = (if n \<in> filesOf i then None else fileOf d n)"
  by (simp_all add: DeleteBackup_listed [OF assms] filesOf_def)

lemma deleteAll:
  fixes plan :: "'r Plan"
  assumes "distinct ids" "set ids \<subseteq> set (ListIDs d)"
  shows "\<exists>d'. fold (deleteOne DeleteBackup) ids (plan, d) = (plan\<lparr> pl_Deleted := pl_Deleted plan @ ids \<rparr>, d') \<and>
    (\<forall>n. fileOf d' n = (if \<exists>i \<in> set ids. n \<in> filesOf i then None else fileOf d n))"
  using assms
proof (induction ids arbitrary: plan d)
  case (Cons i ids)
  have i: "i \<in> set (ListIDs d)" using Cons.prems(2) by simp
  define d1 where "d1 = snd (DeleteBackup i d)"
  have step: "deleteOne DeleteBackup i (plan, d) = (plan\<lparr> pl_Deleted := pl_Deleted plan @ [i] \<rparr>, d1)"
    using fileOf_DeleteBackup(1) [OF i] by (cases "DeleteBackup i d") (simp add: deleteOne_def d1_def)
  have f: "fileOf d1 n = (if n \<in> filesOf i then None else fileOf d n)" for n
    unfolding d1_def by (rule fileOf_DeleteBackup(2) [OF i])
  have "j \<in> set (ListIDs d1)" if "j \<in> set ids" for j
  proof -
    have "j \<noteq> i" "j \<in> set (ListIDs d)" using Cons.prems that by auto
    then show ?thesis using f by (auto simp: ListIDs_iff filesOf_def)
  qed
  then obtain d' where d': "fold (deleteOne DeleteBackup) ids (plan\<lparr> pl_Deleted := pl_Deleted plan @ [i] \<rparr>, d1) =
      (plan\<lparr> pl_Deleted := pl_Deleted plan @ [i] @ ids \<rparr>, d')"
    "\<forall>n. fileOf d' n = (if \<exists>i \<in> set ids. n \<in> filesOf i then None else fileOf d1 n)"
    using Cons.IH [of d1 "plan\<lparr> pl_Deleted := pl_Deleted plan @ [i] \<rparr>"] Cons.prems(1) by auto
  then show ?case using step f by (intro exI [of _ d']) auto
qed simp

lemma LoadCatalog_frame:
  assumes "\<And>n. n \<in> filesOf i \<Longrightarrow> fileOf d' n = fileOf d n"
  shows "LoadCatalog legacy d' i = LoadCatalog legacy d i"
proof -
  have eq: "fileOf d' (DNMPath i) = fileOf d (DNMPath i)" "fileOf d' (manifestPath i) = fileOf d (manifestPath i)"
    using assms by (simp_all add: filesOf_def)
  show ?thesis unfolding LoadCatalog_def loadLegacy_def eq ..
qed


section \<open>The plan\<close>

text \<open>What the plan keeps: the selection and everything it refers to, and never nothing.\<close>

definition keepsClosed :: "(bytes \<Rightarrow> Backup option) \<Rightarrow> mdir \<Rightarrow> string set \<Rightarrow> bool" where
  "keepsClosed legacy d R \<longleftrightarrow>
     R \<subseteq> set (ListIDs d) \<and> (ListIDs d \<noteq> [] \<longrightarrow> R \<noteq> set (ListIDs d)) \<and>
     (\<forall>i \<in> set (ListIDs d) - R. \<forall>b e. LoadCatalog legacy d i = Inr b \<longrightarrow> e \<in> set (referenceEdges b) \<longrightarrow> re_ID e \<notin> R)"

lemma keepsClosed_empty: "keepsClosed legacy d {}"
  by (simp add: keepsClosed_def)

lemma forgetPlan_removes:
  fixes opts :: "'r ForgetOptions"
  assumes "slice_sorter bsrt" "slice_sorter esrt" "\<forall>i \<in> set (ListIDs d). namesItself legacy d i" "fo_Load opts = None"
    "forgetPlan bsrt esrt legacy opts d = Inr plan"
  shows "distinct (pl_Remove plan)" "keepsClosed legacy d (set (pl_Remove plan))" "pl_Deleted plan = []" "pl_DeleteErrs plan = []"
    "\<exists>bs keep. ListBackups bsrt legacy d = Inr bs \<and> selectByPolicy bsrt bs (fo_Policy opts) = Inr keep \<and> keptIDs keep \<inter> set (pl_Remove plan) = {}"
proof -
  from assms(4,5) obtain bs keep p dg promoted where
    bs: "ListBackups bsrt legacy d = Inr bs" "length bs = length (ListIDs d)" and
    keep: "selectByPolicy bsrt bs (fo_Policy opts) = Inr keep" and
    p: "Protect esrt (ListIDs d) keep (LoadCatalog legacy d) = Inr (p, dg)" and
    plan: "plan = planOf (byRecency bsrt bs) p dg promoted" "length (pl_Remove plan) \<noteq> length (ListIDs d)"
    by (auto simp: forgetPlan_def Let_def split: if_splits sum.splits)
  have m: "mset (map b_BackupID bs) = mset (ListIDs d)" by (rule ListBackups_ids [OF assms(1) bs(1) assms(3) bs(2)])
  then have ids: "set (map b_BackupID bs) = set (ListIDs d)" "distinct (map b_BackupID bs)"
    using distinct_ListIDs [of d] by (metis mset_eq_setD, metis mset_eq_imp_distinct_iff)
  note r = byRecency_spec [OF assms(1) ids(2)]
  have remove: "pl_Remove plan = map b_BackupID (filter (\<lambda>b. b_BackupID b \<notin> keptIDs p) (byRecency bsrt bs))"
    by (simp add: plan(1) planOf_def keptIDs_map_of)
  have set: "set (pl_Remove plan) = set (ListIDs d) - keptIDs p" unfolding remove using r(1) ids(1) by auto
  show dist: "distinct (pl_Remove plan)" unfolding remove using r(3) by (rule distinct_map_filter)
  show "pl_Deleted plan = []" "pl_DeleteErrs plan = []" by (simp_all add: plan(1) planOf_def)
  note prot = Protect_spec [OF assms(2), where allIDs = "ListIDs d" and keepReasons = keep and load = "LoadCatalog legacy d", unfolded p, simplified]
  have "keptIDs keep \<subseteq> keptIDs p" using prot by (auto intro: referenced.kept)
  then show "\<exists>bs keep. ListBackups bsrt legacy d = Inr bs \<and> selectByPolicy bsrt bs (fo_Policy opts) = Inr keep \<and> keptIDs keep \<inter> set (pl_Remove plan) = {}"
    using bs(1) keep set by blast
  have "set (pl_Remove plan) \<noteq> set (ListIDs d)"
    using plan(2) dist distinct_ListIDs [of d] by (metis distinct_card)
  moreover have "re_ID e \<notin> set (pl_Remove plan)"
    if "i \<in> set (ListIDs d) - set (pl_Remove plan)" "LoadCatalog legacy d i = Inr b" "e \<in> set (referenceEdges b)" for i b e
  proof -
    have "i \<in> keptIDs p" using that(1) set by blast
    then show ?thesis using prot that(2,3) set by fastforce
  qed
  ultimately show "keepsClosed legacy d (set (pl_Remove plan))" using set unfolding keepsClosed_def by blast
qed


section \<open>Properties\<close>

lemma survivors:
  assumes "\<forall>i. if i \<in> R then fileOf d' (DNMPath i) = None \<and> fileOf d' (manifestPath i) = None else samePaths d d' i"
  shows "set (ListIDs d') = set (ListIDs d) - R" "i \<in> set (ListIDs d') \<Longrightarrow> Load legacy d' i = Load legacy d i"
proof -
  have "i \<in> set (ListIDs d') \<longleftrightarrow> i \<in> set (ListIDs d) - R" for i
    using spec [OF assms, of i] by (cases "i \<in> R") (simp_all add: ListIDs_iff samePaths_def)
  then show eq: "set (ListIDs d') = set (ListIDs d) - R" by blast
  show "Load legacy d' i = Load legacy d i" if "i \<in> set (ListIDs d')"
    using spec [OF assms, of i] that eq by (intro Load_frame) (auto simp: samePaths_def)
qed

lemma run_outcome:
  fixes opts :: "'r ForgetOptions"
  assumes "slice_sorter bsrt" "slice_sorter esrt" "\<forall>i \<in> set (ListIDs d). namesItself legacy d i"
    "fo_Load opts = None" "fo_DeleteFn opts = None" "\<forall>d i. samePaths d (snd (pruneFn d)) i"
    "Run bsrt esrt legacy pruneFn opts d = ((plan, err), d')"
  obtains "d' = d" "\<forall>p. plan = Some p \<longrightarrow> pl_Deleted p = []"
  | p0 p where "\<not> fo_DryRun opts" "forgetPlan bsrt esrt legacy opts d = Inr p0" "plan = Some p" "pl_Deleted p = pl_Remove p0"
      "\<forall>i. if i \<in> set (pl_Remove p0) then fileOf d' (DNMPath i) = None \<and> fileOf d' (manifestPath i) = None else samePaths d d' i"
proof (cases "forgetPlan bsrt esrt legacy opts d")
  case (Inl e)
  then show ?thesis using assms(7) by (intro that(1)) (auto simp: Run_def)
next
  case (Inr p0)
  note plan = forgetPlan_removes [OF assms(1-4) Inr]
  show ?thesis
  proof (cases "fo_DryRun opts \<or> (case fo_Confirm opts of None \<Rightarrow> Inr True | Some confirm \<Rightarrow> confirm p0) \<noteq> Inr True")
    case True
    then show ?thesis using assms(7) Inr plan(3)
      by (intro that(1)) (auto simp: Run_def split: option.splits sum.splits bool.splits if_splits)
  next
    case False
    have "set (pl_Remove p0) \<subseteq> set (ListIDs d)" using plan(2) by (simp add: keepsClosed_def)
    from deleteAll [OF plan(1) this, of p0] obtain d1 where
      d1: "fold (deleteOne DeleteBackup) (pl_Remove p0) (p0, d) = (p0\<lparr> pl_Deleted := pl_Remove p0 \<rparr>, d1)"
      "\<forall>n. fileOf d1 n = (if \<exists>i \<in> set (pl_Remove p0). n \<in> filesOf i then None else fileOf d n)" using plan(3) by auto
    have kept: "if i \<in> set (pl_Remove p0) then fileOf d1 (DNMPath i) = None \<and> fileOf d1 (manifestPath i) = None else samePaths d d1 i" for i
      using d1(2) by (auto simp: samePaths_def filesOf_def)
    have "\<exists>p. plan = Some p \<and> pl_Deleted p = pl_Remove p0 \<and> (d' = d1 \<or> d' = snd (pruneFn d1))"
      using assms(5,7) Inr False d1(1) plan(3,4)
      by (auto simp: Run_def Let_def split: if_splits option.splits sum.splits bool.splits prod.splits)
    then obtain p where p: "plan = Some p" "pl_Deleted p = pl_Remove p0" "d' = d1 \<or> d' = snd (pruneFn d1)" by blast
    have "samePaths d1 d' i" for i using p(3) assms(6) by (auto simp: samePaths_def)
    then have "if i \<in> set (pl_Remove p0) then fileOf d' (DNMPath i) = None \<and> fileOf d' (manifestPath i) = None else samePaths d d' i" for i
      using kept [of i] by (auto simp: samePaths_def split: if_splits)
    then show ?thesis using False Inr p by (intro that(2)) auto
  qed
qed

text \<open>
  C4: Forgetting never breaks a surviving backup.  When the manifests name their own files, a run
  that refuses or only reports leaves the directory as it is, a run never removes every backup
  nor one that the policy selects, and every backup that is left loads as before and has every
  backup that its parent link or its files refer to, as far as it existed before the run.
\<close>

theorem forget_keeps_references:
  fixes opts :: "'r ForgetOptions"
  assumes "slice_sorter bsrt" "slice_sorter esrt" "\<forall>i \<in> set (ListIDs d). namesItself legacy d i"
    "fo_Load opts = None" "fo_DeleteFn opts = None" "\<forall>d i. samePaths d (snd (pruneFn d)) i"
    "Run bsrt esrt legacy pruneFn opts d = ((plan, err), d')"
  shows "(plan = None \<or> fo_DryRun opts \<longrightarrow> d' = d) \<and> (ListIDs d \<noteq> [] \<longrightarrow> ListIDs d' \<noteq> []) \<and>
    (\<forall>p. plan = Some p \<longrightarrow> set (ListIDs d') = set (ListIDs d) - set (pl_Deleted p)) \<and>
    (\<forall>bs keep. ListBackups bsrt legacy d = Inr bs \<longrightarrow> selectByPolicy bsrt bs (fo_Policy opts) = Inr keep \<longrightarrow>
       keptIDs keep \<inter> set (ListIDs d) \<subseteq> set (ListIDs d')) \<and>
    (\<forall>i \<in> set (ListIDs d'). Load legacy d' i = Load legacy d i \<and>
       (\<forall>b e. LoadCatalog legacy d i = Inr b \<longrightarrow> e \<in> set (referenceEdges b) \<longrightarrow> re_ID e \<in> set (ListIDs d) \<longrightarrow> re_ID e \<in> set (ListIDs d')))"
  using assms
proof (cases rule: run_outcome)
  case 1
  then show ?thesis by auto
next
  case (2 p0 p)
  note plan = forgetPlan_removes [OF assms(1-4) 2(2)]
  note s = survivors [OF 2(5)]
  have closed: "set (pl_Remove p0) \<subseteq> set (ListIDs d)" "ListIDs d \<noteq> [] \<longrightarrow> set (pl_Remove p0) \<noteq> set (ListIDs d)"
    "\<And>i b e. i \<in> set (ListIDs d) - set (pl_Remove p0) \<Longrightarrow> LoadCatalog legacy d i = Inr b \<Longrightarrow> e \<in> set (referenceEdges b) \<Longrightarrow> re_ID e \<notin> set (pl_Remove p0)"
    using plan(2) unfolding keepsClosed_def by blast+
  have "ListIDs d \<noteq> [] \<longrightarrow> ListIDs d' \<noteq> []" using closed(1,2) s(1) by (metis Diff_eq_empty_iff set_empty2 subset_antisym)
  moreover have "keptIDs keep \<inter> set (ListIDs d) \<subseteq> set (ListIDs d')"
    if "ListBackups bsrt legacy d = Inr bs" "selectByPolicy bsrt bs (fo_Policy opts) = Inr keep" for bs keep
    using plan(5) that unfolding s(1) by auto
  moreover have "re_ID e \<in> set (ListIDs d')"
    if "i \<in> set (ListIDs d')" "LoadCatalog legacy d i = Inr b" "e \<in> set (referenceEdges b)" "re_ID e \<in> set (ListIDs d)" for i b e
    using closed(3) [of i b e] that unfolding s(1) by blast
  ultimately show ?thesis using 2(1,3,4) s by auto
qed

text \<open>Two legacy backups and a policy that keeps the last one.\<close>

definition twoLegacy :: "bytes \<Rightarrow> Backup option" where
  "twoLegacy data = (if data = [1] then Some (sampleBackup ''a'' 1) else if data = [2] then Some (sampleBackup ''b'' 2) else None)"

definition twoBackups :: mdir where
  "twoBackups = Some [(''a.manifest'', [1]), (''b.manifest'', [2])]"

definition lastOptions :: "unit ForgetOptions" where
  "lastOptions = \<lparr> fo_Policy = dailyPolicy\<lparr> fp_Last := 1 \<rparr>, fo_DryRun = False, fo_Prune = False, fo_Strict = False,
     fo_Confirm = None, fo_Load = None, fo_DeleteFn = None \<rparr>"

lemma twoBackups_names: "\<forall>i \<in> set (ListIDs twoBackups). namesItself twoLegacy twoBackups i" "ListIDs twoBackups \<noteq> []"
proof -
  have a: "manifestPath i = ''a.manifest'' \<longleftrightarrow> i = ''a''" and b: "manifestPath i = ''b.manifest'' \<longleftrightarrow> i = ''b''" for i
    using append_same_eq [of i "''.manifest''" "''a''"] append_same_eq [of i "''.manifest''" "''b''"] by (simp_all add: manifestPath_def)
  have no: "fileOf twoBackups (DNMPath i) = None" for i by (auto simp: fileOf_def twoBackups_def DNMPath_def)
  have f: "fileOf twoBackups (manifestPath i) = (if i = ''a'' then Some [1] else if i = ''b'' then Some [2] else None)" for i
    using a [of i] b [of i] by (auto simp: fileOf_def twoBackups_def)
  show "\<forall>i \<in> set (ListIDs twoBackups). namesItself twoLegacy twoBackups i"
    by (auto simp: namesItself_def no loadLegacy_def f twoLegacy_def split: if_splits)
  have "''a'' \<in> set (ListIDs twoBackups)" by (simp add: ListIDs_iff no f)
  then show "ListIDs twoBackups \<noteq> []" by auto
qed

theorem forget_keeps_references_witness:
  "ListIDs (snd (Run insertion insertion twoLegacy (\<lambda>d. (None, d)) lastOptions twoBackups)) \<noteq> []"
proof -
  obtain plan err d' where r: "Run insertion insertion twoLegacy (\<lambda>d. (None, d)) lastOptions twoBackups = ((plan, err), d')"
    by (metis surj_pair)
  have "\<forall>d i. samePaths d (snd ((None :: unit option), d)) i" by (simp add: samePaths_def)
  moreover have "fo_Load lastOptions = None" "fo_DeleteFn lastOptions = None" by (simp_all add: lastOptions_def)
  ultimately have "ListIDs twoBackups \<noteq> [] \<longrightarrow> ListIDs d' \<noteq> []"
    using forget_keeps_references [OF slice_sorter_insertion slice_sorter_insertion twoBackups_names(1) _ _ _ r] by simp
  then show ?thesis using twoBackups_names(2) by (simp add: r)
qed

end
