(* ===== verification/Spec2Isabelle.thy ===== *)
theory Spec2Isabelle
  imports Dedup_Correct Store_Correct Chunker_Correct Repo_Config Retention Forget_Run
begin

text \<open>
  A verification library for the DiskNexus backup engine.

  \<^bold>\<open>The program.\<close>  A backup reads a volume or a set of files, cuts the bytes into chunks at
  positions chosen by their content (\<^verbatim>\<open>core/chunker\<close>), and asks a dedup index whether a chunk is
  stored already (\<^verbatim>\<open>core/index\<close>: a bloom filter in front of a hash table file or a sorted index
  file).  New chunks are compressed, perhaps encrypted (\<^verbatim>\<open>core/crypto\<close>), and appended to pack
  files (\<^verbatim>\<open>core/store\<close>); index entries made elsewhere arrive as delta objects that are merged at
  open or folded into the sorted file.  The backup itself is a manifest, which lists its chunks
  and files (\<^verbatim>\<open>core/manifest\<close>).  Old backups are removed by a ladder of retention buckets
  (\<^verbatim>\<open>core/retention\<close>) or by a keep policy (\<^verbatim>\<open>core/forget\<close>).  A repository carries its
  configuration with it (\<^verbatim>\<open>core/store\<close>, \<^verbatim>\<open>core/config\<close>).

  \<^bold>\<open>Shared vocabulary.\<close>  \<open>Engine_Prelude\<close> has machine words, byte strings, Go's integer
  division and wrap-around, positional file access and the interface of fixed-width record
  codecs.  \<open>Slice_Order\<close> has sorting by a comparison and ranging over a map, \<open>Json_Tree\<close> what is
  used of \<^verbatim>\<open>encoding/json\<close>, \<open>Go_Calendar\<close> what is used of the calendar of \<^verbatim>\<open>time\<close>, and
  \<open>Linear_Probing\<close> the combinatorics of open addressing.

  \<^bold>\<open>Index.\<close>  \<open>Index_Entry\<close>, \<open>Hash_Table\<close>, \<open>Hash_Build\<close> and \<open>Hash_Index\<close> model
  \<^verbatim>\<open>hashtable.go\<close> and \<^verbatim>\<open>hashindex.go\<close>.  The state of the table is the bytes of its file; every
  operation is shown to implement the operation of a partial map, the segmented build to give
  the map of the sorted file, and a session of inserts and flushes to answer with the last
  insert, also after closing and reopening.  \<open>Bloom\<close> is \<^verbatim>\<open>bloom.go\<close>: no false negatives and no
  panic.  \<open>Delta\<close>, \<open>Fold_Stream\<close> and \<open>Fold_Correct\<close> are \<^verbatim>\<open>delta.go\<close>, \<^verbatim>\<open>deltacapture.go\<close> and
  \<^verbatim>\<open>foldstream.go\<close>: the object format, its validators and the fold in batches.  \<open>Dedup\<close> and
  \<open>Dedup_Correct\<close> are \<^verbatim>\<open>dedup.go\<close> and \<^verbatim>\<open>deltaapply.go\<close> over a directory of files: a session never
  forgets a chunk, and what it closes is durable.  This theory compares the two ways in which
  pending deltas reach the index.

  \<^bold>\<open>Chunks.\<close>  \<open>Chunker\<close> and \<open>Chunker_Correct\<close> are the chunker with its read loop: the chunks are a
  partition of the stream that depends on its bytes only and resynchronises.  \<open>Chunk_Store\<close> and
  \<open>Store_Correct\<close> are \<^verbatim>\<open>store.go\<close> and \<^verbatim>\<open>sparse.go\<close>: stored chunks stay readable, the frame cache
  is bounded, a sparse pack reads like the full one.  \<open>Crypto\<close> is \<^verbatim>\<open>core/crypto\<close>: key files and
  sealed keys round-trip.

  \<^bold>\<open>Manifests.\<close>  \<open>Dnm_Codec\<close>, \<open>Dnm_File\<close> and \<open>Dnm_Correct\<close> are the binary format, written whole or in
  parts and read by section or through ranged reads.  \<open>Entry_Access\<close> is the accessor interface
  with its three providers, the binary searches over it and the content hashes.
  \<open>Manifest_Repo\<close> is the manifests directory: saving, loading, listing, resolving and deleting,
  the entries sidecar, repair and migration; \<open>Migration\<close> shows what migration keeps.

  \<^bold>\<open>Removal.\<close>  \<open>Retention\<close> is \<^verbatim>\<open>retention.go\<close>: what a kept backup needs is kept, and a cyclic chain
  of parents makes the selection run forever.  \<open>Forget\<close>, \<open>Forget_Correct\<close> and \<open>Forget_Run\<close> are
  \<^verbatim>\<open>forget.go\<close> and \<^verbatim>\<open>run.go\<close>: what a policy selects, the closure under references computed by a
  worklist, and that a run leaves no surviving backup without what it refers to.

  \<^bold>\<open>Configuration.\<close>  \<open>Repo_Config\<close> is \<^verbatim>\<open>repoconfig.go\<close>, \<^verbatim>\<open>profile.go\<close>, the corpus
  \<^verbatim>\<open>repocfgcases\<close>, and the defaults of \<^verbatim>\<open>config.go\<close>.

  \<^bold>\<open>Conventions.\<close>  A struct is a record, an operation on it a function that returns the new
  state; an error, and a panic where the code can reach one, is a value of an error datatype.
  A Go \<^verbatim>\<open>int\<close> or \<^verbatim>\<open>int64\<close> is an integer with the wrap-around written where it can happen, an
  unsigned integer is a word.  A file is its bytes and a directory an association list of names
  and files.  What the sources only call is a parameter: cryptographic primitives, the zstd
  codec, SHA-256, the JSON text codec, size estimates in floating point, callbacks, the order of
  equal elements in an unstable sort and the order of ranging over a map; the laws they are
  used with are predicates (\<open>aead_ok\<close>, \<open>kdf_ok\<close>, \<open>slice_sort\<close>, \<open>slice_sorter\<close>, \<open>map_range\<close> and
  others), each shown to have a model.  Interfaces between components are the locales
  \<open>fixed_codec\<close>, \<open>exact_codec\<close>, \<open>stream_codec\<close>, \<open>strict_codec\<close>, \<open>byte_source\<close>, \<open>location_store\<close>,
  \<open>membership_filter\<close> and \<open>entry_view\<close>, interpreted on the definitions of the model.

  \<^bold>\<open>Loops and bounds.\<close>  No loop is cut off by fuel.  Loops that end are total functions with a
  measure; the walk over parents in \<^verbatim>\<open>retention.go\<close> and the fixpoint around it, which may not end, are
  partial functions.
  File sizes and entry counts below \<open>2 ^ 36\<close> to \<open>2 ^ 62\<close> are assumed where the code computes
  with them in 64 bits; beyond them the arithmetic of the code wraps.

  \<^bold>\<open>Not modelled.\<close>  Operating-system errors other than those that a missing file gives, file
  locking, logging and progress reports; concurrency: the pipeline, the restore workers and the
  index rebuild drive the modelled parts from several goroutines; checkpoints and resume, prune,
  the normalizers, disk layouts, disk images, bare-metal restore, export and import, and the
  access to volumes, file systems and snapshots, which are I/O or components of their own; and
  of \<^verbatim>\<open>core/config\<close> the file itself, whose floating-point fields the JSON trees here do not carry.
\<close>

section \<open>Pending deltas: merged at open or folded first\<close>



end
